theory Spec2Isabelle
  imports Main "HOL-Library.Word" "HOL-Library.Signed_Division"
begin

unbundle bit_operations_syntax

section \<open>Big-endian operand codec\<close>

text \<open>
  The instruction header declares \<open>decode_instructions_to_sizet (uint8_t *, size_t)\<close> and
  the unit test \<open>test_be_to_size_t\<close> calls \<open>size_t_to_uint8_be (i, 2)\<close> and
  \<open>be_to_size_t (arr, 2)\<close>, but the bodies of the codec are not part of the sources at hand.
\<close>

type_synonym uint8_t = "8 word"
type_synonym size_t = "64 word"

text \<open>
  Modelled from the spec: the body of the encoder \<open>size_t_to_uint8_be\<close> is missing. The
  specification says that all multi-byte operands are big-endian unsigned, so the encoder
  writes the \<open>nbytes\<close> low-order bytes of the value, most significant byte first.
\<close>

fun size_t_to_uint8_be :: "size_t \<Rightarrow> nat \<Rightarrow> uint8_t list" where
  "size_t_to_uint8_be val 0 = []"
| "size_t_to_uint8_be val (Suc n) = ucast (drop_bit (8 * n) val) # size_t_to_uint8_be val n"

text \<open>
  Modelled from the spec: the body of the decoder \<open>be_to_size_t\<close> (declared as
  \<open>decode_instructions_to_sizet\<close>) is missing. It reads \<open>nbytes\<close> bytes, the first being the
  most significant, and fails when the array is shorter than \<open>nbytes\<close>.
\<close>

fun be_accumulate :: "size_t \<Rightarrow> uint8_t list \<Rightarrow> size_t" where
  "be_accumulate acc [] = acc"
| "be_accumulate acc (b # bs) = be_accumulate (push_bit 8 acc OR ucast b) bs"

definition be_to_size_t :: "uint8_t list \<Rightarrow> nat \<Rightarrow> size_t option" where
  "be_to_size_t arr nbytes =
     (if length arr < nbytes then None else Some (be_accumulate 0 (take nbytes arr)))"

section \<open>Integer to string conversion\<close>

text \<open>
  \<open>long\<close> is taken to be the 64-bit two's complement type of the LP64 platforms the program
  is built for. Values are integers in \<open>LONG_MIN .. LONG_MAX\<close>; an operation that can leave
  the range is wrapped by \<open>wrap_long\<close>.
\<close>

definition LONG_MAX :: int where
  "LONG_MAX = 2 ^ 63 - 1"

definition LONG_MIN :: int where
  "LONG_MIN = - (2 ^ 63)"

definition wrap_long :: "int \<Rightarrow> int" where
  "wrap_long x = signed_take_bit 63 x"

text \<open>
  The loop \<open>while (l >= 10) { l /= 10; size++; }\<close> of \<open>calculate_string_size\<close>. The counter
  \<open>size\<close> (here \<open>sz\<close>) is a \<open>size_t\<close>; it stays below 21 and is kept as a natural number.
\<close>

function calculate_string_size_loop :: "int \<Rightarrow> nat \<Rightarrow> nat" where
  "calculate_string_size_loop l sz =
     (if l \<ge> 10 then calculate_string_size_loop (l sdiv 10) (sz + 1) else sz)"
  by pat_completeness auto
termination
  by (relation "measure (\<lambda>(l, sz). nat l)")
     (auto simp: signed_divide_int_def sgn_if)

definition calculate_string_size :: "int \<Rightarrow> nat" where
  "calculate_string_size l =
     (let (sz, l) = (if l < 0 then (1, wrap_long (-1 * l)) else (0, l))
      in calculate_string_size_loop l sz + 1)"

text \<open>
  The statement \<open>str[--index] = c\<close> on the allocated block \<open>str\<close>. The index is unsigned, so
  decrementing zero, or writing at or beyond the end of the block, leaves the block: the model
  stops with \<open>None\<close> there.
\<close>

definition store_before :: "char list \<times> nat \<Rightarrow> char \<Rightarrow> (char list \<times> nat) option" where
  "store_before st c =
     (case st of (str, index) \<Rightarrow>
        if index = 0 \<or> length str \<le> index - 1 then None
        else Some (str[index - 1 := c], index - 1))"

text \<open>
  The loop \<open>while (l >= 10) { rem = l % 10; l /= 10; str[--index] = 48 + rem; }\<close>; it
  returns the block, the index and the remaining value of \<open>l\<close>.
\<close>

function long_to_string_loop :: "char list \<times> nat \<Rightarrow> int \<Rightarrow> ((char list \<times> nat) \<times> int) option" where
  "long_to_string_loop st l =
     (if l \<ge> 10 then
        (case store_before st (char_of (48 + l smod 10)) of
           None \<Rightarrow> None
         | Some st' \<Rightarrow> long_to_string_loop st' (l sdiv 10))
      else Some (st, l))"
  by pat_completeness auto
termination
  by (relation "measure (\<lambda>(st, l). nat l)")
     (auto simp: signed_divide_int_def sgn_if)

text \<open>
  \<open>long_to_string\<close>. The block returned by \<open>malloc (str_size + 1)\<close> is not initialised: its
  contents before the writes are given by the parameter \<open>junk\<close>. The result is the whole block;
  the string the caller sees is \<open>c_str\<close> of it.
\<close>

definition long_to_string :: "(nat \<Rightarrow> char) \<Rightarrow> int \<Rightarrow> char list option" where
  "long_to_string junk l =
     (let str_size = calculate_string_size l + 1;
          str = map junk [0 ..< str_size + 1];
          index = str_size;
          is_negative = (l < 0);
          l = (if is_negative then wrap_long (-1 * l) else l)
      in case store_before (str, index) (CHR 0x00) of
           None \<Rightarrow> None
         | Some st1 \<Rightarrow>
            (case long_to_string_loop st1 l of
               None \<Rightarrow> None
             | Some (st2, l) \<Rightarrow>
                (case store_before st2 (char_of (48 + l)) of
                   None \<Rightarrow> None
                 | Some st3 \<Rightarrow>
                    if is_negative then
                      (case store_before st3 (CHR ''-'') of
                         None \<Rightarrow> None
                       | Some st4 \<Rightarrow> Some (fst st4))
                    else Some (fst st3))))"

definition c_str :: "char list \<Rightarrow> string" where
  "c_str mem = takeWhile (\<lambda>c. c \<noteq> CHR 0x00) mem"

text \<open>
  The decimal representation the result is compared with: the digits of the absolute value,
  most significant first, without leading zeros, after a minus sign for a negative number;
  and the reading of such a string as a number.
\<close>

definition digit_char :: "nat \<Rightarrow> char" where
  "digit_char d = char_of (48 + d)"

fun decimal_digits :: "nat \<Rightarrow> string" where
  "decimal_digits n =
     (if n < 10 then [digit_char n] else decimal_digits (n div 10) @ [digit_char (n mod 10)])"

definition decimal_repr :: "int \<Rightarrow> string" where
  "decimal_repr n = (if n < 0 then CHR ''-'' # decimal_digits (nat (- n)) else decimal_digits (nat n))"

definition is_digit_char :: "char \<Rightarrow> bool" where
  "is_digit_char c = ((48::nat) \<le> of_char c \<and> (of_char c :: nat) \<le> 57)"

fun digits_value :: "nat \<Rightarrow> string \<Rightarrow> nat option" where
  "digits_value acc [] = Some acc"
| "digits_value acc (c # cs) =
     (if is_digit_char c then digits_value (10 * acc + ((of_char c :: nat) - 48)) cs else None)"

definition decimal_value :: "string \<Rightarrow> int option" where
  "decimal_value s =
     (case s of
        [] \<Rightarrow> None
      | c # cs \<Rightarrow>
          if c = CHR ''-'' then (if cs = [] then None else map_option (\<lambda>n. - int n) (digits_value 0 cs))
          else map_option int (digits_value 0 s))"

section \<open>Memory, linked list and hash table\<close>

text \<open>
  Pointers are 64-bit addresses and \<open>NULL\<close> is address 0. The heap keeps the objects of each
  struct type in a map of its own. What \<open>malloc\<close> returns is not decided by the program: the
  heap carries the sequence \<open>avail\<close> of the addresses the coming calls of \<open>malloc\<close> will return,
  where \<open>NULL\<close> in the sequence (or its end) is a failed allocation.
\<close>

type_synonym addr = "64 word"

definition NULL :: addr where
  "NULL = 0"

record cm_list_node =
  node_data :: addr
  node_next :: addr

record cm_list =
  list_head :: addr
  list_tail :: addr
  list_length :: size_t

record cm_hash_entry =
  entry_key :: addr
  entry_value :: addr

text \<open>
  \<open>cm_hash_table\<close>: the array \<open>table\<close> of bucket lists is kept inside the record. The two
  function pointers \<open>hash_func\<close> and \<open>keycmp\<close> are functions on key pointers; the pointers
  \<open>free_key\<close> and \<open>free_value\<close> are used by \<open>cm_hash_table_free\<close> only and are left out.
\<close>

record cm_hash_table =
  hash_func :: "addr \<Rightarrow> size_t"
  keycmp :: "addr \<Rightarrow> addr \<Rightarrow> bool"
  table_size :: size_t
  table :: "addr list"
  nentries :: size_t
  nkeys :: size_t

record heap =
  lists :: "addr \<rightharpoonup> cm_list"
  nodes :: "addr \<rightharpoonup> cm_list_node"
  entries :: "addr \<rightharpoonup> cm_hash_entry"
  tables :: "addr \<rightharpoonup> cm_hash_table"
  avail :: "addr list"

text \<open>
  A run stops early when the program calls \<open>errx (EXIT_FAILURE, ...)\<close>, when it dereferences
  a pointer that is not an object of the heap, or when it divides by zero.
\<close>

datatype fault = Exit_Failure | Invalid_Pointer | Division_By_Zero

definition malloc :: "heap \<Rightarrow> addr \<times> heap" where
  "malloc h = (case avail h of [] \<Rightarrow> (NULL, h) | p # ps \<Rightarrow> (p, h\<lparr>avail := ps\<rparr>))"

definition cm_list_init :: "heap \<Rightarrow> fault + (addr \<times> heap)" where
  "cm_list_init h =
     (case malloc h of (list, h1) \<Rightarrow>
        if list = NULL then Inl Exit_Failure
        else Inr (list, h1\<lparr>lists := (lists h1)(list \<mapsto>
                    \<lparr>list_head = NULL, list_tail = NULL, list_length = 0\<rparr>)\<rparr>))"

text \<open>
  \<open>cm_list_add\<close> returns 0 when \<open>malloc\<close> fails and 1 otherwise. The statements are taken in
  the order of the source: the new node is filled, the length is incremented, and then the
  node becomes the head of an empty list or is linked behind the tail.
\<close>

definition cm_list_add :: "heap \<Rightarrow> addr \<Rightarrow> addr \<Rightarrow> fault + (int \<times> heap)" where
  "cm_list_add h list data =
     (case malloc h of (node, h1) \<Rightarrow>
        if node = NULL then Inr (0, h1)
        else
          let h2 = h1\<lparr>nodes := (nodes h1)(node \<mapsto> \<lparr>node_data = data, node_next = NULL\<rparr>)\<rparr>
          in case lists h2 list of
               None \<Rightarrow> Inl Invalid_Pointer
             | Some l \<Rightarrow>
                 let l1 = l\<lparr>list_length := list_length l + 1\<rparr>
                 in if list_head l1 = NULL then
                      Inr (1, h2\<lparr>lists := (lists h2)(list \<mapsto> l1\<lparr>list_head := node, list_tail := node\<rparr>)\<rparr>)
                    else
                      (case nodes h2 (list_tail l1) of
                         None \<Rightarrow> Inl Invalid_Pointer
                       | Some t \<Rightarrow>
                           Inr (1, h2\<lparr>nodes := (nodes h2)(list_tail l1 \<mapsto> t\<lparr>node_next := node\<rparr>),
                                     lists := (lists h2)(list \<mapsto> l1\<lparr>list_tail := node\<rparr>)\<rparr>)))"

text \<open>
  The cells of a list: \<open>chain ns p cells\<close> holds when following the \<open>next\<close> pointers from \<open>p\<close>
  visits exactly the nodes whose addresses and data pointers are listed in \<open>cells\<close> and then
  reaches \<open>NULL\<close>. This is the sequence every traversal \<open>while (node != NULL)\<close> of the source
  sees.
\<close>

fun chain :: "(addr \<rightharpoonup> cm_list_node) \<Rightarrow> addr \<Rightarrow> (addr \<times> addr) list \<Rightarrow> bool" where
  "chain ns p [] = (p = NULL)"
| "chain ns p (c # cells) =
     (p = fst c \<and> p \<noteq> NULL \<and>
      (case ns p of
         None \<Rightarrow> False
       | Some n \<Rightarrow> node_data n = snd c \<and> chain ns (node_next n) cells))"

text \<open>
  The invariant of a list object at \<open>list\<close>: its head starts a chain with the given cells, its
  length field counts them, and its tail is the last of them (\<open>NULL\<close> for the empty list, as
  \<open>cm_list_init\<close> leaves it).
\<close>

definition cm_list_inv :: "heap \<Rightarrow> addr \<Rightarrow> (addr \<times> addr) list \<Rightarrow> bool" where
  "cm_list_inv h list cells =
     (case lists h list of
        None \<Rightarrow> False
      | Some l \<Rightarrow>
          chain (nodes h) (list_head l) cells \<and>
          unat (list_length l) = length cells \<and>
          list_tail l = (if cells = [] then NULL else fst (last cells)))"

text \<open>
  \<open>cm_hash_table_init\<close>. The constant \<open>INITIAL_HASHTABLE_SIZE\<close> is defined in a header that is
  not part of the sources at hand; it is the parameter \<open>initial_size\<close>. The array of buckets
  is obtained from \<open>calloc\<close>, which takes its address from the same sequence as \<open>malloc\<close> and
  zeroes the array.
\<close>

definition cm_hash_table_init ::
  "heap \<Rightarrow> size_t \<Rightarrow> (addr \<Rightarrow> size_t) \<Rightarrow> (addr \<Rightarrow> addr \<Rightarrow> bool) \<Rightarrow> fault + (addr \<times> heap)" where
  "cm_hash_table_init h initial_size hash_fn cmp_fn =
     (case malloc h of (tbl, h1) \<Rightarrow>
        if tbl = NULL then Inl Exit_Failure
        else
          (case malloc h1 of (arr, h2) \<Rightarrow>
             if arr = NULL then Inl Exit_Failure
             else Inr (tbl, h2\<lparr>tables := (tables h2)(tbl \<mapsto>
                    \<lparr>hash_func = hash_fn, keycmp = cmp_fn, table_size = initial_size,
                     table = replicate (unat initial_size) NULL, nentries = 0, nkeys = 0\<rparr>)\<rparr>)))"

text \<open>
  The bucket index \<open>hash_func (key) % table_size\<close>, computed in \<open>size_t\<close>.
\<close>

definition bucket_index :: "cm_hash_table \<Rightarrow> addr \<Rightarrow> fault + nat" where
  "bucket_index t key =
     (if table_size t = 0 then Inl Division_By_Zero
      else
        let index = unat (hash_func t key mod table_size t)
        in if index < length (table t) then Inr index else Inl Invalid_Pointer)"

text \<open>
  \<open>cm_hash_table_put\<close>: the bucket list is created when the bucket is empty; then a new entry
  is allocated, filled and handed to \<open>cm_list_add\<close>, whose return value is not looked at. The
  source does not search the bucket for the key.
\<close>

definition cm_hash_table_put :: "heap \<Rightarrow> addr \<Rightarrow> addr \<Rightarrow> addr \<Rightarrow> fault + heap" where
  "cm_hash_table_put h hash_table key val =
     (case tables h hash_table of
        None \<Rightarrow> Inl Invalid_Pointer
      | Some t \<Rightarrow>
         (case bucket_index t key of
            Inl f \<Rightarrow> Inl f
          | Inr index \<Rightarrow>
             (case (if table t ! index = NULL then
                      (case cm_list_init h of
                         Inl f \<Rightarrow> Inl f
                       | Inr (list_entry, h1) \<Rightarrow>
                           Inr (list_entry,
                                h1\<lparr>tables := (tables h1)(hash_table \<mapsto>
                                      t\<lparr>table := (table t)[index := list_entry],
                                        nentries := nentries t + 1\<rparr>)\<rparr>))
                    else Inr (table t ! index, h)) of
                Inl f \<Rightarrow> Inl f
              | Inr (list_entry, h2) \<Rightarrow>
                 (case malloc h2 of (entry, h3) \<Rightarrow>
                    if entry = NULL then Inl Exit_Failure
                    else
                      (case tables h3 hash_table of
                         None \<Rightarrow> Inl Invalid_Pointer
                       | Some t3 \<Rightarrow>
                          let h4 = h3\<lparr>entries := (entries h3)(entry \<mapsto>
                                         \<lparr>entry_key = key, entry_value = val\<rparr>),
                                       tables := (tables h3)(hash_table \<mapsto>
                                         t3\<lparr>nkeys := nkeys t3 + 1\<rparr>)\<rparr>
                          in (case cm_list_add h4 list_entry entry of
                                Inl f \<Rightarrow> Inl f
                              | Inr (ret, h5) \<Rightarrow> Inr h5))))))"

text \<open>
  The loop of \<open>cm_hash_table_get\<close> over the nodes of a bucket. It runs until it finds an entry
  whose key the comparator accepts or reaches \<open>NULL\<close>; on a cyclic bucket it does not return,
  which is the value \<open>None\<close>.
\<close>

partial_function (option) cm_hash_table_get_loop ::
  "heap \<Rightarrow> (addr \<Rightarrow> addr \<Rightarrow> bool) \<Rightarrow> addr \<Rightarrow> addr \<Rightarrow> (fault + addr) option" where
  "cm_hash_table_get_loop h cmp key list_node =
     (if list_node = NULL then Some (Inr NULL)
      else
        (case nodes h list_node of
           None \<Rightarrow> Some (Inl Invalid_Pointer)
         | Some n \<Rightarrow>
            (case entries h (node_data n) of
               None \<Rightarrow> Some (Inl Invalid_Pointer)
             | Some entry \<Rightarrow>
                 if cmp (entry_key entry) key then Some (Inr (entry_value entry))
                 else cm_hash_table_get_loop h cmp key (node_next n))))"

definition cm_hash_table_get :: "heap \<Rightarrow> addr \<Rightarrow> addr \<Rightarrow> (fault + addr) option" where
  "cm_hash_table_get h hash_table key =
     (case tables h hash_table of
        None \<Rightarrow> Some (Inl Invalid_Pointer)
      | Some t \<Rightarrow>
         (case bucket_index t key of
            Inl f \<Rightarrow> Some (Inl f)
          | Inr index \<Rightarrow>
              let entry_list = table t ! index
              in if entry_list = NULL then Some (Inr NULL)
                 else
                   (case lists h entry_list of
                      None \<Rightarrow> Some (Inl Invalid_Pointer)
                    | Some l \<Rightarrow> cm_hash_table_get_loop h (keycmp t) key (list_head l))))"

text \<open>
  \<open>string_hash_function\<close> and \<open>string_keycmp\<close> on keys that point to strings; \<open>mem\<close> gives the
  string at an address. The hash is computed in \<open>unsigned long\<close>; each \<open>char\<close> is read as a
  signed byte and converted to \<open>int\<close>, as on the platforms where \<open>char\<close> is signed.
\<close>

definition char_to_int :: "char \<Rightarrow> int" where
  "char_to_int c = (if (of_char c :: nat) < 128 then of_char c else of_char c - 256)"

fun string_hash_loop :: "size_t \<Rightarrow> string \<Rightarrow> size_t" where
  "string_hash_loop hash [] = hash"
| "string_hash_loop hash (c # str) =
     (if c = CHR 0x00 then hash
      else string_hash_loop ((push_bit 5 hash + hash) + of_int (char_to_int c)) str)"

definition string_hash_function :: "(addr \<Rightarrow> string) \<Rightarrow> addr \<Rightarrow> size_t" where
  "string_hash_function mem key = string_hash_loop 5381 (mem key)"

definition string_keycmp :: "(addr \<Rightarrow> string) \<Rightarrow> addr \<Rightarrow> addr \<Rightarrow> bool" where
  "string_keycmp mem key1 key2 = (c_str (mem key1) = c_str (mem key2))"

section \<open>Tokens\<close>

text \<open>
  The enumeration \<open>token_type\<close> of \<open>token.h\<close>, in the order of its declaration. The enumerator
  \<open>INT\<close> is written \<open>INT'\<close>.
\<close>

datatype token_type =
    ILLEGAL | END_OF_FILE
  | IDENT | INT'
  | ASSIGN | PLUS | MINUS | BANG | SLASH | ASTERISK | LT | GT | EQ | NOT_EQ
  | COMMA | SEMICOLON | LPAREN | RPAREN | LBRACE | RBRACE
  | FUNCTION | LET | IF | ELSE | RETURN | TRUE | FALSE

record token =
  type :: token_type
  literal :: string

definition token_types :: "token_type list" where
  "token_types =
     [ILLEGAL, END_OF_FILE, IDENT, INT', ASSIGN, PLUS, MINUS, BANG, SLASH, ASTERISK, LT, GT,
      EQ, NOT_EQ, COMMA, SEMICOLON, LPAREN, RPAREN, LBRACE, RBRACE, FUNCTION, LET, IF, ELSE,
      RETURN, TRUE, FALSE]"

text \<open>The identifier each enumerator is declared with in \<open>token.h\<close>.\<close>

fun token_type_name :: "token_type \<Rightarrow> string" where
  "token_type_name ILLEGAL = ''ILLEGAL''"
| "token_type_name END_OF_FILE = ''END_OF_FILE''"
| "token_type_name IDENT = ''IDENT''"
| "token_type_name INT' = ''INT''"
| "token_type_name ASSIGN = ''ASSIGN''"
| "token_type_name PLUS = ''PLUS''"
| "token_type_name MINUS = ''MINUS''"
| "token_type_name BANG = ''BANG''"
| "token_type_name SLASH = ''SLASH''"
| "token_type_name ASTERISK = ''ASTERISK''"
| "token_type_name LT = ''LT''"
| "token_type_name GT = ''GT''"
| "token_type_name EQ = ''EQ''"
| "token_type_name NOT_EQ = ''NOT_EQ''"
| "token_type_name COMMA = ''COMMA''"
| "token_type_name SEMICOLON = ''SEMICOLON''"
| "token_type_name LPAREN = ''LPAREN''"
| "token_type_name RPAREN = ''RPAREN''"
| "token_type_name LBRACE = ''LBRACE''"
| "token_type_name RBRACE = ''RBRACE''"
| "token_type_name FUNCTION = ''FUNCTION''"
| "token_type_name LET = ''LET''"
| "token_type_name IF = ''IF''"
| "token_type_name ELSE = ''ELSE''"
| "token_type_name RETURN = ''RETURN''"
| "token_type_name TRUE = ''TRUE''"
| "token_type_name FALSE = ''FALSE''"

text \<open>
  The token kinds the specification lists as the closed set of kinds (section 6.1), by name
  and in the order of the specification.
\<close>

definition spec_token_kinds :: "string list" where
  "spec_token_kinds =
     [''ILLEGAL'', ''END_OF_FILE'', ''IDENT'', ''INT'', ''STRING'', ''ASSIGN'', ''PLUS'',
      ''MINUS'', ''BANG'', ''ASTERISK'', ''SLASH'', ''LT'', ''GT'', ''EQ'', ''NOT_EQ'',
      ''COMMA'', ''SEMICOLON'', ''COLON'', ''LPAREN'', ''RPAREN'', ''LBRACE'', ''RBRACE'',
      ''LBRACKET'', ''RBRACKET'', ''FUNCTION'', ''LET'', ''IF'', ''ELSE'', ''RETURN'',
      ''TRUE'', ''FALSE'']"

text \<open>
  Modelled from the spec: the function \<open>get_token_name_from_type\<close>, which \<open>peek_error\<close> calls,
  is defined in a file that is not part of the sources at hand. It gives the name of a token
  kind, taken here to be the name the specification and \<open>token.h\<close> use for the kind.
\<close>

definition get_token_name_from_type :: "token_type \<Rightarrow> string" where
  "get_token_name_from_type t = token_type_name t"

section \<open>Abstract syntax\<close>

text \<open>
  The nodes of the syntax tree are structs that start with a common header holding the node
  kind (\<open>expression_type\<close> or \<open>statement_type\<close>) and two function pointers; the constructors
  below are named after the kinds. A pointer to a child that may be \<open>NULL\<close> is an \<open>option\<close>.
  Every node keeps a copy of a token (\<open>token_copy\<close>). An \<open>identifier_t\<close> is its token and its
  \<open>value\<close>; the list of parameters of a function literal and the list of arguments of a call
  are \<open>cm_list\<close>s, which hold their elements in the order in which they were added.
\<close>

type_synonym identifier_t = "token \<times> string"

datatype expression =
    IDENTIFIER_EXPRESSION token string
  | INTEGER_EXPRESSION token int
  | PREFIX_EXPRESSION token string "expression option"
  | INFIX_EXPRESSION token string "expression option" "expression option"
  | BOOLEAN_EXPRESSION token bool
  | IF_EXPRESSION token "expression option" statement "statement option"
  | FUNCTION_LITERAL token "identifier_t list" statement
  | CALL_EXPRESSION token "expression option" "expression option list"
and statement =
    LET_STATEMENT token identifier_t "expression option"
  | RETURN_STATEMENT token "expression option"
  | EXPRESSION_STATEMENT token "expression option"
  | BLOCK_STATEMENT token "statement list"

text \<open>A program (\<open>program_t\<close>) is its array of statements.\<close>

type_synonym program_t = "statement list"

text \<open>
  \<open>free_expression\<close> and \<open>free_statement\<close> release a tree. \<open>free_expression\<close> reads the kind of
  the node it is given without a check, and \<open>free_prefix_expression\<close>,
  \<open>free_infix_expression\<close> and the release of the arguments of a call pass a child on without
  a check either, so releasing fails on a \<open>NULL\<close> pointer there; the other children are
  checked before they are released. The functions below tell whether the release runs to
  its end: \<open>False\<close> is a read through a \<open>NULL\<close> pointer.
\<close>

fun free_expression :: "expression \<Rightarrow> bool"
  and free_statement :: "statement \<Rightarrow> bool" where
  "free_expression (IDENTIFIER_EXPRESSION tok v) = True"
| "free_expression (INTEGER_EXPRESSION tok v) = True"
| "free_expression (PREFIX_EXPRESSION tok operator right) =
     (case right of None \<Rightarrow> False | Some r \<Rightarrow> free_expression r)"
| "free_expression (INFIX_EXPRESSION tok operator left right) =
     ((case left of None \<Rightarrow> False | Some l \<Rightarrow> free_expression l) \<and>
      (case right of None \<Rightarrow> False | Some r \<Rightarrow> free_expression r))"
| "free_expression (BOOLEAN_EXPRESSION tok v) = True"
| "free_expression (IF_EXPRESSION tok condition consequence alternative) =
     ((case condition of None \<Rightarrow> True | Some c \<Rightarrow> free_expression c) \<and>
      free_statement consequence \<and>
      (case alternative of None \<Rightarrow> True | Some a \<Rightarrow> free_statement a))"
| "free_expression (FUNCTION_LITERAL tok parameters body) = free_statement body"
| "free_expression (CALL_EXPRESSION tok function arguments) =
     ((case function of None \<Rightarrow> True | Some f \<Rightarrow> free_expression f) \<and>
      list_all (\<lambda>a. case a of None \<Rightarrow> False | Some e \<Rightarrow> free_expression e) arguments)"
| "free_statement (LET_STATEMENT tok name v) =
     (case v of None \<Rightarrow> True | Some e \<Rightarrow> free_expression e)"
| "free_statement (RETURN_STATEMENT tok return_value) =
     (case return_value of None \<Rightarrow> True | Some e \<Rightarrow> free_expression e)"
| "free_statement (EXPRESSION_STATEMENT tok e) =
     (case e of None \<Rightarrow> True | Some e \<Rightarrow> free_expression e)"
| "free_statement (BLOCK_STATEMENT tok statements) = list_all free_statement statements"

definition free_expression_ptr :: "expression option \<Rightarrow> bool" where
  "free_expression_ptr e = (case e of None \<Rightarrow> False | Some e \<Rightarrow> free_expression e)"

section \<open>Parser\<close>

text \<open>
  Modelled from the spec: the lexer is not part of the sources at hand. The parser only calls
  \<open>lexer_next_token\<close>; by the specification the lexer produces one token at a time and, at
  the end of the input, returns \<open>END_OF_FILE\<close> again and again. The state of the lexer is the
  list of the tokens still to come: an \<open>END_OF_FILE\<close> token in the list is the end of the
  input and is never passed, and so is the end of the list.
\<close>

definition lexer_next_token :: "token list \<Rightarrow> token \<times> token list" where
  "lexer_next_token l =
     (case l of
        [] \<Rightarrow> (\<lparr>type = END_OF_FILE, literal = []\<rparr>, [])
      | t # ts \<Rightarrow> if type t = END_OF_FILE then (t, l) else (t, ts))"

text \<open>
  \<open>parser_t\<close>: the list \<open>errors\<close> is a \<open>cm_list\<close> of messages, \<open>NULL\<close> as long as it is empty.
  Failed allocations (\<open>errx\<close>) in the parser are not modelled.
\<close>

record parser_t =
  lexer :: "token list"
  cur_tok :: token
  peek_tok :: token
  errors :: "string list"

definition parser_next_token :: "parser_t \<Rightarrow> parser_t" where
  "parser_next_token parser =
     (case lexer_next_token (lexer parser) of
        (tok, l) \<Rightarrow> parser\<lparr>cur_tok := peek_tok parser, peek_tok := tok, lexer := l\<rparr>)"

text \<open>
  \<open>parser_init\<close> starts with both tokens \<open>NULL\<close> and reads two tokens; the token that the
  first call moves into \<open>cur_tok\<close> is replaced by the second call.
\<close>

definition parser_init :: "token list \<Rightarrow> parser_t" where
  "parser_init l =
     (case lexer_next_token l of
        (tok1, l1) \<Rightarrow>
          parser_next_token \<lparr>lexer = l1, cur_tok = tok1, peek_tok = tok1, errors = []\<rparr>)"

text \<open>
  Modelled from the spec: the enumeration \<open>operator_precedence_t\<close> is declared in a header
  that is not part of the sources at hand. The specification gives its members from low to
  high; \<open>precedence_value\<close> is the place of a member in that order, which is all the parser
  uses. The member \<open>SUM\<close> is written \<open>SUM'\<close>.
\<close>

datatype operator_precedence_t =
  LOWEST | EQUALS | LESSGREATER | SUM' | PRODUCT | PREFIX | CALL | INDEX

fun precedence_value :: "operator_precedence_t \<Rightarrow> nat" where
  "precedence_value LOWEST = 1"
| "precedence_value EQUALS = 2"
| "precedence_value LESSGREATER = 3"
| "precedence_value SUM' = 4"
| "precedence_value PRODUCT = 5"
| "precedence_value PREFIX = 6"
| "precedence_value CALL = 7"
| "precedence_value INDEX = 8"

fun precedence :: "token_type \<Rightarrow> operator_precedence_t" where
  "precedence EQ = EQUALS"
| "precedence NOT_EQ = EQUALS"
| "precedence LT = LESSGREATER"
| "precedence GT = LESSGREATER"
| "precedence PLUS = SUM'"
| "precedence MINUS = SUM'"
| "precedence SLASH = PRODUCT"
| "precedence ASTERISK = PRODUCT"
| "precedence LPAREN = CALL"
| "precedence _ = LOWEST"

definition peek_precedence :: "parser_t \<Rightarrow> operator_precedence_t" where
  "peek_precedence parser = precedence (type (peek_tok parser))"

definition cur_precedence :: "parser_t \<Rightarrow> operator_precedence_t" where
  "cur_precedence parser = precedence (type (cur_tok parser))"

text \<open>
  The tables \<open>prefix_fns\<close> and \<open>infix_fns\<close> of function pointers, indexed by token kind. A
  function pointer is the name of the function; \<open>None\<close> is \<open>NULL\<close>.
\<close>

datatype prefix_parse_fn =
    Parse_identifier_expression
  | Parse_integer_expression
  | Parse_prefix_expression
  | Parse_grouped_expression
  | Parse_function_literal
  | Parse_if_expression
  | Parse_boolean_expression

datatype infix_parse_fn =
    Parse_infix_expression
  | Parse_call_expression

fun prefix_fns :: "token_type \<Rightarrow> prefix_parse_fn option" where
  "prefix_fns ILLEGAL = None"
| "prefix_fns END_OF_FILE = None"
| "prefix_fns IDENT = Some Parse_identifier_expression"
| "prefix_fns INT' = Some Parse_integer_expression"
| "prefix_fns ASSIGN = None"
| "prefix_fns PLUS = None"
| "prefix_fns MINUS = Some Parse_prefix_expression"
| "prefix_fns BANG = Some Parse_prefix_expression"
| "prefix_fns SLASH = None"
| "prefix_fns ASTERISK = None"
| "prefix_fns LT = None"
| "prefix_fns GT = None"
| "prefix_fns EQ = None"
| "prefix_fns NOT_EQ = None"
| "prefix_fns COMMA = None"
| "prefix_fns SEMICOLON = None"
| "prefix_fns LPAREN = Some Parse_grouped_expression"
| "prefix_fns RPAREN = None"
| "prefix_fns LBRACE = None"
| "prefix_fns RBRACE = None"
| "prefix_fns FUNCTION = Some Parse_function_literal"
| "prefix_fns LET = None"
| "prefix_fns IF = Some Parse_if_expression"
| "prefix_fns ELSE = None"
| "prefix_fns RETURN = None"
| "prefix_fns TRUE = Some Parse_boolean_expression"
| "prefix_fns FALSE = Some Parse_boolean_expression"

fun infix_fns :: "token_type \<Rightarrow> infix_parse_fn option" where
  "infix_fns ILLEGAL = None"
| "infix_fns END_OF_FILE = None"
| "infix_fns IDENT = None"
| "infix_fns INT' = None"
| "infix_fns ASSIGN = None"
| "infix_fns PLUS = Some Parse_infix_expression"
| "infix_fns MINUS = Some Parse_infix_expression"
| "infix_fns BANG = None"
| "infix_fns SLASH = Some Parse_infix_expression"
| "infix_fns ASTERISK = Some Parse_infix_expression"
| "infix_fns LT = Some Parse_infix_expression"
| "infix_fns GT = Some Parse_infix_expression"
| "infix_fns EQ = Some Parse_infix_expression"
| "infix_fns NOT_EQ = Some Parse_infix_expression"
| "infix_fns COMMA = None"
| "infix_fns SEMICOLON = None"
| "infix_fns LPAREN = Some Parse_call_expression"
| "infix_fns RPAREN = None"
| "infix_fns LBRACE = None"
| "infix_fns RBRACE = None"
| "infix_fns FUNCTION = None"
| "infix_fns LET = None"
| "infix_fns IF = None"
| "infix_fns ELSE = None"
| "infix_fns RETURN = None"
| "infix_fns TRUE = None"
| "infix_fns FALSE = None"

subsection \<open>Error messages\<close>

definition add_parse_error :: "parser_t \<Rightarrow> string \<Rightarrow> parser_t" where
  "add_parse_error parser errmsg = parser\<lparr>errors := errors parser @ [errmsg]\<rparr>"

text \<open>
  The message of \<open>handle_no_prefix_fn\<close> is made with the format
  \<open>no prefix parse function for the token "%s"\<close>: the literal stands between double quotes
  (\<open>CHR 0x22\<close>).
\<close>

definition handle_no_prefix_fn :: "parser_t \<Rightarrow> parser_t" where
  "handle_no_prefix_fn parser =
     add_parse_error parser
       (''no prefix parse function for the token '' @ [CHR 0x22] @ literal (cur_tok parser) @ [CHR 0x22])"

definition peek_error :: "parser_t \<Rightarrow> token_type \<Rightarrow> parser_t" where
  "peek_error parser tok_type =
     add_parse_error parser
       (''expected next token to be '' @ get_token_name_from_type tok_type @ '', got '' @
        get_token_name_from_type (type (peek_tok parser)) @ '' instead'')"

definition expect_peek :: "parser_t \<Rightarrow> token_type \<Rightarrow> parser_t \<times> bool" where
  "expect_peek parser tok_type =
     (if type (peek_tok parser) = tok_type then (parser_next_token parser, True)
      else (peek_error parser tok_type, False))"

subsection \<open>Literals\<close>

text \<open>
  The library function \<open>strtol (nptr, &ep, 10)\<close> of C: it skips white space, reads an optional
  sign and then decimal digits. The result is the value, the number of characters up to
  \<open>ep\<close>, and whether \<open>errno\<close> is set to \<open>ERANGE\<close>: without a digit nothing is converted and
  \<open>ep\<close> is \<open>nptr\<close>; a value outside of \<open>long\<close> is replaced by \<open>LONG_MAX\<close> or \<open>LONG_MIN\<close>.
  A literal is the string before the terminating zero byte.
\<close>

definition is_space_char :: "char \<Rightarrow> bool" where
  "is_space_char c = (c \<in> set [CHR '' '', CHR 0x09, CHR 0x0A, CHR 0x0B, CHR 0x0C, CHR 0x0D])"

definition strtol :: "string \<Rightarrow> int \<times> nat \<times> bool" where
  "strtol nptr =
     (let spaces = takeWhile is_space_char nptr;
          rest = dropWhile is_space_char nptr;
          negative = (rest \<noteq> [] \<and> hd rest = CHR ''-'');
          signed = (rest \<noteq> [] \<and> (hd rest = CHR ''-'' \<or> hd rest = CHR ''+''));
          rest' = (if signed then tl rest else rest);
          digits = takeWhile is_digit_char rest'
      in if digits = [] then (0, 0, False)
         else
           let magnitude = int (foldl (\<lambda>acc c. 10 * acc + (of_char c - 48)) 0 digits);
               v = (if negative then - magnitude else magnitude);
               consumed = length spaces + (if signed then 1 else 0) + length digits
           in if v > LONG_MAX then (LONG_MAX, consumed, True)
              else if v < LONG_MIN then (LONG_MIN, consumed, True)
              else (v, consumed, False))"

definition parse_identifier_expression :: "parser_t \<Rightarrow> expression" where
  "parse_identifier_expression parser =
     IDENTIFIER_EXPRESSION (cur_tok parser) (literal (cur_tok parser))"

definition create_identifier :: "parser_t \<Rightarrow> identifier_t" where
  "create_identifier parser = (cur_tok parser, literal (cur_tok parser))"

text \<open>
  \<open>parse_integer_expression\<close> records an error when \<open>ep == literal || *ep != 0 || errno != 0\<close>
  and returns the node in either case.
\<close>

definition parse_integer_expression :: "parser_t \<Rightarrow> parser_t \<times> expression" where
  "parse_integer_expression parser =
     (case strtol (literal (cur_tok parser)) of
        (v, ep, erange) \<Rightarrow>
          (if ep = 0 \<or> ep < length (literal (cur_tok parser)) \<or> erange
           then add_parse_error parser
                  (''could not parse '' @ literal (cur_tok parser) @ '' as integer'')
           else parser,
           INTEGER_EXPRESSION (cur_tok parser) v))"

definition parse_boolean_expression :: "parser_t \<Rightarrow> expression" where
  "parse_boolean_expression parser =
     BOOLEAN_EXPRESSION (cur_tok parser) (type (cur_tok parser) = TRUE)"

subsection \<open>Outcomes\<close>

text \<open>
  The parsing functions call each other recursively, and some of them loop. The outcome of
  a call is \<open>None\<close> when the call needs more nested calls or more rounds of a loop than a
  given bound allows. Otherwise it is a fault (a read through a \<open>NULL\<close> pointer while a tree
  is released) or the parser after the call together with the value the function returns.
\<close>

type_synonym 'a outcome = "(fault + parser_t \<times> 'a) option"

definition returns :: "parser_t \<Rightarrow> 'a \<Rightarrow> 'a outcome" where
  "returns parser x = Some (Inr (parser, x))"

definition and_then :: "'a outcome \<Rightarrow> (parser_t \<Rightarrow> 'a \<Rightarrow> 'b outcome) \<Rightarrow> 'b outcome" where
  "and_then m f =
     (case m of
        None \<Rightarrow> None
      | Some (Inl e) \<Rightarrow> Some (Inl e)
      | Some (Inr (parser, x)) \<Rightarrow> f parser x)"

text \<open>
  The loop of \<open>parse_function_parameters\<close>:
  \<open>while (peek_tok->type == COMMA) { next; next; add (create_identifier) }\<close>. It ends because
  the input does: every round passes a token or reaches the end of the input.
\<close>

function parse_function_parameters_loop ::
  "parser_t \<Rightarrow> identifier_t list \<Rightarrow> parser_t \<times> identifier_t list" where
  "parse_function_parameters_loop parser parameters =
     (if type (peek_tok parser) = COMMA then
        (let parser1 = parser_next_token (parser_next_token parser)
         in parse_function_parameters_loop parser1 (parameters @ [create_identifier parser1]))
      else (parser, parameters))"
  by pat_completeness auto
termination
  by (relation "measure (\<lambda>(parser, parameters).
         length (lexer parser) + (if type (peek_tok parser) = COMMA then 1 else 0))")
     (auto simp: parser_next_token_def lexer_next_token_def split: list.splits if_splits)

text \<open>
  \<open>parse_function_parameters\<close> leaves the list of parameters in the function literal, or
  \<open>NULL\<close> (here \<open>None\<close>) when the closing parenthesis is missing.
\<close>

definition parse_function_parameters :: "parser_t \<Rightarrow> parser_t \<times> identifier_t list option" where
  "parse_function_parameters parser =
     (if type (peek_tok parser) = RPAREN then (parser_next_token parser, Some [])
      else
        let parser1 = parser_next_token parser
        in case parse_function_parameters_loop parser1 [create_identifier parser1] of
             (parser2, parameters) \<Rightarrow>
               (case expect_peek parser2 RPAREN of
                  (parser3, ok) \<Rightarrow> (parser3, if ok then Some parameters else None)))"

subsection \<open>The recursive descent\<close>

text \<open>
  All recursion of the parser goes through \<open>parse_expression\<close> and \<open>parser_parse_statement\<close>.
  The functions that call them take them as the arguments \<open>parse_expression\<close> and
  \<open>parser_parse_statement\<close>; the two are defined last, by recursion on the bound, and hand
  themselves (with the bound decreased) to the others. A loop that calls them is a recursion
  on the number of rounds it may still make.
\<close>

type_synonym parse_expression_t = "parser_t \<Rightarrow> operator_precedence_t \<Rightarrow> expression option outcome"
type_synonym parse_statement_t = "parser_t \<Rightarrow> statement option outcome"

definition parse_prefix_expression :: "parse_expression_t \<Rightarrow> parser_t \<Rightarrow> expression option outcome" where
  "parse_prefix_expression parse_expression parser =
     and_then (parse_expression (parser_next_token parser) PREFIX)
       (\<lambda>parser1 right.
          returns parser1
            (Some (PREFIX_EXPRESSION (cur_tok parser) (literal (cur_tok parser)) right)))"

definition parse_infix_expression ::
  "parse_expression_t \<Rightarrow> parser_t \<Rightarrow> expression option \<Rightarrow> expression option outcome" where
  "parse_infix_expression parse_expression parser left =
     and_then (parse_expression (parser_next_token parser) (cur_precedence parser))
       (\<lambda>parser1 right.
          returns parser1
            (Some (INFIX_EXPRESSION (cur_tok parser) (literal (cur_tok parser)) left right)))"

text \<open>
  \<open>parse_grouped_expression\<close> releases the expression when the closing parenthesis is
  missing, also when the expression is \<open>NULL\<close>.
\<close>

definition parse_grouped_expression :: "parse_expression_t \<Rightarrow> parser_t \<Rightarrow> expression option outcome" where
  "parse_grouped_expression parse_expression parser =
     and_then (parse_expression (parser_next_token parser) LOWEST)
       (\<lambda>parser1 exp.
          case expect_peek parser1 RPAREN of
            (parser2, ok) \<Rightarrow>
              if ok then returns parser2 exp
              else if free_expression_ptr exp then returns parser2 None
              else Some (Inl Invalid_Pointer))"

text \<open>
  The loop \<open>while (cur_tok->type != RBRACE && cur_tok->type != END_OF_FILE)\<close> of
  \<open>parse_block_statement\<close>.
\<close>

fun parse_block_statement_loop ::
  "parse_statement_t \<Rightarrow> nat \<Rightarrow> parser_t \<Rightarrow> statement list \<Rightarrow> statement list outcome" where
  "parse_block_statement_loop parser_parse_statement 0 parser statements = None"
| "parse_block_statement_loop parser_parse_statement (Suc n) parser statements =
     (if type (cur_tok parser) \<noteq> RBRACE \<and> type (cur_tok parser) \<noteq> END_OF_FILE then
        and_then (parser_parse_statement parser)
          (\<lambda>parser1 stmt.
             parse_block_statement_loop parser_parse_statement n (parser_next_token parser1)
               (case stmt of None \<Rightarrow> statements | Some s \<Rightarrow> statements @ [s]))
      else returns parser statements)"

definition parse_block_statement :: "parse_statement_t \<Rightarrow> nat \<Rightarrow> parser_t \<Rightarrow> statement outcome" where
  "parse_block_statement parser_parse_statement n parser =
     and_then (parse_block_statement_loop parser_parse_statement n (parser_next_token parser) [])
       (\<lambda>parser1 statements. returns parser1 (BLOCK_STATEMENT (cur_tok parser) statements))"

text \<open>
  \<open>parse_if_expression\<close>. On a missing token the node built so far is released by
  \<open>free_if_expression\<close>, which checks the condition and the blocks for \<open>NULL\<close> before it
  releases them.
\<close>

definition parse_if_expression ::
  "parse_expression_t \<Rightarrow> parse_statement_t \<Rightarrow> nat \<Rightarrow> parser_t \<Rightarrow> expression option outcome" where
  "parse_if_expression parse_expression parser_parse_statement n parser =
     (case expect_peek parser LPAREN of
        (parser1, ok1) \<Rightarrow>
          if \<not> ok1 then returns parser1 None
          else
            and_then (parse_expression (parser_next_token parser1) LOWEST)
              (\<lambda>parser2 condition.
                 case expect_peek parser2 RPAREN of
                   (parser3, ok3) \<Rightarrow>
                     if \<not> ok3 then
                       (if condition = None \<or> free_expression_ptr condition
                        then returns parser3 None else Some (Inl Invalid_Pointer))
                     else
                       (case expect_peek parser3 LBRACE of
                          (parser4, ok4) \<Rightarrow>
                            if \<not> ok4 then
                              (if condition = None \<or> free_expression_ptr condition
                               then returns parser4 None else Some (Inl Invalid_Pointer))
                            else
                              and_then (parse_block_statement parser_parse_statement n parser4)
                                (\<lambda>parser5 consequence.
                                   if type (peek_tok parser5) = ELSE then
                                     (case expect_peek (parser_next_token parser5) LBRACE of
                                        (parser6, ok6) \<Rightarrow>
                                          if \<not> ok6 then
                                            (if (condition = None \<or> free_expression_ptr condition) \<and>
                                                free_statement consequence
                                             then returns parser6 None
                                             else Some (Inl Invalid_Pointer))
                                          else
                                            and_then (parse_block_statement parser_parse_statement n parser6)
                                              (\<lambda>parser7 alternative.
                                                 returns parser7
                                                   (Some (IF_EXPRESSION (cur_tok parser) condition
                                                            consequence (Some alternative)))))
                                   else
                                     returns parser5
                                       (Some (IF_EXPRESSION (cur_tok parser) condition
                                                consequence None))))))"

definition parse_function_literal ::
  "parse_statement_t \<Rightarrow> nat \<Rightarrow> parser_t \<Rightarrow> expression option outcome" where
  "parse_function_literal parser_parse_statement n parser =
     (case expect_peek parser LPAREN of
        (parser1, ok1) \<Rightarrow>
          if \<not> ok1 then returns parser1 None
          else
            (case parse_function_parameters parser1 of
               (parser2, None) \<Rightarrow> returns parser2 None
             | (parser2, Some parameters) \<Rightarrow>
                 (case expect_peek parser2 LBRACE of
                    (parser3, ok3) \<Rightarrow>
                      if \<not> ok3 then returns parser3 None
                      else
                        and_then (parse_block_statement parser_parse_statement n parser3)
                          (\<lambda>parser4 body.
                             returns parser4
                               (Some (FUNCTION_LITERAL (cur_tok parser) parameters body))))))"

text \<open>
  The loop \<open>while (peek_tok->type == COMMA)\<close> of \<open>parse_call_arguments\<close>.
\<close>

fun parse_call_arguments_loop ::
  "parse_expression_t \<Rightarrow> nat \<Rightarrow> parser_t \<Rightarrow> expression option list \<Rightarrow> expression option list outcome" where
  "parse_call_arguments_loop parse_expression 0 parser arguments = None"
| "parse_call_arguments_loop parse_expression (Suc n) parser arguments =
     (if type (peek_tok parser) = COMMA then
        and_then (parse_expression (parser_next_token (parser_next_token parser)) LOWEST)
          (\<lambda>parser1 arg. parse_call_arguments_loop parse_expression n parser1 (arguments @ [arg]))
      else returns parser arguments)"

text \<open>
  \<open>parse_call_arguments\<close> leaves the list of arguments in the call expression, or \<open>NULL\<close>
  (here \<open>None\<close>) when the closing parenthesis is missing; the arguments are then released
  by \<open>free_expression\<close> without a check for \<open>NULL\<close>.
\<close>

definition parse_call_arguments ::
  "parse_expression_t \<Rightarrow> nat \<Rightarrow> parser_t \<Rightarrow> expression option list option outcome" where
  "parse_call_arguments parse_expression n parser =
     (if type (peek_tok parser) = RPAREN then returns (parser_next_token parser) (Some [])
      else
        and_then (parse_expression (parser_next_token parser) LOWEST)
          (\<lambda>parser1 arg.
             and_then (parse_call_arguments_loop parse_expression n parser1 [arg])
               (\<lambda>parser2 arguments.
                  case expect_peek parser2 RPAREN of
                    (parser3, ok) \<Rightarrow>
                      if ok then returns parser3 (Some arguments)
                      else if list_all free_expression_ptr arguments then returns parser3 None
                      else Some (Inl Invalid_Pointer))))"

text \<open>
  \<open>parse_call_expression\<close>: \<open>create_call_expression\<close> copies \<open>peek_tok\<close> as the token of the
  node.
\<close>

definition parse_call_expression ::
  "parse_expression_t \<Rightarrow> nat \<Rightarrow> parser_t \<Rightarrow> expression option \<Rightarrow> expression option outcome" where
  "parse_call_expression parse_expression n parser function =
     and_then (parse_call_arguments parse_expression n parser)
       (\<lambda>parser1 arguments.
          case arguments of
            None \<Rightarrow> returns parser1 None
          | Some args \<Rightarrow>
              returns parser1 (Some (CALL_EXPRESSION (peek_tok parser) function args)))"

text \<open>
  The loop \<open>for (;;)\<close> of \<open>parse_expression\<close>, entered with the expression \<open>left_exp\<close> that the
  prefix function returned.
\<close>

fun parse_expression_loop ::
  "parse_expression_t \<Rightarrow> nat \<Rightarrow> parser_t \<Rightarrow> operator_precedence_t \<Rightarrow> expression option \<Rightarrow>
     expression option outcome" where
  "parse_expression_loop parse_expression 0 parser precedence' left_exp = None"
| "parse_expression_loop parse_expression (Suc n) parser precedence' left_exp =
     (if type (peek_tok parser) = SEMICOLON then returns parser left_exp
      else if precedence_value precedence' \<ge> precedence_value (peek_precedence parser)
      then returns parser left_exp
      else
        (case infix_fns (type (peek_tok parser)) of
           None \<Rightarrow> returns parser left_exp
         | Some infix_fn \<Rightarrow>
             and_then
               (case infix_fn of
                  Parse_infix_expression \<Rightarrow>
                    parse_infix_expression parse_expression (parser_next_token parser) left_exp
                | Parse_call_expression \<Rightarrow>
                    parse_call_expression parse_expression n (parser_next_token parser) left_exp)
               (\<lambda>parser1 right.
                  parse_expression_loop parse_expression n parser1 precedence' right)))"

definition parse_letstatement :: "parse_expression_t \<Rightarrow> parser_t \<Rightarrow> statement option outcome" where
  "parse_letstatement parse_expression parser =
     (case expect_peek parser IDENT of
        (parser1, ok1) \<Rightarrow>
          if \<not> ok1 then returns parser1 None
          else
            (case expect_peek parser1 ASSIGN of
               (parser2, ok2) \<Rightarrow>
                 if \<not> ok2 then returns parser2 None
                 else
                   and_then (parse_expression (parser_next_token parser2) LOWEST)
                     (\<lambda>parser3 v.
                        returns
                          (if type (peek_tok parser3) = SEMICOLON then parser_next_token parser3
                           else parser3)
                          (Some (LET_STATEMENT (cur_tok parser) (create_identifier parser1) v)))))"

definition parse_return_statement :: "parse_expression_t \<Rightarrow> parser_t \<Rightarrow> statement option outcome" where
  "parse_return_statement parse_expression parser =
     and_then (parse_expression (parser_next_token parser) LOWEST)
       (\<lambda>parser1 return_value.
          returns
            (if type (peek_tok parser1) = SEMICOLON then parser_next_token parser1 else parser1)
            (Some (RETURN_STATEMENT (cur_tok parser) return_value)))"

definition parse_expression_statement :: "parse_expression_t \<Rightarrow> parser_t \<Rightarrow> statement option outcome" where
  "parse_expression_statement parse_expression parser =
     and_then (parse_expression parser LOWEST)
       (\<lambda>parser1 e.
          returns
            (if type (peek_tok parser1) = SEMICOLON then parser_next_token parser1 else parser1)
            (Some (EXPRESSION_STATEMENT (cur_tok parser) e)))"

text \<open>
  \<open>parse_expression\<close> and \<open>parser_parse_statement\<close>, with the bound on the nesting as first
  argument.
\<close>

fun parse_expression :: "nat \<Rightarrow> parser_t \<Rightarrow> operator_precedence_t \<Rightarrow> expression option outcome"
  and parser_parse_statement :: "nat \<Rightarrow> parser_t \<Rightarrow> statement option outcome" where
  "parse_expression 0 parser precedence' = None"
| "parse_expression (Suc n) parser precedence' =
     (case prefix_fns (type (cur_tok parser)) of
        None \<Rightarrow> returns (handle_no_prefix_fn parser) None
      | Some prefix_fn \<Rightarrow>
          and_then
            (case prefix_fn of
               Parse_identifier_expression \<Rightarrow>
                 returns parser (Some (parse_identifier_expression parser))
             | Parse_integer_expression \<Rightarrow>
                 (case parse_integer_expression parser of (parser1, e) \<Rightarrow> returns parser1 (Some e))
             | Parse_prefix_expression \<Rightarrow>
                 parse_prefix_expression (\<lambda>p q. parse_expression n p q) parser
             | Parse_grouped_expression \<Rightarrow>
                 parse_grouped_expression (\<lambda>p q. parse_expression n p q) parser
             | Parse_function_literal \<Rightarrow>
                 parse_function_literal (\<lambda>p. parser_parse_statement n p) n parser
             | Parse_if_expression \<Rightarrow>
                 parse_if_expression (\<lambda>p q. parse_expression n p q)
                   (\<lambda>p. parser_parse_statement n p) n parser
             | Parse_boolean_expression \<Rightarrow>
                 returns parser (Some (parse_boolean_expression parser)))
            (\<lambda>parser1 left_exp.
               parse_expression_loop (\<lambda>p q. parse_expression n p q) n parser1 precedence' left_exp))"
| "parser_parse_statement 0 parser = None"
| "parser_parse_statement (Suc n) parser =
     (case type (cur_tok parser) of
        LET \<Rightarrow> parse_letstatement (\<lambda>p q. parse_expression n p q) parser
      | RETURN \<Rightarrow> parse_return_statement (\<lambda>p q. parse_expression n p q) parser
      | _ \<Rightarrow> parse_expression_statement (\<lambda>p q. parse_expression n p q) parser)"

text \<open>
  \<open>parse_program\<close>: the loop \<open>while (cur_tok->type != END_OF_FILE)\<close> adds every statement that
  is not \<open>NULL\<close> to the program and moves to the next token.
\<close>

fun parse_program_loop :: "nat \<Rightarrow> parser_t \<Rightarrow> program_t \<Rightarrow> program_t outcome" where
  "parse_program_loop 0 parser program = None"
| "parse_program_loop (Suc n) parser program =
     (if type (cur_tok parser) \<noteq> END_OF_FILE then
        and_then (parser_parse_statement n parser)
          (\<lambda>parser1 stmt.
             parse_program_loop n (parser_next_token parser1)
               (case stmt of None \<Rightarrow> program | Some s \<Rightarrow> program @ [s]))
      else returns parser program)"

definition parse_program :: "nat \<Rightarrow> parser_t \<Rightarrow> program_t outcome" where
  "parse_program n parser = parse_program_loop n parser []"

subsection \<open>Outcomes for every large enough bound\<close>

text \<open>
  A call of one of the recursive functions of the parser has the outcome \<open>r\<close> for every
  bound from some bound on.
\<close>

definition expression_outcome ::
  "parser_t \<Rightarrow> operator_precedence_t \<Rightarrow> expression option outcome \<Rightarrow> bool" where
  "expression_outcome parser q r = (\<exists>n0. \<forall>n \<ge> n0. parse_expression n parser q = r)"

definition loop_outcome ::
  "parser_t \<Rightarrow> operator_precedence_t \<Rightarrow> expression option \<Rightarrow> expression option outcome \<Rightarrow> bool" where
  "loop_outcome parser q left r =
     (\<exists>n0. \<forall>n \<ge> n0. \<forall>k \<ge> n0.
        parse_expression_loop (\<lambda>p q. parse_expression n p q) k parser q left = r)"

text \<open>
  The same for \<open>parse_call_arguments\<close> and its loop, which also take the number of rounds.
\<close>

definition arguments_outcome :: "parser_t \<Rightarrow> expression option list option outcome \<Rightarrow> bool" where
  "arguments_outcome parser r =
     (\<exists>n0. \<forall>n \<ge> n0. \<forall>k \<ge> n0.
        parse_call_arguments (\<lambda>p q. parse_expression n p q) k parser = r)"

definition arguments_loop_outcome ::
  "parser_t \<Rightarrow> expression option list \<Rightarrow> expression option list outcome \<Rightarrow> bool" where
  "arguments_loop_outcome parser arguments r =
     (\<exists>n0. \<forall>n \<ge> n0. \<forall>k \<ge> n0.
        parse_call_arguments_loop (\<lambda>p q. parse_expression n p q) k parser arguments = r)"

subsection \<open>Expressions written without parentheses\<close>

text \<open>
  The statement of precedence climbing is about the expressions that are written with
  identifiers, integers, booleans, the two prefix operators, the eight infix operators and
  calls, and without grouping parentheses. \<open>tokens_of\<close> is the sequence of the tokens of
  such an expression in the order of the input: every node keeps its own token, a call keeps
  the token after its opening parenthesis, and the parentheses and commas of a call are the
  tokens \<open>lparen_token\<close>, \<open>rparen_token\<close> and \<open>comma_token\<close>. \<open>level\<close> is the precedence of
  a token as a number.
\<close>

definition binary_operators :: "token_type list" where
  "binary_operators = [EQ, NOT_EQ, LT, GT, PLUS, MINUS, SLASH, ASTERISK]"

definition unary_operators :: "token_type list" where
  "unary_operators = [MINUS, BANG]"

definition level :: "token \<Rightarrow> nat" where
  "level tok = precedence_value (precedence (type tok))"

definition lparen_token :: token where
  "lparen_token = \<lparr>type = LPAREN, literal = [CHR 0x28]\<rparr>"

definition rparen_token :: token where
  "rparen_token = \<lparr>type = RPAREN, literal = [CHR 0x29]\<rparr>"

definition comma_token :: token where
  "comma_token = \<lparr>type = COMMA, literal = [CHR 0x2C]\<rparr>"

fun separated :: "token list list \<Rightarrow> token list" where
  "separated [] = []"
| "separated [ts] = ts"
| "separated (ts # tss) = ts @ comma_token # separated tss"

fun tokens_of :: "expression \<Rightarrow> token list" where
  "tokens_of (IDENTIFIER_EXPRESSION tok v) = [tok]"
| "tokens_of (INTEGER_EXPRESSION tok v) = [tok]"
| "tokens_of (BOOLEAN_EXPRESSION tok v) = [tok]"
| "tokens_of (PREFIX_EXPRESSION tok operator right) =
     tok # (case right of Some r \<Rightarrow> tokens_of r | None \<Rightarrow> [])"
| "tokens_of (INFIX_EXPRESSION tok operator left right) =
     (case left of Some l \<Rightarrow> tokens_of l | None \<Rightarrow> []) @
     tok # (case right of Some r \<Rightarrow> tokens_of r | None \<Rightarrow> [])"
| "tokens_of (CALL_EXPRESSION tok function arguments) =
     (case function of Some f \<Rightarrow> tokens_of f | None \<Rightarrow> []) @
     lparen_token #
     separated (map (\<lambda>a. case a of Some x \<Rightarrow> tokens_of x | None \<Rightarrow> []) arguments) @
     [rparen_token]"
| "tokens_of _ = []"

text \<open>
  \<open>operator_expression\<close>: the tree is made of the nodes named above, no child is missing,
  and every node holds what the parser puts there for its token: the literal as name or
  operator, the value that \<open>strtol\<close> reads completely from the literal of an integer, the
  truth value of the keyword.
\<close>

fun operator_expression :: "expression \<Rightarrow> bool" where
  "operator_expression (IDENTIFIER_EXPRESSION tok v) = (type tok = IDENT \<and> v = literal tok)"
| "operator_expression (INTEGER_EXPRESSION tok v) =
     (type tok = INT' \<and> literal tok \<noteq> [] \<and> strtol (literal tok) = (v, length (literal tok), False))"
| "operator_expression (BOOLEAN_EXPRESSION tok v) =
     ((type tok = TRUE \<or> type tok = FALSE) \<and> v = (type tok = TRUE))"
| "operator_expression (PREFIX_EXPRESSION tok operator right) =
     (type tok \<in> set unary_operators \<and> operator = literal tok \<and>
      (case right of Some r \<Rightarrow> operator_expression r | None \<Rightarrow> False))"
| "operator_expression (INFIX_EXPRESSION tok operator left right) =
     (type tok \<in> set binary_operators \<and> operator = literal tok \<and>
      (case left of Some l \<Rightarrow> operator_expression l | None \<Rightarrow> False) \<and>
      (case right of Some r \<Rightarrow> operator_expression r | None \<Rightarrow> False))"
| "operator_expression (CALL_EXPRESSION tok function arguments) =
     ((case function of Some f \<Rightarrow> operator_expression f | None \<Rightarrow> False) \<and>
      list_all (\<lambda>a. case a of Some x \<Rightarrow> operator_expression x | None \<Rightarrow> False) arguments \<and>
      tok = hd (separated (map (\<lambda>a. case a of Some x \<Rightarrow> tokens_of x | None \<Rightarrow> []) arguments) @
                [rparen_token]))"
| "operator_expression _ = False"

text \<open>
  The grouping that the precedences ask for. \<open>operators_of\<close> lists the infix operators of
  an expression that stand outside of calls and of operands of prefix operators.
  \<open>binds_tighter\<close>: below an infix operator, every such operator of the right operand has a
  strictly higher precedence (so operators of equal precedence group to the left and a
  tighter operator keeps its operands), and every such operator of the left operand has at
  least the same precedence; the operand of a prefix operator holds no infix operator
  outside of a call; the function of a call is an identifier, a literal or a call; the
  arguments of a call are grouped in the same way.
\<close>

fun operators_of :: "expression \<Rightarrow> token list" where
  "operators_of (INFIX_EXPRESSION tok operator left right) =
     (case left of Some l \<Rightarrow> operators_of l | None \<Rightarrow> []) @
     tok # (case right of Some r \<Rightarrow> operators_of r | None \<Rightarrow> [])"
| "operators_of _ = []"

fun is_primary :: "expression \<Rightarrow> bool" where
  "is_primary (PREFIX_EXPRESSION tok operator right) = False"
| "is_primary (INFIX_EXPRESSION tok operator left right) = False"
| "is_primary _ = True"

fun is_operand :: "expression \<Rightarrow> bool" where
  "is_operand (INFIX_EXPRESSION tok operator left right) = False"
| "is_operand _ = True"

fun binds_tighter :: "expression \<Rightarrow> bool" where
  "binds_tighter (PREFIX_EXPRESSION tok operator right) =
     (case right of Some r \<Rightarrow> is_operand r \<and> binds_tighter r | None \<Rightarrow> True)"
| "binds_tighter (INFIX_EXPRESSION tok operator left right) =
     ((case left of
         Some l \<Rightarrow> list_all (\<lambda>t. level tok \<le> level t) (operators_of l) \<and> binds_tighter l
       | None \<Rightarrow> True) \<and>
      (case right of
         Some r \<Rightarrow> list_all (\<lambda>t. level tok < level t) (operators_of r) \<and> binds_tighter r
       | None \<Rightarrow> True))"
| "binds_tighter (CALL_EXPRESSION tok function arguments) =
     ((case function of Some f \<Rightarrow> is_primary f \<and> binds_tighter f | None \<Rightarrow> True) \<and>
      list_all (\<lambda>a. case a of Some x \<Rightarrow> binds_tighter x | None \<Rightarrow> True) arguments)"
| "binds_tighter _ = True"

text \<open>
  \<open>closing_level\<close> is the lowest precedence on the right edge of an expression: a token
  after the expression with a precedence above it would be taken into the expression.
\<close>

fun closing_level :: "expression \<Rightarrow> nat" where
  "closing_level (PREFIX_EXPRESSION tok operator right) =
     min (precedence_value PREFIX) (case right of Some r \<Rightarrow> closing_level r | None \<Rightarrow> precedence_value INDEX)"
| "closing_level (INFIX_EXPRESSION tok operator left right) =
     min (level tok) (case right of Some r \<Rightarrow> closing_level r | None \<Rightarrow> precedence_value INDEX)"
| "closing_level _ = precedence_value INDEX"

text \<open>
  \<open>parser_at ts errs\<close> is the parser that has read the first two tokens of \<open>ts\<close> as
  \<open>cur_tok\<close> and \<open>peek_tok\<close>; \<open>parser_init\<close> is \<open>parser_at\<close> with no errors.
\<close>

definition parser_at :: "token list \<Rightarrow> string list \<Rightarrow> parser_t" where
  "parser_at ts errs =
     (case lexer_next_token ts of
        (tok1, l1) \<Rightarrow>
          (case lexer_next_token l1 of
             (tok2, l2) \<Rightarrow> \<lparr>lexer = l2, cur_tok = tok1, peek_tok = tok2, errors = errs\<rparr>))"


text \<open>
  A chain \<open>x t\<^sub>1 y\<^sub>1 \<dots> t\<^sub>n y\<^sub>n\<close> of operands and infix operators: an operand is an
  expression that is no infix expression.
\<close>

definition operand :: "expression \<Rightarrow> bool" where
  "operand x = (operator_expression x \<and> binds_tighter x \<and> is_operand x)"

definition chain_tokens :: "expression \<Rightarrow> (token \<times> expression) list \<Rightarrow> token list" where
  "chain_tokens x ps = tokens_of x @ concat (map (\<lambda>(t, y). t # tokens_of y) ps)"

definition chain_ok :: "expression \<Rightarrow> (token \<times> expression) list \<Rightarrow> bool" where
  "chain_ok x ps =
     (operand x \<and> list_all (\<lambda>(t, y). type t \<in> set binary_operators \<and> operand y) ps)"

definition argument_tokens :: "expression option \<Rightarrow> token list" where
  "argument_tokens a = (case a of Some x \<Rightarrow> tokens_of x | None \<Rightarrow> [])"

subsection \<open>Forms of the error messages\<close>

text \<open>
  The two forms of parse errors in the words of the specification (section 7):
  \<open>expected next token to be X, got Y instead\<close> and \<open>no prefix parse function for token Z\<close>.
\<close>

definition message_expected :: "string \<Rightarrow> bool" where
  "message_expected m =
     (\<exists>X Y. m = ''expected next token to be '' @ X @ '', got '' @ Y @ '' instead'')"

definition message_no_prefix_spec :: "string \<Rightarrow> bool" where
  "message_no_prefix_spec m = (\<exists>Z. m = ''no prefix parse function for token '' @ Z)"

text \<open>
  The forms of the messages the formats of the source give: that of \<open>peek_error\<close> is the
  first form above; \<open>handle_no_prefix_fn\<close> writes \<open>the token\<close> and puts the literal between
  double quotes; \<open>parse_integer_expression\<close> has a message of its own.
\<close>

definition message_no_prefix :: "string \<Rightarrow> bool" where
  "message_no_prefix m =
     (\<exists>Z. m = ''no prefix parse function for the token '' @ [CHR 0x22] @ Z @ [CHR 0x22])"

definition message_integer :: "string \<Rightarrow> bool" where
  "message_integer m = (\<exists>L. m = ''could not parse '' @ L @ '' as integer'')"

definition parse_error_form :: "string \<Rightarrow> bool" where
  "parse_error_form m = (message_expected m \<or> message_no_prefix m \<or> message_integer m)"

text \<open>
  All messages of a parser have one of these forms; an outcome keeps this when its parser,
  if it has one, does.
\<close>

definition errors_ok :: "parser_t \<Rightarrow> bool" where
  "errors_ok parser = list_all parse_error_form (errors parser)"

definition keeps_errors_ok :: "'a outcome \<Rightarrow> bool" where
  "keeps_errors_ok out = (case out of Some (Inr (parser, x)) \<Rightarrow> errors_ok parser | _ \<Rightarrow> True)"

section \<open>String forms of the syntax tree\<close>

text \<open>
  Every node has a function \<open>string\<close> (the pointer \<open>node.string\<close>) that allocates and returns
  its string form; the functions are made with \<open>asprintf\<close>. A call has no result (\<open>None\<close>)
  when it does not return, and otherwise ends in a fault or in a value. A fault is a read
  through a \<open>NULL\<close> pointer. A string that may be the \<open>NULL\<close> pointer is a
  \<open>string option\<close>.
\<close>

type_synonym 'a result = "(fault + 'a) option"

definition result_bind :: "'a result \<Rightarrow> ('a \<Rightarrow> 'b result) \<Rightarrow> 'b result" where
  "result_bind m f =
     (case m of None \<Rightarrow> None | Some (Inl e) \<Rightarrow> Some (Inl e) | Some (Inr x) \<Rightarrow> f x)"

definition result :: "'a \<Rightarrow> 'a result" where
  "result x = Some (Inr x)"

text \<open>
  \<open>percent_s\<close> is the conversion \<open>%s\<close> of \<open>asprintf\<close>. Its argument may be the \<open>NULL\<close>
  pointer (the string of a block without statements): this is undefined in C; the C library
  prints \<open>(null)\<close> for it, and so does the conversion here.
\<close>

definition percent_s :: "string option \<Rightarrow> string result" where
  "percent_s s = (case s of None \<Rightarrow> result ''(null)'' | Some str \<Rightarrow> result str)"

text \<open>
  \<open>integer_string\<close> is \<open>long_to_string\<close>; \<open>junk\<close> is what the allocated block holds before.
\<close>

definition integer_string :: "(nat \<Rightarrow> char) \<Rightarrow> int \<Rightarrow> string result" where
  "integer_string junk v =
     (case long_to_string junk v of
        None \<Rightarrow> Some (Inl Invalid_Pointer)
      | Some mem \<Rightarrow> result (c_str mem))"

definition boolean_expression_string :: "bool \<Rightarrow> string" where
  "boolean_expression_string v = (if v then ''true'' else ''false'')"

text \<open>
  \<open>generate_parameters_string\<close> joins the strings of the elements of a list with a comma and
  a space; for the empty list it is the empty string. The strings of the elements are
  computed by the caller's functions below.
\<close>

fun join_parameters :: "string option \<Rightarrow> string list \<Rightarrow> string option" where
  "join_parameters str [] = str"
| "join_parameters None (param_string # rest) = join_parameters (Some param_string) rest"
| "join_parameters (Some str) (param_string # rest) =
     join_parameters (Some (str @ '', '' @ param_string)) rest"

definition generate_parameters_string :: "string list \<Rightarrow> string" where
  "generate_parameters_string param_strings =
     (if param_strings = [] then []
      else case join_parameters None param_strings of None \<Rightarrow> [] | Some str \<Rightarrow> str)"

text \<open>
  The string functions of the nodes. The first argument \<open>junk\<close> is passed on to
  \<open>integer_string\<close>. The second argument bounds the nesting of the calls that
  \<open>return_statement_string\<close> makes to the \<open>string\<close> function of its own node: the format
  argument \<open>ret_stmt->statement.node.string (ret_stmt)\<close> is \<open>return_statement_string\<close> again,
  on the same statement. All other calls go to the children of a node.
\<close>

fun expression_string :: "(nat \<Rightarrow> char) \<Rightarrow> nat \<Rightarrow> expression \<Rightarrow> string result"
  and expression_ptr_string :: "(nat \<Rightarrow> char) \<Rightarrow> nat \<Rightarrow> expression option \<Rightarrow> string result"
  and arguments_strings :: "(nat \<Rightarrow> char) \<Rightarrow> nat \<Rightarrow> expression option list \<Rightarrow> string list result"
  and statement_string :: "(nat \<Rightarrow> char) \<Rightarrow> nat \<Rightarrow> statement \<Rightarrow> string option result"
  and block_statement_string_loop ::
    "(nat \<Rightarrow> char) \<Rightarrow> nat \<Rightarrow> statement list \<Rightarrow> string option \<Rightarrow> string option result"
where
  "expression_string junk n (IDENTIFIER_EXPRESSION tok v) = result v"
| "expression_string junk n (INTEGER_EXPRESSION tok v) = integer_string junk v"
| "expression_string junk n (PREFIX_EXPRESSION tok operator right) =
     result_bind (expression_ptr_string junk n right)
       (\<lambda>operand_string. result (''('' @ operator @ operand_string @ '')''))"
| "expression_string junk n (INFIX_EXPRESSION tok operator left right) =
     result_bind (expression_ptr_string junk n left)
       (\<lambda>left_string.
          result_bind (expression_ptr_string junk n right)
            (\<lambda>right_string.
               result (''('' @ left_string @ '' '' @ operator @ '' '' @ right_string @ '')'')))"
| "expression_string junk n (BOOLEAN_EXPRESSION tok v) = result (boolean_expression_string v)"
| "expression_string junk n (IF_EXPRESSION tok condition consequence alternative) =
     result_bind (expression_ptr_string junk n condition)
       (\<lambda>condition_string.
          result_bind (statement_string junk n consequence)
            (\<lambda>consequence_ptr.
               case alternative of
                 Some alt \<Rightarrow>
                   result_bind (statement_string junk n alt)
                     (\<lambda>alternative_ptr.
                        result_bind (percent_s consequence_ptr)
                          (\<lambda>consequence_string.
                             result_bind (percent_s alternative_ptr)
                               (\<lambda>alternative_string.
                                  result (''if'' @ condition_string @ '' '' @ consequence_string @
                                          '' else '' @ alternative_string))))
               | None \<Rightarrow>
                   result_bind (percent_s consequence_ptr)
                     (\<lambda>consequence_string.
                        result (''if'' @ condition_string @ '' '' @ consequence_string))))"
| "expression_string junk n (FUNCTION_LITERAL tok parameters body) =
     result_bind (result_bind (statement_string junk n body) percent_s)
       (\<lambda>body_string.
          result (literal tok @ ''('' @ generate_parameters_string (map snd parameters) @ '') '' @
                  body_string))"
| "expression_string junk n (CALL_EXPRESSION tok function arguments) =
     result_bind (arguments_strings junk n arguments)
       (\<lambda>args_strings.
          result_bind (expression_ptr_string junk n function)
            (\<lambda>function_string.
               result (function_string @ ''('' @ generate_parameters_string args_strings @ '')'')))"

| "expression_ptr_string junk n None = Some (Inl Invalid_Pointer)"
| "expression_ptr_string junk n (Some e) = expression_string junk n e"

| "arguments_strings junk n [] = result []"
| "arguments_strings junk n (arg # arguments) =
     result_bind (expression_ptr_string junk n arg)
       (\<lambda>param_string.
          result_bind (arguments_strings junk n arguments)
            (\<lambda>rest. result (param_string # rest)))"

| "statement_string junk n (LET_STATEMENT tok name v) =
     result_bind (case v of Some e \<Rightarrow> expression_string junk n e | None \<Rightarrow> result [])
       (\<lambda>value_string.
          result (Some (literal tok @ '' '' @ snd name @ '' = '' @ value_string @ '';'')))"
| "statement_string junk 0 (RETURN_STATEMENT tok return_value) =
     result_bind (case return_value of Some e \<Rightarrow> expression_string junk 0 e | None \<Rightarrow> result [])
       (\<lambda>value_string. None)"
| "statement_string junk (Suc n) (RETURN_STATEMENT tok return_value) =
     result_bind
       (case return_value of Some e \<Rightarrow> expression_string junk (Suc n) e | None \<Rightarrow> result [])
       (\<lambda>value_string.
          result_bind (result_bind (statement_string junk n (RETURN_STATEMENT tok return_value)) percent_s)
            (\<lambda>ret_string. result (Some (ret_string @ '' '' @ value_string @ '';''))))"
| "statement_string junk n (EXPRESSION_STATEMENT tok e) =
     (case e of
        Some e \<Rightarrow> result_bind (expression_string junk n e) (\<lambda>str. result (Some str))
      | None \<Rightarrow> result (Some []))"
| "statement_string junk n (BLOCK_STATEMENT tok statements) =
     block_statement_string_loop junk n statements None"

| "block_statement_string_loop junk n [] str = result str"
| "block_statement_string_loop junk n (s # statements) str =
     result_bind (statement_string junk n s)
       (\<lambda>stmt_string.
          case str of
            None \<Rightarrow> block_statement_string_loop junk n statements stmt_string
          | Some string \<Rightarrow>
              result_bind (percent_s stmt_string)
                (\<lambda>stmt_str.
                   block_statement_string_loop junk n statements
                     (Some (string @ '' '' @ stmt_str))))"

text \<open>
  \<open>program_string\<close>: the strings of the statements, joined by a space; \<open>NULL\<close> for a program
  without statements.
\<close>

fun program_string_loop ::
  "(nat \<Rightarrow> char) \<Rightarrow> nat \<Rightarrow> statement list \<Rightarrow> string option \<Rightarrow> string option result" where
  "program_string_loop junk n [] prog_string = result prog_string"
| "program_string_loop junk n (stmt # statements) prog_string =
     result_bind (result_bind (statement_string junk n stmt) percent_s)
       (\<lambda>stmt_string.
          program_string_loop junk n statements
            (Some (case prog_string of
                     Some str \<Rightarrow> str @ '' '' @ stmt_string
                   | None \<Rightarrow> stmt_string)))"

definition program_string :: "(nat \<Rightarrow> char) \<Rightarrow> nat \<Rightarrow> program_t \<Rightarrow> string option result" where
  "program_string junk n program = program_string_loop junk n program None"

section \<open>Lexer and round trip\<close>

text \<open>
  Modelled from the spec: the lexer is not part of the sources at hand. By section 4.1 of
  the specification it skips white space (space, tab, carriage return, newline); an
  identifier is a letter or underscore followed by letters, digits and underscores, and is
  a keyword token when it is one of the seven keywords; an integer is a sequence of digits;
  \<open>==\<close> and \<open>!=\<close> are the operators of two characters and \<open>=\<close> and \<open>!\<close> alone are \<open>ASSIGN\<close>
  and \<open>BANG\<close>; the other operators and delimiters have one character; any other byte is an
  \<open>ILLEGAL\<close> token with that byte as its literal. The enumeration \<open>token_type\<close> has no kinds
  for strings, brackets and the colon, so their bytes are unknown bytes here. The end of the
  list of tokens is the end of the input (\<open>lexer_next_token\<close> above).
\<close>

definition is_whitespace :: "char \<Rightarrow> bool" where
  "is_whitespace c = (c \<in> set [CHR '' '', CHR 0x09, CHR 0x0D, CHR 0x0A])"

definition is_letter :: "char \<Rightarrow> bool" where
  "is_letter c =
     (((65::nat) \<le> of_char c \<and> (of_char c :: nat) \<le> 90) \<or>
      ((97::nat) \<le> of_char c \<and> (of_char c :: nat) \<le> 122) \<or> c = CHR ''_'')"

definition is_ident_char :: "char \<Rightarrow> bool" where
  "is_ident_char c = (is_letter c \<or> is_digit_char c)"

definition lookup_ident :: "string \<Rightarrow> token_type" where
  "lookup_ident word =
     (if word = ''let'' then LET
      else if word = ''fn'' then FUNCTION
      else if word = ''if'' then IF
      else if word = ''else'' then ELSE
      else if word = ''return'' then RETURN
      else if word = ''true'' then TRUE
      else if word = ''false'' then FALSE
      else IDENT)"

definition single_char_type :: "char \<Rightarrow> token_type" where
  "single_char_type c =
     (if c = CHR ''+'' then PLUS
      else if c = CHR ''-'' then MINUS
      else if c = CHR ''*'' then ASTERISK
      else if c = CHR ''/'' then SLASH
      else if c = CHR ''<'' then LT
      else if c = CHR ''>'' then GT
      else if c = CHR ''('' then LPAREN
      else if c = CHR '')'' then RPAREN
      else if c = CHR ''{'' then LBRACE
      else if c = CHR ''}'' then RBRACE
      else if c = CHR '','' then COMMA
      else if c = CHR '';'' then SEMICOLON
      else ILLEGAL)"

function lexer_tokens :: "string \<Rightarrow> token list" where
  "lexer_tokens [] = []"
| "lexer_tokens (c # cs) =
     (if is_whitespace c then lexer_tokens cs
      else if is_letter c then
        \<lparr>type = lookup_ident (c # takeWhile is_ident_char cs),
         literal = c # takeWhile is_ident_char cs\<rparr> # lexer_tokens (dropWhile is_ident_char cs)
      else if is_digit_char c then
        \<lparr>type = INT', literal = c # takeWhile is_digit_char cs\<rparr> # lexer_tokens (dropWhile is_digit_char cs)
      else if c = CHR ''='' \<and> cs \<noteq> [] \<and> hd cs = CHR ''='' then
        \<lparr>type = EQ, literal = ''==''\<rparr> # lexer_tokens (tl cs)
      else if c = CHR ''!'' \<and> cs \<noteq> [] \<and> hd cs = CHR ''='' then
        \<lparr>type = NOT_EQ, literal = ''!=''\<rparr> # lexer_tokens (tl cs)
      else if c = CHR ''='' then \<lparr>type = ASSIGN, literal = ''=''\<rparr> # lexer_tokens cs
      else if c = CHR ''!'' then \<lparr>type = BANG, literal = ''!''\<rparr> # lexer_tokens cs
      else \<lparr>type = single_char_type c, literal = [c]\<rparr> # lexer_tokens cs)"
  by pat_completeness auto
termination
  by (relation "measure length")
     (auto simp: less_Suc_eq_le length_dropWhile_le intro: le_trans[OF length_dropWhile_le])

text \<open>
  The pipeline of the round trip: a source text is lexed and parsed; the program is printed
  by \<open>program_string\<close>; the string is lexed and parsed again.
\<close>

definition parse_source :: "nat \<Rightarrow> string \<Rightarrow> program_t outcome" where
  "parse_source n source = parse_program n (parser_init (lexer_tokens source))"

text \<open>
  Two trees are structurally identical when they agree in everything but the tokens kept
  in their nodes: \<open>erase_expression\<close> and \<open>erase_statement\<close> replace every token by the same
  token.
\<close>

definition no_token :: token where
  "no_token = \<lparr>type = ILLEGAL, literal = []\<rparr>"

fun erase_expression :: "expression \<Rightarrow> expression"
  and erase_statement :: "statement \<Rightarrow> statement" where
  "erase_expression (IDENTIFIER_EXPRESSION tok v) = IDENTIFIER_EXPRESSION no_token v"
| "erase_expression (INTEGER_EXPRESSION tok v) = INTEGER_EXPRESSION no_token v"
| "erase_expression (PREFIX_EXPRESSION tok operator right) =
     PREFIX_EXPRESSION no_token operator (map_option erase_expression right)"
| "erase_expression (INFIX_EXPRESSION tok operator left right) =
     INFIX_EXPRESSION no_token operator (map_option erase_expression left)
       (map_option erase_expression right)"
| "erase_expression (BOOLEAN_EXPRESSION tok v) = BOOLEAN_EXPRESSION no_token v"
| "erase_expression (IF_EXPRESSION tok condition consequence alternative) =
     IF_EXPRESSION no_token (map_option erase_expression condition) (erase_statement consequence)
       (map_option erase_statement alternative)"
| "erase_expression (FUNCTION_LITERAL tok parameters body) =
     FUNCTION_LITERAL no_token (map (\<lambda>param. (no_token, snd param)) parameters)
       (erase_statement body)"
| "erase_expression (CALL_EXPRESSION tok function arguments) =
     CALL_EXPRESSION no_token (map_option erase_expression function)
       (map (map_option erase_expression) arguments)"
| "erase_statement (LET_STATEMENT tok name v) =
     LET_STATEMENT no_token (no_token, snd name) (map_option erase_expression v)"
| "erase_statement (RETURN_STATEMENT tok return_value) =
     RETURN_STATEMENT no_token (map_option erase_expression return_value)"
| "erase_statement (EXPRESSION_STATEMENT tok e) =
     EXPRESSION_STATEMENT no_token (map_option erase_expression e)"
| "erase_statement (BLOCK_STATEMENT tok statements) =
     BLOCK_STATEMENT no_token (map erase_statement statements)"

definition structurally_identical :: "program_t \<Rightarrow> program_t \<Rightarrow> bool" where
  "structurally_identical program1 program2 =
     (map erase_statement program1 = map erase_statement program2)"

subsection \<open>Programs that are printed in a form that parses to themselves\<close>

text \<open>
  The programs for which the round trip is shown: sequences of let statements and expression
  statements whose expressions are made of identifiers, integers from 0 to \<open>LONG_MAX\<close>,
  booleans, the prefix operators, the infix operators and calls, with no child missing, as
  the parser builds them from a source text without errors. The string of a prefix or infix
  expression starts with a parenthesis, and so does the string of a call of such an
  expression; it must not follow an expression statement, because the statements are
  printed with a space and no semicolon between them.
\<close>

definition is_identifier :: "string \<Rightarrow> bool" where
  "is_identifier word =
     (word \<noteq> [] \<and> is_letter (hd word) \<and> list_all is_ident_char word \<and> lookup_ident word = IDENT)"

definition prefix_operators :: "string list" where
  "prefix_operators = [''-'', ''!'']"

definition infix_operators :: "string list" where
  "infix_operators = [''+'', ''-'', ''*'', ''/'', ''<'', ''>'', ''=='', ''!='']"

fun plain_expression :: "expression \<Rightarrow> bool" where
  "plain_expression (IDENTIFIER_EXPRESSION tok v) = is_identifier v"
| "plain_expression (INTEGER_EXPRESSION tok v) = (0 \<le> v \<and> v \<le> LONG_MAX)"
| "plain_expression (BOOLEAN_EXPRESSION tok v) = True"
| "plain_expression (PREFIX_EXPRESSION tok operator (Some right)) =
     (operator \<in> set prefix_operators \<and> plain_expression right)"
| "plain_expression (INFIX_EXPRESSION tok operator (Some left) (Some right)) =
     (operator \<in> set infix_operators \<and> plain_expression left \<and> plain_expression right)"
| "plain_expression (CALL_EXPRESSION tok (Some function) arguments) =
     (plain_expression function \<and>
      list_all (\<lambda>a. case a of Some x \<Rightarrow> plain_expression x | None \<Rightarrow> False) arguments)"
| "plain_expression _ = False"

fun plain_statement :: "statement \<Rightarrow> bool" where
  "plain_statement (LET_STATEMENT tok name (Some v)) =
     (literal tok = ''let'' \<and> is_identifier (snd name) \<and> plain_expression v)"
| "plain_statement (EXPRESSION_STATEMENT tok (Some e)) = plain_expression e"
| "plain_statement _ = False"

fun opens_with_parenthesis :: "expression \<Rightarrow> bool" where
  "opens_with_parenthesis (PREFIX_EXPRESSION tok operator right) = True"
| "opens_with_parenthesis (INFIX_EXPRESSION tok operator left right) = True"
| "opens_with_parenthesis (CALL_EXPRESSION tok (Some function) arguments) =
     opens_with_parenthesis function"
| "opens_with_parenthesis _ = False"

fun starts_with_parenthesis :: "statement \<Rightarrow> bool" where
  "starts_with_parenthesis (EXPRESSION_STATEMENT tok (Some e)) = opens_with_parenthesis e"
| "starts_with_parenthesis _ = False"

fun is_expression_statement :: "statement \<Rightarrow> bool" where
  "is_expression_statement (EXPRESSION_STATEMENT tok e) = True"
| "is_expression_statement _ = False"

fun plain_program :: "program_t \<Rightarrow> bool" where
  "plain_program [] = False"
| "plain_program [stmt] = plain_statement stmt"
| "plain_program (stmt # next_stmt # statements) =
     (plain_statement stmt \<and>
      \<not> (is_expression_statement stmt \<and> starts_with_parenthesis next_stmt) \<and>
      plain_program (next_stmt # statements))"

text \<open>
  The string of a plain expression, statement and program, and the tokens of the string.
\<close>

fun printed_expression :: "expression \<Rightarrow> string" where
  "printed_expression (IDENTIFIER_EXPRESSION tok v) = v"
| "printed_expression (INTEGER_EXPRESSION tok v) = decimal_repr v"
| "printed_expression (BOOLEAN_EXPRESSION tok v) = boolean_expression_string v"
| "printed_expression (PREFIX_EXPRESSION tok operator (Some right)) =
     ''('' @ operator @ printed_expression right @ '')''"
| "printed_expression (INFIX_EXPRESSION tok operator (Some left) (Some right)) =
     ''('' @ printed_expression left @ '' '' @ operator @ '' '' @ printed_expression right @ '')''"
| "printed_expression (CALL_EXPRESSION tok (Some function) arguments) =
     printed_expression function @ ''('' @
     generate_parameters_string
       (map (\<lambda>a. case a of Some x \<Rightarrow> printed_expression x | None \<Rightarrow> []) arguments) @ '')''"
| "printed_expression _ = []"

fun printed_statement :: "statement \<Rightarrow> string" where
  "printed_statement (LET_STATEMENT tok name (Some v)) =
     ''let '' @ snd name @ '' = '' @ printed_expression v @ '';''"
| "printed_statement (EXPRESSION_STATEMENT tok (Some e)) = printed_expression e"
| "printed_statement _ = []"

fun printed_program :: "program_t \<Rightarrow> string" where
  "printed_program [] = []"
| "printed_program [stmt] = printed_statement stmt"
| "printed_program (stmt # statements) = printed_statement stmt @ '' '' @ printed_program statements"

definition operator_token :: "string \<Rightarrow> token" where
  "operator_token operator =
     \<lparr>type = (if operator = ''+'' then PLUS
              else if operator = ''-'' then MINUS
              else if operator = ''*'' then ASTERISK
              else if operator = ''/'' then SLASH
              else if operator = ''<'' then LT
              else if operator = ''>'' then GT
              else if operator = ''=='' then EQ
              else if operator = ''!='' then NOT_EQ
              else if operator = ''!'' then BANG
              else ILLEGAL),
      literal = operator\<rparr>"

fun expression_tokens :: "expression \<Rightarrow> token list" where
  "expression_tokens (IDENTIFIER_EXPRESSION tok v) = [\<lparr>type = IDENT, literal = v\<rparr>]"
| "expression_tokens (INTEGER_EXPRESSION tok v) = [\<lparr>type = INT', literal = decimal_repr v\<rparr>]"
| "expression_tokens (BOOLEAN_EXPRESSION tok v) =
     [\<lparr>type = (if v then TRUE else FALSE), literal = boolean_expression_string v\<rparr>]"
| "expression_tokens (PREFIX_EXPRESSION tok operator (Some right)) =
     \<lparr>type = LPAREN, literal = ''(''\<rparr> # operator_token operator # expression_tokens right @
     [\<lparr>type = RPAREN, literal = '')''\<rparr>]"
| "expression_tokens (INFIX_EXPRESSION tok operator (Some left) (Some right)) =
     \<lparr>type = LPAREN, literal = ''(''\<rparr> # expression_tokens left @
     operator_token operator # expression_tokens right @ [\<lparr>type = RPAREN, literal = '')''\<rparr>]"
| "expression_tokens (CALL_EXPRESSION tok (Some function) arguments) =
     expression_tokens function @ lparen_token #
     separated (map (\<lambda>a. case a of Some x \<Rightarrow> expression_tokens x | None \<Rightarrow> []) arguments) @
     [rparen_token]"
| "expression_tokens _ = []"

fun statement_tokens :: "statement \<Rightarrow> token list" where
  "statement_tokens (LET_STATEMENT tok name (Some v)) =
     \<lparr>type = LET, literal = ''let''\<rparr> # \<lparr>type = IDENT, literal = snd name\<rparr> #
     \<lparr>type = ASSIGN, literal = ''=''\<rparr> # expression_tokens v @ [\<lparr>type = SEMICOLON, literal = '';''\<rparr>]"
| "statement_tokens (EXPRESSION_STATEMENT tok (Some e)) = expression_tokens e"
| "statement_tokens _ = []"

text \<open>
  The tree that parsing the string gives: the tree itself with the tokens of the string; a
  call keeps the token after its opening parenthesis.
\<close>

fun reparsed_expression :: "expression \<Rightarrow> expression" where
  "reparsed_expression (IDENTIFIER_EXPRESSION tok v) =
     IDENTIFIER_EXPRESSION \<lparr>type = IDENT, literal = v\<rparr> v"
| "reparsed_expression (INTEGER_EXPRESSION tok v) =
     INTEGER_EXPRESSION \<lparr>type = INT', literal = decimal_repr v\<rparr> v"
| "reparsed_expression (BOOLEAN_EXPRESSION tok v) =
     BOOLEAN_EXPRESSION \<lparr>type = (if v then TRUE else FALSE), literal = boolean_expression_string v\<rparr> v"
| "reparsed_expression (PREFIX_EXPRESSION tok operator (Some right)) =
     PREFIX_EXPRESSION (operator_token operator) operator (Some (reparsed_expression right))"
| "reparsed_expression (INFIX_EXPRESSION tok operator (Some left) (Some right)) =
     INFIX_EXPRESSION (operator_token operator) operator
       (Some (reparsed_expression left)) (Some (reparsed_expression right))"
| "reparsed_expression (CALL_EXPRESSION tok (Some function) arguments) =
     CALL_EXPRESSION
       (hd (separated (map (\<lambda>a. case a of Some x \<Rightarrow> expression_tokens x | None \<Rightarrow> []) arguments) @
            [rparen_token]))
       (Some (reparsed_expression function)) (map (map_option reparsed_expression) arguments)"
| "reparsed_expression e = e"

fun reparsed_statement :: "statement \<Rightarrow> statement" where
  "reparsed_statement (LET_STATEMENT tok name (Some v)) =
     LET_STATEMENT \<lparr>type = LET, literal = ''let''\<rparr> (\<lparr>type = IDENT, literal = snd name\<rparr>, snd name)
       (Some (reparsed_expression v))"
| "reparsed_statement (EXPRESSION_STATEMENT tok (Some e)) =
     EXPRESSION_STATEMENT (hd (expression_tokens e)) (Some (reparsed_expression e))"
| "reparsed_statement s = s"

text \<open>
  The outcome of parsing a statement and of the loop of \<open>parse_program\<close>, for every bound
  from some bound on.
\<close>

definition statement_outcome :: "parser_t \<Rightarrow> statement option outcome \<Rightarrow> bool" where
  "statement_outcome parser r = (\<exists>n0. \<forall>n \<ge> n0. parser_parse_statement n parser = r)"

definition program_outcome :: "parser_t \<Rightarrow> program_t \<Rightarrow> program_t outcome \<Rightarrow> bool" where
  "program_outcome parser program r = (\<exists>n0. \<forall>n \<ge> n0. parse_program_loop n parser program = r)"

text \<open>
  The rest of a source text after a word or a number: the word ends where the text ends or
  where a character follows that is no letter, digit or underscore.
\<close>

definition boundary :: "string \<Rightarrow> bool" where
  "boundary tail = (tail = [] \<or> \<not> is_ident_char (hd tail))"

section \<open>Properties of the codec\<close>

lemma be_pair_recombine:
  fixes w :: size_t
  assumes "unat w < 65536"
  shows "push_bit 8 (ucast (ucast (drop_bit 8 w) :: uint8_t)) OR ucast (ucast w :: uint8_t) = w"
proof -
  from assms have "unat w < 2 ^ 16" by simp
  then have tbn: "take_bit 16 (unat w) = unat w"
    by (simp add: take_bit_nat_eq_self_iff)
  have tb: "take_bit 16 w = w"
    by (metis tbn unsigned_take_bit_eq unsigned_word_eqI)
  have hi: "\<not> bit w n" if "16 \<le> n" for n
    using tb that by (metis bit_take_bit_iff not_less)
  have lo: "n < 16" if "bit w n" for n
    using hi[of n] that by (cases "n < 16") auto
  show ?thesis
    by (intro bit_word_eqI) (auto simp: bit_simps dest: lo)
qed

lemma size_t_to_uint8_be_two:
  "size_t_to_uint8_be w 2 = [ucast (drop_bit 8 w), ucast w]"
  by (simp add: numeral_2_eq_2)

text \<open>
  Claim C8. For every natural number \<open>n < 65536\<close>, the two-byte encoding of \<open>n\<close> consists of
  the high byte followed by the low byte, and decoding these two bytes yields \<open>n\<close> again.
\<close>

theorem be_roundtrip_16:
  "n < 65536 \<Longrightarrow>
     size_t_to_uint8_be (of_nat n) 2 = [of_nat (n div 256), of_nat (n mod 256)] \<and>
     be_to_size_t (size_t_to_uint8_be (of_nat n) 2) 2 = Some (of_nat n) \<and>
     unat (of_nat n :: size_t) = n"
proof -
  assume n: "n < 65536"
  let ?w = "of_nat n :: size_t"
  have un: "unat ?w = n" using n by (simp add: unat_of_nat)
  have hi: "(ucast (drop_bit 8 ?w) :: uint8_t) = of_nat (n div 256)"
  proof -
    have "unat (drop_bit 8 ?w) = n div 256"
      by (simp add: drop_bit_eq_div unat_div un)
    then show ?thesis by (metis of_nat_unat)
  qed
  have lo: "(ucast ?w :: uint8_t) = of_nat (n mod 256)"
  proof -
    have "(ucast ?w :: uint8_t) = of_nat n" by (metis of_nat_unat un)
    also have "\<dots> = of_nat (n mod 256)"
      by (simp add: word_of_nat_eq_iff take_bit_eq_mod)
    finally show ?thesis .
  qed
  have dec: "be_to_size_t (size_t_to_uint8_be ?w 2) 2 = Some ?w"
    using be_pair_recombine [of ?w] un n
    by (simp add: be_to_size_t_def size_t_to_uint8_be_two)
  show ?thesis
    using hi lo dec un by (simp add: size_t_to_uint8_be_two)
qed

theorem be_roundtrip_16_witness:
  "(258::nat) < 65536 \<and>
     size_t_to_uint8_be 258 2 = [1, 2] \<and>
     be_to_size_t (size_t_to_uint8_be 258 2) 2 = Some 258 \<and>
     unat (258 :: size_t) = 258"
  using be_roundtrip_16 [of 258] by auto

section \<open>Properties of the integer to string conversion\<close>

declare decimal_digits.simps [simp del]
declare long_to_string_loop.simps [simp del]
declare calculate_string_size_loop.simps [simp del]

lemma sdiv_nonneg: "0 \<le> l \<Longrightarrow> l sdiv 10 = l div (10::int)"
  by (simp add: signed_divide_int_def sgn_if)

lemma smod_nonneg: "0 \<le> l \<Longrightarrow> l smod 10 = l mod (10::int)"
  by (simp add: signed_modulo_int_def sgn_if)

lemma decimal_digits_length_pos: "0 < length (decimal_digits n)"
  by (subst decimal_digits.simps) simp

lemma digit_char_int: "0 \<le> l \<Longrightarrow> char_of (48 + l) = digit_char (nat (l::int))"
proof -
  assume "0 \<le> l"
  then have "48 + l = int (48 + nat l)" by simp
  then show ?thesis unfolding digit_char_def by (metis char_of_nat)
qed

lemma calculate_string_size_loop_eq:
  "0 \<le> l \<Longrightarrow> calculate_string_size_loop l s + 1 = s + length (decimal_digits (nat l))"
proof (induction l s rule: calculate_string_size_loop.induct)
  case (1 l sz)
  show ?case
  proof (cases "10 \<le> l")
    case True
    then have nd: "nat l div 10 = nat (l div 10)" by (simp add: nat_div_distrib)
    from True have "\<not> nat l < 10" by simp
    then have "decimal_digits (nat l) = decimal_digits (nat l div 10) @ [digit_char (nat l mod 10)]"
      by (subst decimal_digits.simps) simp
    moreover have "calculate_string_size_loop (l sdiv 10) (sz + 1) + 1 = sz + 1 + length (decimal_digits (nat (l sdiv 10)))"
      using 1 True by (simp add: sdiv_nonneg pos_imp_zdiv_nonneg_iff)
    moreover have "calculate_string_size_loop l sz = calculate_string_size_loop (l sdiv 10) (sz + 1)"
      using True by (subst calculate_string_size_loop.simps) simp
    ultimately show ?thesis using True 1(2) by (simp add: sdiv_nonneg nd)
  next
    case False
    with 1(2) have "nat l < 10" by simp
    then have "decimal_digits (nat l) = [digit_char (nat l)]"
      by (subst decimal_digits.simps) simp
    moreover have "calculate_string_size_loop l sz = sz"
      using False by (subst calculate_string_size_loop.simps) simp
    ultimately show ?thesis by simp
  qed
qed

lemma long_to_string_loop_writes:
  "0 \<le> l \<Longrightarrow> length (decimal_digits (nat l)) \<le> index \<Longrightarrow> index \<le> length str \<Longrightarrow>
   Option.bind (long_to_string_loop (str, index) l) (\<lambda>(st2, l2). store_before st2 (char_of (48 + l2)))
     = Some (take (index - length (decimal_digits (nat l))) str @ decimal_digits (nat l) @ drop index str,
             index - length (decimal_digits (nat l)))"
proof (induction "(str, index)" l arbitrary: str index rule: long_to_string_loop.induct)
  case (1 l)
  show ?case
  proof (cases "10 \<le> l")
    case True
    then have nd: "nat l div 10 = nat (l div 10)" by (simp add: nat_div_distrib)
    have nm: "nat l mod 10 = nat (l mod 10)" using True by (simp add: nat_mod_distrib)
    from True have "\<not> nat l < 10" by simp
    then have dd: "decimal_digits (nat l) = decimal_digits (nat (l div 10)) @ [digit_char (nat (l mod 10))]"
      by (subst decimal_digits.simps) (simp add: nd nm)
    let ?d = "digit_char (nat (l mod 10))"
    let ?n = "length (decimal_digits (nat (l div 10)))"
    have len: "length (decimal_digits (nat l)) = ?n + 1" by (simp add: dd)
    have ipos: "0 < index" "index - 1 < length str" using 1(3,4) len by auto
    have st: "store_before (str, index) (char_of (48 + l smod 10)) = Some (str[index - 1 := ?d], index - 1)"
      using ipos True by (simp add: store_before_def smod_nonneg digit_char_int)
    have ih: "Option.bind (long_to_string_loop (str[index - 1 := ?d], index - 1) (l sdiv 10))
                (\<lambda>(st2, l2). store_before st2 (char_of (48 + l2)))
              = Some (take (index - 1 - ?n) (str[index - 1 := ?d]) @ decimal_digits (nat (l div 10)) @ drop (index - 1) (str[index - 1 := ?d]),
                      index - 1 - ?n)"
      using 1(1)[OF True st] True 1(3,4) len
      by (simp add: sdiv_nonneg pos_imp_zdiv_nonneg_iff)
    have dr: "drop (index - 1) (str[index - 1 := ?d]) = ?d # drop index str"
      using ipos by (metis Cons_nth_drop_Suc Suc_pred' drop_update_cancel length_list_update lessI nth_list_update_eq)
    have tk: "take (index - 1 - ?n) (str[index - 1 := ?d]) = take (index - (?n + 1)) str"
      by simp
    have "long_to_string_loop (str, index) l = long_to_string_loop (str[index - 1 := ?d], index - 1) (l sdiv 10)"
      using True st by (subst long_to_string_loop.simps) simp
    then show ?thesis
      using ih dr by (simp add: dd)
  next
    case False
    with 1(2) have lt: "nat l < 10" by simp
    then have dd: "decimal_digits (nat l) = [digit_char (nat l)]"
      by (subst decimal_digits.simps) simp
    have ipos: "0 < index" "index - 1 < length str" using 1(3,4) dd by auto
    have "str[index - 1 := digit_char (nat l)] = take (index - 1) str @ digit_char (nat l) # drop index str"
      using ipos by (metis Suc_pred' upd_conv_take_nth_drop)
    moreover have "long_to_string_loop (str, index) l = Some ((str, index), l)"
      using False by (subst long_to_string_loop.simps) simp
    ultimately show ?thesis
      using False ipos 1(2) by (simp add: store_before_def dd digit_char_int)
  qed
qed


lemma wrap_long_negate: "LONG_MIN < l \<Longrightarrow> l \<le> LONG_MAX \<Longrightarrow> wrap_long (-1 * l) = - l"
  by (simp add: wrap_long_def LONG_MIN_def LONG_MAX_def signed_take_bit_int_eq_self_iff)

lemma digit_char_is_digit: "d < 10 \<Longrightarrow> is_digit_char (digit_char d)"
  by (simp add: is_digit_char_def digit_char_def)

lemma digit_char_value: "d < 10 \<Longrightarrow> (of_char (digit_char d) :: nat) - 48 = d"
  by (simp add: digit_char_def)

lemma decimal_digits_all_digits: "\<forall>c \<in> set (decimal_digits n). is_digit_char c"
proof (induction n rule: decimal_digits.induct)
  case (1 n)
  show ?case
  proof (cases "n < 10")
    case True
    then show ?thesis by (subst decimal_digits.simps) (simp add: digit_char_is_digit)
  next
    case False
    then show ?thesis using 1 by (subst decimal_digits.simps) (simp add: digit_char_is_digit)
  qed
qed

lemma is_digit_char_not_nul: "is_digit_char c \<Longrightarrow> c \<noteq> CHR 0x00"
  by (auto simp: is_digit_char_def)

lemma is_digit_char_not_minus: "is_digit_char c \<Longrightarrow> c \<noteq> CHR ''-''"
  by (auto simp: is_digit_char_def)

lemma digits_value_append:
  "digits_value acc (xs @ ys) = Option.bind (digits_value acc xs) (\<lambda>a. digits_value a ys)"
  by (induction xs arbitrary: acc) auto

lemma digits_value_decimal_digits:
  "digits_value acc (decimal_digits n) = Some (acc * 10 ^ length (decimal_digits n) + n)"
proof (induction n arbitrary: acc rule: decimal_digits.induct)
  case (1 n)
  show ?case
  proof (cases "n < 10")
    case True
    then have "decimal_digits n = [digit_char n]" by (subst decimal_digits.simps) simp
    then show ?thesis using True by (simp add: digit_char_is_digit digit_char_value)
  next
    case False
    then have dd: "decimal_digits n = decimal_digits (n div 10) @ [digit_char (n mod 10)]"
      by (subst decimal_digits.simps) simp
    show ?thesis
      using 1[OF False] by (simp add: dd digits_value_append digit_char_is_digit digit_char_value algebra_simps)
  qed
qed

lemma decimal_digits_no_leading_zero: "0 < n \<Longrightarrow> hd (decimal_digits n) \<noteq> CHR ''0''"
proof (induction n rule: decimal_digits.induct)
  case (1 n)
  show ?case
  proof (cases "n < 10")
    case True
    then have "decimal_digits n = [digit_char n]" by (subst decimal_digits.simps) simp
    moreover have "digit_char n \<noteq> CHR ''0''" using True 1(2) by (simp add: digit_char_def char_of_eq_iff take_bit_eq_mod)
    ultimately show ?thesis by simp
  next
    case False
    then have dd: "decimal_digits n = decimal_digits (n div 10) @ [digit_char (n mod 10)]"
      by (subst decimal_digits.simps) simp
    have "decimal_digits (n div 10) \<noteq> []" using decimal_digits_length_pos[of "n div 10"] by auto
    then show ?thesis using 1(1)[OF False] False by (simp add: dd)
  qed
qed

lemma decimal_value_decimal_repr: "decimal_value (decimal_repr l) = Some l"
proof (cases "l < 0")
  case True
  have ne: "decimal_digits (nat (- l)) \<noteq> []" using decimal_digits_length_pos[of "nat (- l)"] by auto
  show ?thesis using True ne by (simp add: decimal_value_def decimal_repr_def digits_value_decimal_digits)
next
  case False
  obtain c cs where cs: "decimal_digits (nat l) = c # cs"
    using decimal_digits_length_pos[of "nat l"] by (cases "decimal_digits (nat l)") auto
  then have "is_digit_char c" using decimal_digits_all_digits[of "nat l"] by auto
  then have "c \<noteq> CHR ''-''" by (rule is_digit_char_not_minus)
  moreover have "digits_value 0 (c # cs) = Some (nat l)"
    using digits_value_decimal_digits[of 0 "nat l"] cs by simp
  ultimately show ?thesis using False cs by (simp add: decimal_value_def decimal_repr_def)
qed

lemma c_str_terminated: "\<forall>c \<in> set xs. c \<noteq> CHR 0x00 \<Longrightarrow> c_str (xs @ CHR 0x00 # rest) = xs"
  by (simp add: c_str_def)

lemma fresh_block_split:
  "map junk [0 ..< n + 2] = map junk [0 ..< n] @ [junk n, junk (n + 1)]"
  by simp

lemma long_to_string_digits:
  assumes "0 \<le> a" and "n = k + length (decimal_digits (nat a))"
  shows "Option.bind (store_before (map junk [0 ..< n + 2], n + 1) (CHR 0x00))
           (\<lambda>st1. Option.bind (long_to_string_loop st1 a)
              (\<lambda>(st2, l2). store_before st2 (char_of (48 + l2))))
         = Some (map junk [0 ..< k] @ decimal_digits (nat a) @ [CHR 0x00, junk (n + 1)], k)"
proof -
  let ?ds = "decimal_digits (nat a)"
  let ?str = "map junk [0 ..< n + 2]"
  let ?str1 = "map junk [0 ..< n] @ [CHR 0x00, junk (n + 1)]"
  have up: "?str[n := CHR 0x00] = ?str1"
    by (simp only: fresh_block_split) (simp add: list_update_append)
  have s1: "store_before (?str, n + 1) (CHR 0x00) = Some (?str1, n)"
    using up by (simp add: store_before_def)
  have lp: "Option.bind (long_to_string_loop (?str1, n) a) (\<lambda>(st2, l2). store_before st2 (char_of (48 + l2)))
     = Some (take (n - length ?ds) ?str1 @ ?ds @ drop n ?str1, n - length ?ds)"
    by (rule long_to_string_loop_writes) (use assms in auto)
  have tk: "take (n - length ?ds) ?str1 = map junk [0 ..< k]"
    using assms(2) by (simp add: take_map)
  have dr: "drop n ?str1 = [CHR 0x00, junk (n + 1)]"
    by simp
  show ?thesis
    unfolding s1 using lp tk dr assms(2) by simp
qed

lemma long_to_string_block:
  assumes "LONG_MIN < l" "l \<le> LONG_MAX"
  shows "long_to_string junk l =
           Some (decimal_repr l @ [CHR 0x00, junk (length (decimal_repr l) + 1)])"
proof (cases "l < 0")
  case True
  let ?ds = "decimal_digits (nat (- l))"
  let ?n = "1 + length ?ds"
  have css: "calculate_string_size l = ?n"
    using calculate_string_size_loop_eq[of "- l" 1] wrap_long_negate[OF assms] True
    by (simp add: calculate_string_size_def)
  have "Option.bind (store_before (map junk [0 ..< ?n + 2], ?n + 1) (CHR 0x00))
           (\<lambda>st1. Option.bind (long_to_string_loop st1 (- l))
              (\<lambda>(st2, l2). store_before st2 (char_of (48 + l2))))
         = Some (map junk [0 ..< 1] @ ?ds @ [CHR 0x00, junk (?n + 1)], 1)"
    by (rule long_to_string_digits) (use True in auto)
  then show ?thesis
    using True wrap_long_negate[OF assms]
    by (auto simp: long_to_string_def css decimal_repr_def store_before_def Let_def
             split: option.splits prod.splits Option.bind_splits)
next
  case False
  let ?ds = "decimal_digits (nat l)"
  let ?n = "0 + length ?ds"
  have css: "calculate_string_size l = ?n"
    using calculate_string_size_loop_eq[of l 0] False
    by (simp add: calculate_string_size_def)
  have "Option.bind (store_before (map junk [0 ..< ?n + 2], ?n + 1) (CHR 0x00))
           (\<lambda>st1. Option.bind (long_to_string_loop st1 l)
              (\<lambda>(st2, l2). store_before st2 (char_of (48 + l2))))
         = Some (map junk [0 ..< 0] @ ?ds @ [CHR 0x00, junk (?n + 1)], 0)"
    by (rule long_to_string_digits) (use False in auto)
  then show ?thesis
    using False
    by (auto simp: long_to_string_def css decimal_repr_def Let_def
             split: option.splits prod.splits Option.bind_splits)
qed

text \<open>
  Claim C9. For every \<open>long\<close> value \<open>l\<close> above \<open>LONG_MIN\<close>, whatever the allocated block
  held before, \<open>long_to_string\<close> returns a block whose string is the decimal representation
  of \<open>l\<close>: a minus sign exactly when \<open>l\<close> is negative, then the digits of \<open>\<bar>l\<bar>\<close> without a
  leading zero (the single digit 0 for 0); reading the string back as a number gives \<open>l\<close>.
\<close>

theorem long_to_string_decimal:
  "LONG_MIN < l \<Longrightarrow> l \<le> LONG_MAX \<Longrightarrow>
     (\<exists>mem. long_to_string junk l = Some mem \<and>
            c_str mem = decimal_repr l \<and>
            decimal_value (c_str mem) = Some l) \<and>
     decimal_repr l = (if l < 0 then [CHR ''-''] else []) @ decimal_digits (nat \<bar>l\<bar>) \<and>
     (if l = 0 then decimal_digits (nat \<bar>l\<bar>) = ''0''
      else hd (decimal_digits (nat \<bar>l\<bar>)) \<noteq> CHR ''0'')"
proof -
  assume r: "LONG_MIN < l" "l \<le> LONG_MAX"
  have nn: "\<forall>c \<in> set (decimal_repr l). c \<noteq> CHR 0x00"
    using decimal_digits_all_digits is_digit_char_not_nul
    by (auto simp: decimal_repr_def)
  have cs: "c_str (decimal_repr l @ [CHR 0x00, junk (length (decimal_repr l) + 1)]) = decimal_repr l"
    using c_str_terminated[OF nn] by simp
  have z: "decimal_digits 0 = ''0''"
    by (subst decimal_digits.simps) (simp add: digit_char_def char_of_eq_iff)
  have lz: "l \<noteq> 0 \<Longrightarrow> hd (decimal_digits (nat \<bar>l\<bar>)) \<noteq> CHR ''0''"
    by (rule decimal_digits_no_leading_zero) simp
  let ?mem = "decimal_repr l @ [CHR 0x00, junk (length (decimal_repr l) + 1)]"
  have "long_to_string junk l = Some ?mem \<and> c_str ?mem = decimal_repr l \<and>
        decimal_value (c_str ?mem) = Some l"
    using long_to_string_block[OF r, of junk] cs by (simp add: decimal_value_decimal_repr)
  then have ex: "\<exists>mem. long_to_string junk l = Some mem \<and> c_str mem = decimal_repr l \<and>
        decimal_value (c_str mem) = Some l"
    by blast
  have shape: "decimal_repr l = (if l < 0 then [CHR ''-''] else []) @ decimal_digits (nat \<bar>l\<bar>)"
    by (simp add: decimal_repr_def)
  show ?thesis
    using ex shape z lz by simp
qed

theorem long_to_string_decimal_witness:
  "LONG_MIN < - 120 \<and> - 120 \<le> LONG_MAX \<and>
   (\<exists>mem. long_to_string (\<lambda>_. CHR ''x'') (- 120) = Some mem \<and>
            c_str mem = ''-120'' \<and> decimal_value (c_str mem) = Some (- 120))"
proof -
  have r: "LONG_MIN < - 120" "- 120 \<le> LONG_MAX" by (simp_all add: LONG_MIN_def LONG_MAX_def)
  have d: "decimal_repr (- 120) = ''-120''"
    by (simp add: decimal_repr_def decimal_digits.simps digit_char_def char_of_eq_iff)
  have "\<exists>mem. long_to_string (\<lambda>_. CHR ''x'') (- 120) = Some mem \<and>
            c_str mem = decimal_repr (- 120) \<and> decimal_value (c_str mem) = Some (- 120)"
    using long_to_string_decimal[OF r, of "\<lambda>_. CHR ''x''"] by blast
  then show ?thesis
    unfolding d using r by simp
qed

section \<open>Properties of the linked list\<close>

lemma chain_ConsI:
  "p = fst c \<Longrightarrow> p \<noteq> NULL \<Longrightarrow> ns p = Some n \<Longrightarrow> node_data n = snd c \<Longrightarrow>
   chain ns (node_next n) cells \<Longrightarrow> chain ns p (c # cells)"
  by simp

lemma chain_ConsD:
  "chain ns p (c # cells) \<Longrightarrow>
   \<exists>n. ns p = Some n \<and> p = fst c \<and> p \<noteq> NULL \<and> node_data n = snd c \<and> chain ns (node_next n) cells"
  by (auto split: option.splits)

lemma chain_in_dom: "chain ns p cells \<Longrightarrow> a \<in> fst ` set cells \<Longrightarrow> ns a \<noteq> None \<and> a \<noteq> NULL"
  by (induction cells arbitrary: p) (auto split: option.splits)

lemma chain_functional: "chain ns p xs \<Longrightarrow> chain ns p ys \<Longrightarrow> xs = ys"
proof (induction xs arbitrary: p ys)
  case Nil
  then show ?case by (cases ys) auto
next
  case (Cons x xs)
  then show ?case by (cases ys) (auto split: option.splits simp: prod_eq_iff)
qed

lemma chain_suffix: "chain ns p (xs @ c # ys) \<Longrightarrow> chain ns (fst c) (c # ys)"
proof (induction xs arbitrary: p)
  case Nil
  then show ?case by auto
next
  case (Cons x xs)
  then obtain n :: cm_list_node where "chain ns (node_next n) (xs @ c # ys)"
    using chain_ConsD[of ns p x "xs @ c # ys"] by auto
  then show ?case by (rule Cons.IH)
qed

lemma chain_distinct: "chain ns p cells \<Longrightarrow> distinct (map fst cells)"
proof (induction cells arbitrary: p)
  case Nil
  then show ?case by simp
next
  case (Cons c cells)
  then obtain n where n: "ns p = Some n" "p = fst c" "chain ns (node_next n) cells"
    by (auto split: option.splits)
  have "fst c \<notin> fst ` set cells"
  proof
    assume "fst c \<in> fst ` set cells"
    then obtain c' where c': "c' \<in> set cells" "fst c' = fst c" by auto
    then obtain xs ys where sp: "cells = xs @ c' # ys" by (auto simp: in_set_conv_decomp)
    then have "chain ns (fst c') (c' # ys)" using n(3) chain_suffix by blast
    then have "chain ns p (c' # ys)" using c'(2) n(2) by simp
    then have "c # cells = c' # ys" using Cons.prems chain_functional by blast
    then show False using sp by simp
  qed
  then show ?case using Cons.IH[OF n(3)] by simp
qed

lemma chain_fresh_update:
  "chain ns p cells \<Longrightarrow> ns a = None \<Longrightarrow> chain (ns(a \<mapsto> n)) p cells"
  by (induction cells arbitrary: p) (auto split: option.splits)

lemma chain_append_last:
  assumes "chain ns p cells" "cells \<noteq> []" "ns (fst (last cells)) = Some t"
    and "ns node = Some \<lparr>node_data = data, node_next = NULL\<rparr>" "node \<notin> fst ` set cells" "node \<noteq> NULL"
  shows "chain (ns(fst (last cells) \<mapsto> t\<lparr>node_next := node\<rparr>)) p (cells @ [(node, data)])"
  using assms
proof (induction cells arbitrary: p)
  case Nil
  then show ?case by simp
next
  case (Cons c cells)
  from Cons.prems(1) obtain n where n: "ns p = Some n" "p = fst c" "p \<noteq> NULL" "node_data n = snd c"
      "chain ns (node_next n) cells"
    by (auto split: option.splits)
  show ?case
  proof (cases "cells = []")
    case True
    then have "node_next n = NULL" using n(5) by simp
    with True n Cons.prems show ?thesis by auto
  next
    case False
    have d: "distinct (map fst (c # cells))" using Cons.prems(1) by (rule chain_distinct)
    have "fst (last cells) \<in> fst ` set cells" using False by simp
    moreover have "p \<notin> fst ` set cells" using d n(2) by simp
    ultimately have ne: "fst (last cells) \<noteq> p" by metis
    have "chain (ns(fst (last cells) \<mapsto> t\<lparr>node_next := node\<rparr>)) (node_next n) (cells @ [(node, data)])"
    proof (rule Cons.IH[OF n(5) False])
      show "ns (fst (last cells)) = Some t" using Cons.prems(3) False by simp
      show "ns node = Some \<lparr>node_data = data, node_next = NULL\<rparr>" by (rule Cons.prems(4))
      show "node \<notin> fst ` set cells" using Cons.prems(5) by simp
      show "node \<noteq> NULL" by (rule Cons.prems(6))
    qed
    moreover have "(ns(fst (last cells) \<mapsto> t\<lparr>node_next := node\<rparr>)) p = Some n"
      using n(1) ne by simp
    ultimately have "chain (ns(fst (last cells) \<mapsto> t\<lparr>node_next := node\<rparr>)) p (c # (cells @ [(node, data)]))"
      using n by (intro chain_ConsI[where n = n]) auto
    moreover have "last (c # cells) = last cells" using False by simp
    ultimately show ?thesis by (simp only: append_Cons)
  qed
qed

lemma distinct_addr_bound:
  fixes xs :: "addr list"
  assumes "distinct xs" "NULL \<notin> set xs"
  shows "length xs \<le> 2 ^ 64 - 1"
proof -
  have "set xs \<subseteq> UNIV - {NULL}" using assms(2) by auto
  then have "card (set xs) \<le> card (UNIV - {NULL :: addr})"
    by (intro card_mono) auto
  also have "\<dots> = 2 ^ 64 - 1" by (simp add: card_Diff_singleton card_word)
  finally show ?thesis using assms(1) by (simp add: distinct_card)
qed

lemma cm_list_init_inv:
  "avail h = list # rest \<Longrightarrow> list \<noteq> NULL \<Longrightarrow>
   \<exists>h'. cm_list_init h = Inr (list, h') \<and> cm_list_inv h' list []"
  by (simp add: cm_list_init_def malloc_def cm_list_inv_def)

text \<open>
  Claim C10. Let the list object at \<open>list\<close> satisfy the list invariant with cells \<open>cells\<close>, and
  let \<open>malloc\<close> succeed with a node address that is not yet a node of the heap. Then
  \<open>cm_list_add\<close> returns 1, the length field grows by exactly one (without wrapping), the new
  node is the tail and its next pointer is \<open>NULL\<close>, and the list invariant holds again with the
  old cells, in their order, followed by the new cell: the stored data pointers are the old
  ones followed by \<open>data\<close>.
\<close>

theorem cm_list_add_appends:
  assumes inv: "cm_list_inv h list cells"
    and av: "avail h = node # rest"
    and nn: "node \<noteq> NULL"
    and fresh: "nodes h node = None"
  shows "\<exists>h' l l' n.
           cm_list_add h list data = Inr (1, h') \<and>
           cm_list_inv h' list (cells @ [(node, data)]) \<and>
           lists h list = Some l \<and> lists h' list = Some l' \<and>
           list_length l' = list_length l + 1 \<and>
           unat (list_length l') = unat (list_length l) + 1 \<and>
           list_tail l' = node \<and>
           nodes h' node = Some n \<and> node_next n = NULL \<and> node_data n = data \<and>
           map snd (cells @ [(node, data)]) = map snd cells @ [data]"
proof -
  from inv obtain l where l: "lists h list = Some l"
      "chain (nodes h) (list_head l) cells" "unat (list_length l) = length cells"
      "list_tail l = (if cells = [] then NULL else fst (last cells))"
    by (auto simp: cm_list_inv_def split: option.splits)
  let ?new = "\<lparr>node_data = data, node_next = NULL\<rparr>"
  let ?ns1 = "(nodes h)(node \<mapsto> ?new)"
  have notin: "node \<notin> fst ` set cells"
    using chain_in_dom[OF l(2), of node] fresh by auto
  have dist: "distinct (node # map fst cells)"
    using chain_distinct[OF l(2)] notin by simp
  have nonull: "NULL \<notin> set (node # map fst cells)"
    using chain_in_dom[OF l(2)] nn by auto
  have "length (node # map fst cells) \<le> 2 ^ 64 - 1"
    using dist nonull by (rule distinct_addr_bound)
  then have bound: "length cells + 1 < 2 ^ 64" by simp
  have len: "unat (list_length l + 1) = length cells + 1"
    using bound l(3) by (simp add: unat_word_ariths)
  have c1: "chain ?ns1 (list_head l) cells"
    using l(2) fresh by (rule chain_fresh_update)
  have m: "malloc h = (node, h\<lparr>avail := rest\<rparr>)"
    using av by (simp add: malloc_def)
  show ?thesis
  proof (cases "cells = []")
    case True
    then have hd: "list_head l = NULL" using l(2) by simp
    let ?l' = "l\<lparr>list_length := list_length l + 1, list_head := node, list_tail := node\<rparr>"
    let ?h' = "h\<lparr>avail := rest, nodes := ?ns1, lists := (lists h)(list \<mapsto> ?l')\<rparr>"
    have "cm_list_add h list data = Inr (1, ?h')"
      using m nn l(1) hd by (simp add: cm_list_add_def Let_def)
    moreover have "cm_list_inv ?h' list (cells @ [(node, data)])"
      using True nn len by (simp add: cm_list_inv_def)
    ultimately show ?thesis
      using l(1) len l(3) by (intro exI[where x = ?h'] exI[where x = l] exI[where x = ?l'] exI[where x = ?new]) simp
  next
    case False
    then have hd: "list_head l \<noteq> NULL" using l(2) by (cases cells) auto
    have tl: "list_tail l = fst (last cells)" using l(4) False by simp
    have "fst (last cells) \<in> fst ` set cells" using False by simp
    then have "nodes h (fst (last cells)) \<noteq> None" and tne: "fst (last cells) \<noteq> node"
      using chain_in_dom[OF l(2)] notin by auto
    then obtain t where t: "nodes h (fst (last cells)) = Some t" by auto
    then have t1: "?ns1 (fst (last cells)) = Some t" using tne by simp
    let ?ns2 = "?ns1(fst (last cells) \<mapsto> t\<lparr>node_next := node\<rparr>)"
    let ?l' = "l\<lparr>list_length := list_length l + 1, list_tail := node\<rparr>"
    let ?h' = "h\<lparr>avail := rest, nodes := ?ns2, lists := (lists h)(list \<mapsto> ?l')\<rparr>"
    have "cm_list_add h list data = Inr (1, ?h')"
      using m nn l(1) hd tl t1 by (simp add: cm_list_add_def Let_def)
    moreover have c2: "chain ?ns2 (list_head l) (cells @ [(node, data)])"
      using c1 False t1 _ notin nn by (rule chain_append_last) simp
    then have "cm_list_inv ?h' list (cells @ [(node, data)])"
      using len by (simp add: cm_list_inv_def)
    moreover have "?ns2 node = Some ?new" using tne by simp
    ultimately show ?thesis
      using l(1) len l(3) by (intro exI[where x = ?h'] exI[where x = l] exI[where x = ?l'] exI[where x = ?new]) simp
  qed
qed


theorem cm_list_add_appends_witness:
  "cm_list_inv
     \<lparr>lists = [16 \<mapsto> \<lparr>list_head = 32, list_tail = 32, list_length = 1\<rparr>],
      nodes = [32 \<mapsto> \<lparr>node_data = 7, node_next = 0\<rparr>],
      entries = Map.empty, tables = Map.empty, avail = [48]\<rparr> 16 [(32, 7)] \<and>
   (48 :: addr) \<noteq> NULL \<and>
   (\<exists>h'. cm_list_add
     \<lparr>lists = [16 \<mapsto> \<lparr>list_head = 32, list_tail = 32, list_length = 1\<rparr>],
      nodes = [32 \<mapsto> \<lparr>node_data = 7, node_next = 0\<rparr>],
      entries = Map.empty, tables = Map.empty, avail = [48]\<rparr> 16 9 = Inr (1, h') \<and>
      cm_list_inv h' 16 [(32, 7), (48, 9)])"
proof -
  let ?h = "\<lparr>lists = [16 \<mapsto> \<lparr>list_head = 32, list_tail = 32, list_length = 1\<rparr>],
      nodes = [32 \<mapsto> \<lparr>node_data = 7, node_next = 0\<rparr>],
      entries = Map.empty, tables = Map.empty, avail = [48]\<rparr>"
  have inv: "cm_list_inv ?h 16 [(32, 7)]" by (simp add: cm_list_inv_def NULL_def)
  have av: "avail ?h = 48 # []" by simp
  have nn: "(48 :: addr) \<noteq> NULL" by (simp add: NULL_def)
  have fresh: "nodes ?h 48 = None" by simp
  show ?thesis
    using cm_list_add_appends [OF inv av nn fresh, of 9] inv nn by auto
qed

section \<open>Properties of the hash table\<close>

lemma cm_hash_table_put_twice_keeps_first:
  assumes t: "tables h hash_table = Some t"
    and idx: "bucket_index t key = Inr index" "table t ! index = NULL"
    and same: "hash_func t key2 = hash_func t key"
    and refl: "keycmp t key key"
    and av: "avail h = a1 # a2 # a3 # a4 # a5 # rest"
    and nn: "a1 \<noteq> NULL" "a2 \<noteq> NULL" "a3 \<noteq> NULL" "a4 \<noteq> NULL" "a5 \<noteq> NULL"
    and dist: "a2 \<noteq> a4" "a3 \<noteq> a5"
  shows "\<exists>h1 h2. cm_hash_table_put h hash_table key v1 = Inr h1 \<and>
                 cm_hash_table_put h1 hash_table key2 v2 = Inr h2 \<and>
                 cm_hash_table_get h2 hash_table key = Some (Inr v1)"
proof -
  have idx2: "bucket_index t key2 = Inr index"
    using idx(1) same by (auto simp: bucket_index_def Let_def split: if_splits)
  have il: "index < length (table t)"
    using idx(1) by (auto simp: bucket_index_def Let_def split: if_splits)
  let ?t1 = "t\<lparr>table := (table t)[index := a1], nentries := nentries t + 1, nkeys := nkeys t + 1\<rparr>"
  let ?h1 = "h\<lparr>avail := a4 # a5 # rest,
               lists := (lists h)(a1 \<mapsto> \<lparr>list_head = a3, list_tail = a3, list_length = 1\<rparr>),
               tables := (tables h)(hash_table \<mapsto> ?t1),
               entries := (entries h)(a2 \<mapsto> \<lparr>entry_key = key, entry_value = v1\<rparr>),
               nodes := (nodes h)(a3 \<mapsto> \<lparr>node_data = a2, node_next = NULL\<rparr>)\<rparr>"
  have p1: "cm_hash_table_put h hash_table key v1 = Inr ?h1"
    using t idx av nn
    by (simp add: cm_hash_table_put_def cm_list_init_def malloc_def cm_list_add_def Let_def)
  have b1: "bucket_index ?t1 key2 = Inr index" "bucket_index ?t1 key = Inr index"
    using idx2 idx(1) by (auto simp: bucket_index_def Let_def split: if_splits)
  let ?t2 = "?t1\<lparr>nkeys := nkeys ?t1 + 1\<rparr>"
  let ?h2 = "?h1\<lparr>avail := rest,
               entries := (entries ?h1)(a4 \<mapsto> \<lparr>entry_key = key2, entry_value = v2\<rparr>),
               tables := (tables ?h1)(hash_table \<mapsto> ?t2),
               nodes := (nodes ?h1)(a5 \<mapsto> \<lparr>node_data = a4, node_next = NULL\<rparr>,
                                    a3 \<mapsto> \<lparr>node_data = a2, node_next = a5\<rparr>),
               lists := (lists ?h1)(a1 \<mapsto> \<lparr>list_head = a3, list_tail = a5, list_length = 2\<rparr>)\<rparr>"
  have p2: "cm_hash_table_put ?h1 hash_table key2 v2 = Inr ?h2"
    using b1 il nn dist
    by (simp add: cm_hash_table_put_def malloc_def cm_list_add_def Let_def)
  have b2: "bucket_index ?t2 key = Inr index"
    using idx(1) by (auto simp: bucket_index_def Let_def split: if_splits)
  have g: "cm_hash_table_get ?h2 hash_table key = Some (Inr v1)"
    using b2 il nn dist refl
    by (simp add: cm_hash_table_get_def Let_def cm_hash_table_get_loop.simps)
  show ?thesis using p1 p2 g by blast
qed

text \<open>
  Claim C2. The claim says that a second \<open>cm_hash_table_put\<close> with an equal key overwrites the
  binding, so that \<open>cm_hash_table_get\<close> returns the second value. On a table made by
  \<open>cm_hash_table_init\<close> with \<open>string_hash_function\<close> and \<open>string_keycmp\<close>, where the keys at
  addresses 100 and 200 both are the string \<open>x\<close>, putting value 300 under the first key and
  then value 400 under the second leaves both entries in the bucket, and the lookup returns
  the first one, 300.
\<close>

theorem cm_hash_table_put_existing_key_keeps_old_value:
  "\<exists>t h1 h2 h3.
     cm_hash_table_init
       \<lparr>lists = Map.empty, nodes = Map.empty, entries = Map.empty, tables = Map.empty,
        avail = [16, 24, 32, 40, 48, 56, 64]\<rparr> 8
       (string_hash_function (\<lambda>a. if a = 100 \<or> a = 200 then ''x'' else []))
       (string_keycmp (\<lambda>a. if a = 100 \<or> a = 200 then ''x'' else [])) = Inr (t, h1) \<and>
     keycmp (the (tables h1 t)) 200 100 \<and>
     cm_hash_table_put h1 t 100 300 = Inr h2 \<and>
     cm_hash_table_put h2 t 200 400 = Inr h3 \<and>
     cm_hash_table_get h3 t 100 = Some (Inr 300)"
proof -
  let ?mem = "\<lambda>a :: addr. if a = 100 \<or> a = 200 then ''x'' else []"
  let ?h0 = "\<lparr>lists = Map.empty, nodes = Map.empty, entries = Map.empty, tables = Map.empty,
        avail = [16, 24, 32, 40, 48, 56, 64 :: addr]\<rparr>"
  let ?t = "\<lparr>hash_func = string_hash_function ?mem, keycmp = string_keycmp ?mem, table_size = 8,
             table = replicate 8 NULL, nentries = 0, nkeys = 0\<rparr>"
  let ?h1 = "?h0\<lparr>avail := [32, 40, 48, 56, 64], tables := [16 \<mapsto> ?t]\<rparr>"
  have i: "cm_hash_table_init ?h0 8 (string_hash_function ?mem) (string_keycmp ?mem) = Inr (16, ?h1)"
    by (simp add: cm_hash_table_init_def malloc_def NULL_def)
  have hx: "string_hash_function ?mem 100 = 177693" "string_hash_function ?mem 200 = 177693"
    by (simp_all add: string_hash_function_def char_to_int_def)
  have t: "tables ?h1 16 = Some ?t" by simp
  have b: "bucket_index ?t 100 = Inr 5"
    by (simp add: bucket_index_def hx Let_def)
  have e: "table ?t ! 5 = NULL"
    by (simp add: numeral_eq_Suc)
  have same: "hash_func ?t 200 = hash_func ?t 100" by (simp add: hx)
  have r: "keycmp ?t 100 100" "keycmp ?t 200 100" by (simp_all add: string_keycmp_def)
  have av: "avail ?h1 = 32 # 40 # 48 # 56 # 64 # []" by simp
  obtain h2 h3 where
    "cm_hash_table_put ?h1 16 100 300 = Inr h2"
    "cm_hash_table_put h2 16 200 400 = Inr h3"
    "cm_hash_table_get h3 16 100 = Some (Inr 300)"
    using cm_hash_table_put_twice_keeps_first [OF t b e same r(1) av, of 300 400]
    by (auto simp: NULL_def)
  then show ?thesis using i r(2) by (intro exI[where x = 16] exI[where x = ?h1] exI[where x = h2] exI[where x = h3]) simp
qed

section \<open>Properties of the token kinds\<close>

lemma token_types_all: "set token_types = UNIV"
proof -
  have "t \<in> set token_types" for t by (cases t) (simp_all add: token_types_def)
  then show ?thesis by auto
qed

text \<open>
  Claim C5. The claim says that the token kinds of the code are exactly the kinds the
  specification lists, among them \<open>STRING\<close>, \<open>COLON\<close>, \<open>LBRACKET\<close> and \<open>RBRACKET\<close>. The
  enumeration \<open>token_type\<close> has 27 enumerators, and they are the kinds of the specification
  without these four.
\<close>

theorem token_type_enumerators:
  "set token_types = UNIV \<and> distinct token_types \<and> length token_types = 27 \<and>
   inj token_type_name \<and>
   set (map token_type_name token_types) =
     set spec_token_kinds - {''STRING'', ''COLON'', ''LBRACKET'', ''RBRACKET''}"
proof -
  have d: "distinct (map token_type_name token_types)"
    by (simp add: token_types_def)
  have "inj_on token_type_name (set token_types)"
    using d by (simp add: distinct_map)
  then have i: "inj token_type_name" by (simp add: token_types_all)
  have s: "set (map token_type_name token_types) =
     set spec_token_kinds - {''STRING'', ''COLON'', ''LBRACKET'', ''RBRACKET''}"
  proof -
    have a: "list_all (\<lambda>s. s \<in> set spec_token_kinds \<and> s \<notin> {''STRING'', ''COLON'', ''LBRACKET'', ''RBRACKET''})
               (map token_type_name token_types)"
      by (simp add: token_types_def spec_token_kinds_def)
    have b: "list_all (\<lambda>s. s \<in> {''STRING'', ''COLON'', ''LBRACKET'', ''RBRACKET''} \<or>
                                s \<in> set (map token_type_name token_types))
               spec_token_kinds"
      by (simp add: token_types_def spec_token_kinds_def)
    show ?thesis
      using a b unfolding list_all_iff by blast
  qed
  show ?thesis
    using token_types_all i s by (simp add: token_types_def)
qed

theorem token_type_enumerators_counterexample:
  "''STRING'' \<in> set spec_token_kinds \<and> ''STRING'' \<notin> set (map token_type_name token_types) \<and>
   ''COLON'' \<in> set spec_token_kinds \<and> ''COLON'' \<notin> set (map token_type_name token_types) \<and>
   ''LBRACKET'' \<in> set spec_token_kinds \<and> ''LBRACKET'' \<notin> set (map token_type_name token_types) \<and>
   ''RBRACKET'' \<in> set spec_token_kinds \<and> ''RBRACKET'' \<notin> set (map token_type_name token_types)"
  by (simp add: token_types_def spec_token_kinds_def)

section \<open>Properties of the parser\<close>

lemma cur_tok_next [simp]: "cur_tok (parser_next_token p) = peek_tok p"
  by (simp add: parser_next_token_def split: prod.splits)

lemma errors_next [simp]: "errors (parser_next_token p) = errors p"
  by (simp add: parser_next_token_def split: prod.splits)

lemma and_then_returns [simp]: "and_then (returns p x) f = f p x"
  by (simp add: and_then_def returns_def)

lemma and_then_simps [simp]:
  "and_then None f = None"
  "and_then (Some (Inl e)) f = Some (Inl e)"
  "and_then (Some (Inr (p, x))) f = f p x"
  by (simp_all add: and_then_def)

text \<open>
  Claim C3. The claim says that \<open>return ;\<close> gives a return statement without a value and
  records no error. For every parser whose current token is \<open>RETURN\<close> and whose next token is
  a semicolon, the parser returns the return statement with a \<open>NULL\<close> value, and it records
  exactly one error on the way: \<open>parse_expression\<close> is called on the semicolon, which has no
  prefix parse function.
\<close>

theorem parse_return_statement_semicolon:
  "type (cur_tok parser) = RETURN \<Longrightarrow> type (peek_tok parser) = SEMICOLON \<Longrightarrow>
   \<exists>parser'. parser_parse_statement (Suc (Suc n)) parser =
                Some (Inr (parser', Some (RETURN_STATEMENT (cur_tok parser) None))) \<and>
              errors parser' = errors parser @
                [''no prefix parse function for the token '' @ [CHR 0x22] @
                 literal (peek_tok parser) @ [CHR 0x22]]"
  by (simp add: parse_return_statement_def handle_no_prefix_fn_def add_parse_error_def returns_def)

theorem parse_return_statement_semicolon_witness:
  "type (cur_tok (parser_init [\<lparr>type = RETURN, literal = ''return''\<rparr>, \<lparr>type = SEMICOLON, literal = '';''\<rparr>])) = RETURN \<and>
   type (peek_tok (parser_init [\<lparr>type = RETURN, literal = ''return''\<rparr>, \<lparr>type = SEMICOLON, literal = '';''\<rparr>])) = SEMICOLON \<and>
   (\<exists>parser'. parser_parse_statement 2
        (parser_init [\<lparr>type = RETURN, literal = ''return''\<rparr>, \<lparr>type = SEMICOLON, literal = '';''\<rparr>]) =
        Some (Inr (parser', Some (RETURN_STATEMENT \<lparr>type = RETURN, literal = ''return''\<rparr> None))) \<and>
      errors parser' = [''no prefix parse function for the token '' @ [CHR 0x22] @ '';'' @ [CHR 0x22]])"
proof -
  let ?p = "parser_init [\<lparr>type = RETURN, literal = ''return''\<rparr>, \<lparr>type = SEMICOLON, literal = '';''\<rparr>]"
  have c: "cur_tok ?p = \<lparr>type = RETURN, literal = ''return''\<rparr>"
    by (simp add: parser_init_def lexer_next_token_def)
  have k: "peek_tok ?p = \<lparr>type = SEMICOLON, literal = '';''\<rparr>"
    by (simp add: parser_init_def lexer_next_token_def parser_next_token_def)
  have e: "errors ?p = []"
    by (simp add: parser_init_def lexer_next_token_def)
  have 1: "type (cur_tok ?p) = RETURN" by (simp add: c)
  have 2: "type (peek_tok ?p) = SEMICOLON" by (simp add: k)
  show ?thesis
    using parse_return_statement_semicolon [OF 1 2, of 0] 1 2 c k e
    by (simp add: numeral_2_eq_2)
qed

theorem parse_return_statement_semicolon_counterexample:
  "parse_program 3
      (parser_init [\<lparr>type = RETURN, literal = ''return''\<rparr>, \<lparr>type = SEMICOLON, literal = '';''\<rparr>]) =
      Some (Inr (\<lparr>lexer = [], cur_tok = \<lparr>type = END_OF_FILE, literal = []\<rparr>,
                  peek_tok = \<lparr>type = END_OF_FILE, literal = []\<rparr>,
                  errors = [''no prefix parse function for the token '' @ [CHR 0x22] @ '';'' @ [CHR 0x22]]\<rparr>,
                 [RETURN_STATEMENT \<lparr>type = RETURN, literal = ''return''\<rparr> None]))"
  by (simp add: parse_program_def parser_init_def lexer_next_token_def parser_next_token_def
      numeral_3_eq_3 parse_return_statement_def handle_no_prefix_fn_def add_parse_error_def returns_def)

lemma prefix_fns_defined:
  "{t. prefix_fns t \<noteq> None} = {IDENT, INT', MINUS, BANG, LPAREN, FUNCTION, IF, TRUE, FALSE}"
proof -
  have "(prefix_fns t \<noteq> None) = (t \<in> {IDENT, INT', MINUS, BANG, LPAREN, FUNCTION, IF, TRUE, FALSE})" for t
    by (cases t) simp_all
  then show ?thesis by blast
qed

text \<open>
  Claim C4. The claim says that the table of prefix parse functions maps \<open>[\<close> and \<open>{\<close> to
  parsers of array and hash literals. The token kinds have no bracket, and the table has no
  entry for \<open>LBRACE\<close>: for every parser whose current token is \<open>{\<close>, \<open>parse_expression\<close>
  returns \<open>NULL\<close> and records that there is no prefix parse function for the token. The
  kinds with a prefix parse function are \<open>IDENT\<close>, \<open>INT\<close>, \<open>MINUS\<close>, \<open>BANG\<close>, \<open>LPAREN\<close>,
  \<open>FUNCTION\<close>, \<open>IF\<close>, \<open>TRUE\<close> and \<open>FALSE\<close>.
\<close>

theorem parse_expression_lbrace:
  "type (cur_tok parser) = LBRACE \<Longrightarrow>
     parse_expression (Suc n) parser precedence' =
       Some (Inr (parser\<lparr>errors := errors parser @
                    [''no prefix parse function for the token '' @ [CHR 0x22] @
                     literal (cur_tok parser) @ [CHR 0x22]]\<rparr>, None)) \<and>
     {t. prefix_fns t \<noteq> None} = {IDENT, INT', MINUS, BANG, LPAREN, FUNCTION, IF, TRUE, FALSE} \<and>
     ''LBRACKET'' \<notin> set (map token_type_name token_types)"
  using prefix_fns_defined
  by (simp add: handle_no_prefix_fn_def add_parse_error_def returns_def token_types_def)

theorem parse_expression_lbrace_witness:
  "type (cur_tok (parser_init [\<lparr>type = LBRACE, literal = ''{''\<rparr>, \<lparr>type = RBRACE, literal = ''}''\<rparr>])) = LBRACE \<and>
   parse_expression 1 (parser_init [\<lparr>type = LBRACE, literal = ''{''\<rparr>, \<lparr>type = RBRACE, literal = ''}''\<rparr>]) LOWEST =
     Some (Inr (\<lparr>lexer = [], cur_tok = \<lparr>type = LBRACE, literal = ''{''\<rparr>,
                 peek_tok = \<lparr>type = RBRACE, literal = ''}''\<rparr>,
                 errors = [''no prefix parse function for the token '' @ [CHR 0x22] @ ''{'' @ [CHR 0x22]]\<rparr>,
                None))"
proof -
  let ?p = "parser_init [\<lparr>type = LBRACE, literal = ''{''\<rparr>, \<lparr>type = RBRACE, literal = ''}''\<rparr>]"
  have p: "?p = \<lparr>lexer = [], cur_tok = \<lparr>type = LBRACE, literal = ''{''\<rparr>,
                 peek_tok = \<lparr>type = RBRACE, literal = ''}''\<rparr>, errors = []\<rparr>"
    by (simp add: parser_init_def lexer_next_token_def parser_next_token_def)
  have 1: "type (cur_tok ?p) = LBRACE" by (simp add: p)
  show ?thesis
    using parse_expression_lbrace [OF 1, of 0 LOWEST] 1 by (simp add: p)
qed

theorem parse_expression_lbrace_counterexample:
  "parse_program 4 (parser_init [\<lparr>type = LBRACE, literal = ''{''\<rparr>, \<lparr>type = RBRACE, literal = ''}''\<rparr>]) =
     Some (Inr (\<lparr>lexer = [], cur_tok = \<lparr>type = END_OF_FILE, literal = []\<rparr>,
                 peek_tok = \<lparr>type = END_OF_FILE, literal = []\<rparr>,
                 errors = [''no prefix parse function for the token '' @ [CHR 0x22] @ ''{'' @ [CHR 0x22],
                           ''no prefix parse function for the token '' @ [CHR 0x22] @ ''}'' @ [CHR 0x22]]\<rparr>,
                [EXPRESSION_STATEMENT \<lparr>type = LBRACE, literal = ''{''\<rparr> None,
                 EXPRESSION_STATEMENT \<lparr>type = RBRACE, literal = ''}''\<rparr> None]))"
  by (simp add: parse_program_def parser_init_def lexer_next_token_def parser_next_token_def
      numeral_eq_Suc parse_expression_statement_def handle_no_prefix_fn_def add_parse_error_def returns_def)

subsection \<open>The error messages of the parser\<close>

lemma errors_ok_next [simp]: "errors_ok (parser_next_token p) = errors_ok p"
  by (simp add: errors_ok_def)

lemma errors_ok_add: "errors_ok p \<Longrightarrow> parse_error_form m \<Longrightarrow> errors_ok (add_parse_error p m)"
  by (simp add: errors_ok_def add_parse_error_def)

lemma errors_ok_no_prefix: "errors_ok p \<Longrightarrow> errors_ok (handle_no_prefix_fn p)"
  unfolding handle_no_prefix_fn_def
  by (rule errors_ok_add) (auto simp: parse_error_form_def message_no_prefix_def)

lemma errors_ok_peek_error: "errors_ok p \<Longrightarrow> errors_ok (peek_error p t)"
  unfolding peek_error_def
  by (rule errors_ok_add) (auto simp: parse_error_form_def message_expected_def)

lemma errors_ok_expect_peek: "errors_ok p \<Longrightarrow> expect_peek p t = (p', ok) \<Longrightarrow> errors_ok p'"
  by (auto simp: expect_peek_def errors_ok_peek_error split: if_splits)

lemma errors_ok_integer:
  "errors_ok p \<Longrightarrow> parse_integer_expression p = (p', e) \<Longrightarrow> errors_ok p'"
  unfolding parse_integer_expression_def
  by (auto split: prod.splits if_splits intro!: errors_ok_add
           simp: parse_error_form_def message_integer_def)

lemma keeps_returns [simp]: "keeps_errors_ok (returns p x) = errors_ok p"
  by (simp add: keeps_errors_ok_def returns_def)

lemma keeps_fault [simp]: "keeps_errors_ok (Some (Inl e))" "keeps_errors_ok None"
  by (simp_all add: keeps_errors_ok_def)

lemma keeps_and_then:
  "keeps_errors_ok m \<Longrightarrow> (\<And>p x. errors_ok p \<Longrightarrow> keeps_errors_ok (f p x)) \<Longrightarrow>
   keeps_errors_ok (and_then m f)"
proof (cases m)
  case None
  then show ?thesis by simp
next
  case (Some r)
  assume k: "keeps_errors_ok m" and f: "\<And>p x. errors_ok p \<Longrightarrow> keeps_errors_ok (f p x)"
  show ?thesis
  proof (cases r)
    case (Inl e)
    with Some show ?thesis by simp
  next
    case (Inr px)
    obtain p x where px: "px = (p, x)" by (cases px)
    with Some Inr k have "errors_ok p" by (simp add: keeps_errors_ok_def)
    then show ?thesis using f Some Inr px by simp
  qed
qed

lemma errors_function_parameters_loop:
  "parse_function_parameters_loop p ps = (p', ps') \<Longrightarrow> errors p' = errors p"
proof (induction p ps rule: parse_function_parameters_loop.induct)
  case (1 parser parameters)
  then show ?case
    by (subst (asm) (2) parse_function_parameters_loop.simps) (auto simp: Let_def split: if_splits)
qed

lemma errors_ok_function_parameters:
  assumes "errors_ok p" "parse_function_parameters p = (p', r)"
  shows "errors_ok p'"
proof (cases "type (peek_tok p) = RPAREN")
  case True
  then show ?thesis using assms by (auto simp: parse_function_parameters_def)
next
  case False
  let ?p1 = "parser_next_token p"
  obtain p2 ps where l: "parse_function_parameters_loop ?p1 [create_identifier ?p1] = (p2, ps)"
    by (cases "parse_function_parameters_loop ?p1 [create_identifier ?p1]")
  obtain p3 ok where e: "expect_peek p2 RPAREN = (p3, ok)"
    by (cases "expect_peek p2 RPAREN")
  have "errors p2 = errors p" using errors_function_parameters_loop[OF l] by simp
  then have "errors_ok p2" using assms(1) by (simp add: errors_ok_def)
  then have "errors_ok p3" using e by (rule errors_ok_expect_peek)
  moreover have "p' = p3"
    using assms(2) False l e by (simp add: parse_function_parameters_def Let_def)
  ultimately show ?thesis by simp
qed


lemma keeps_prefix_expression:
  assumes pe: "\<And>p q. errors_ok p \<Longrightarrow> keeps_errors_ok (pe p q)" and ok: "errors_ok p"
  shows "keeps_errors_ok (parse_prefix_expression pe p)"
  unfolding parse_prefix_expression_def
  by (intro keeps_and_then pe) (simp_all add: ok)

lemma keeps_infix_expression:
  assumes pe: "\<And>p q. errors_ok p \<Longrightarrow> keeps_errors_ok (pe p q)" and ok: "errors_ok p"
  shows "keeps_errors_ok (parse_infix_expression pe p left)"
  unfolding parse_infix_expression_def
  by (intro keeps_and_then pe) (simp_all add: ok)

lemma keeps_grouped_expression:
  assumes pe: "\<And>p q. errors_ok p \<Longrightarrow> keeps_errors_ok (pe p q)" and ok: "errors_ok p"
  shows "keeps_errors_ok (parse_grouped_expression pe p)"
  unfolding parse_grouped_expression_def
proof (intro keeps_and_then pe)
  show "errors_ok (parser_next_token p)" using ok by simp
next
  fix p1 :: parser_t and x :: "expression option"
  assume "errors_ok p1"
  then show "keeps_errors_ok (case expect_peek p1 RPAREN of
            (parser2, ok) \<Rightarrow>
              if ok then returns parser2 x
              else if free_expression_ptr x then returns parser2 None
              else Some (Inl Invalid_Pointer))"
    by (auto split: prod.splits dest: errors_ok_expect_peek)
qed

lemma keeps_block_statement_loop:
  assumes ps: "\<And>p. errors_ok p \<Longrightarrow> keeps_errors_ok (ps p)"
  shows "errors_ok p \<Longrightarrow> keeps_errors_ok (parse_block_statement_loop ps n p stmts)"
proof (induction n arbitrary: p stmts)
  case 0
  then show ?case by simp
next
  case (Suc n)
  show ?case
    by (simp add: Suc.prems) (intro impI keeps_and_then ps Suc.prems, simp add: Suc.IH)
qed

lemma keeps_block_statement:
  assumes ps: "\<And>p. errors_ok p \<Longrightarrow> keeps_errors_ok (ps p)" and ok: "errors_ok p"
  shows "keeps_errors_ok (parse_block_statement ps n p)"
  unfolding parse_block_statement_def
  by (intro keeps_and_then keeps_block_statement_loop ps) (simp_all add: ok)

lemma keeps_call_arguments_loop:
  assumes pe: "\<And>p q. errors_ok p \<Longrightarrow> keeps_errors_ok (pe p q)"
  shows "errors_ok p \<Longrightarrow> keeps_errors_ok (parse_call_arguments_loop pe n p args)"
proof (induction n arbitrary: p args)
  case 0
  then show ?case by simp
next
  case (Suc n)
  show ?case
    by (simp add: Suc.prems) (intro impI keeps_and_then pe, simp add: Suc.prems, simp add: Suc.IH)
qed


lemma keeps_call_arguments:
  assumes pe: "\<And>p q. errors_ok p \<Longrightarrow> keeps_errors_ok (pe p q)" and ok: "errors_ok p"
  shows "keeps_errors_ok (parse_call_arguments pe n p)"
proof (cases "type (peek_tok p) = RPAREN")
  case True
  then show ?thesis by (simp add: parse_call_arguments_def ok)
next
  case False
  have "keeps_errors_ok (and_then (pe (parser_next_token p) LOWEST)
          (\<lambda>parser1 arg.
             and_then (parse_call_arguments_loop pe n parser1 [arg])
               (\<lambda>parser2 arguments.
                  case expect_peek parser2 RPAREN of
                    (parser3, ok) \<Rightarrow>
                      if ok then returns parser3 (Some arguments)
                      else if list_all free_expression_ptr arguments then returns parser3 None
                      else Some (Inl Invalid_Pointer))))"
  proof (intro keeps_and_then pe keeps_call_arguments_loop)
    show "errors_ok (parser_next_token p)" using ok by simp
  next
    fix p2 :: parser_t and arguments :: "expression option list"
    assume "errors_ok p2"
    then show "keeps_errors_ok (case expect_peek p2 RPAREN of
                    (parser3, ok) \<Rightarrow>
                      if ok then returns parser3 (Some arguments)
                      else if list_all free_expression_ptr arguments then returns parser3 None
                      else Some (Inl Invalid_Pointer))"
      by (auto split: prod.splits dest: errors_ok_expect_peek)
  qed assumption+
  then show ?thesis using False by (simp add: parse_call_arguments_def)
qed

lemma keeps_call_expression:
  assumes pe: "\<And>p q. errors_ok p \<Longrightarrow> keeps_errors_ok (pe p q)" and ok: "errors_ok p"
  shows "keeps_errors_ok (parse_call_expression pe n p f)"
  unfolding parse_call_expression_def
  by (intro keeps_and_then keeps_call_arguments pe ok) (auto split: option.splits)

lemma keeps_expression_loop:
  assumes pe: "\<And>p q. errors_ok p \<Longrightarrow> keeps_errors_ok (pe p q)"
  shows "errors_ok p \<Longrightarrow> keeps_errors_ok (parse_expression_loop pe n p prec left)"
proof (induction n arbitrary: p left)
  case 0
  then show ?case by simp
next
  case (Suc n)
  have nx: "errors_ok (parser_next_token p)" using Suc.prems by simp
  have "keeps_errors_ok (and_then
               (case infix_fn of
                  Parse_infix_expression \<Rightarrow>
                    parse_infix_expression pe (parser_next_token p) left
                | Parse_call_expression \<Rightarrow>
                    parse_call_expression pe n (parser_next_token p) left)
               (\<lambda>parser1 right. parse_expression_loop pe n parser1 prec right))" for infix_fn
  proof (intro keeps_and_then Suc.IH)
    show "keeps_errors_ok (case infix_fn of
                  Parse_infix_expression \<Rightarrow>
                    parse_infix_expression pe (parser_next_token p) left
                | Parse_call_expression \<Rightarrow>
                    parse_call_expression pe n (parser_next_token p) left)"
      using keeps_infix_expression[of pe "parser_next_token p" left, OF pe nx]
            keeps_call_expression[of pe "parser_next_token p" n left, OF pe nx]
      by (cases infix_fn) simp_all
  qed assumption
  then show ?case
    by (simp add: Suc.prems split: option.splits)
qed

lemma keeps_letstatement:
  assumes pe: "\<And>p q. errors_ok p \<Longrightarrow> keeps_errors_ok (pe p q)" and ok: "errors_ok p"
  shows "keeps_errors_ok (parse_letstatement pe p)"
proof -
  obtain p1 ok1 where e1: "expect_peek p IDENT = (p1, ok1)" by (cases "expect_peek p IDENT")
  obtain p2 ok2 where e2: "expect_peek p1 ASSIGN = (p2, ok2)" by (cases "expect_peek p1 ASSIGN")
  have o1: "errors_ok p1" using ok e1 by (rule errors_ok_expect_peek)
  have o2: "errors_ok p2" using o1 e2 by (rule errors_ok_expect_peek)
  have "keeps_errors_ok (and_then (pe (parser_next_token p2) LOWEST)
                     (\<lambda>parser3 v.
                        returns
                          (if type (peek_tok parser3) = SEMICOLON then parser_next_token parser3
                           else parser3)
                          (Some (LET_STATEMENT (cur_tok p) (create_identifier p1) v))))"
    by (intro keeps_and_then pe) (simp_all add: o2)
  then show ?thesis
    by (simp add: parse_letstatement_def e1 e2 o1 o2)
qed

lemma keeps_return_statement:
  assumes pe: "\<And>p q. errors_ok p \<Longrightarrow> keeps_errors_ok (pe p q)" and ok: "errors_ok p"
  shows "keeps_errors_ok (parse_return_statement pe p)"
  unfolding parse_return_statement_def
  by (intro keeps_and_then pe) (simp_all add: ok)

lemma keeps_expression_statement:
  assumes pe: "\<And>p q. errors_ok p \<Longrightarrow> keeps_errors_ok (pe p q)" and ok: "errors_ok p"
  shows "keeps_errors_ok (parse_expression_statement pe p)"
  unfolding parse_expression_statement_def
  by (intro keeps_and_then pe) (simp_all add: ok)

lemma keeps_function_literal:
  assumes ps: "\<And>p. errors_ok p \<Longrightarrow> keeps_errors_ok (ps p)" and ok: "errors_ok p"
  shows "keeps_errors_ok (parse_function_literal ps n p)"
proof -
  obtain p1 ok1 where e1: "expect_peek p LPAREN = (p1, ok1)" by (cases "expect_peek p LPAREN")
  obtain p2 r where fp: "parse_function_parameters p1 = (p2, r)" by (cases "parse_function_parameters p1")
  obtain p3 ok3 where e3: "expect_peek p2 LBRACE = (p3, ok3)" by (cases "expect_peek p2 LBRACE")
  have o1: "errors_ok p1" using ok e1 by (rule errors_ok_expect_peek)
  have o2: "errors_ok p2" using o1 fp by (rule errors_ok_function_parameters)
  have o3: "errors_ok p3" using o2 e3 by (rule errors_ok_expect_peek)
  have "keeps_errors_ok (and_then (parse_block_statement ps n p3)
                          (\<lambda>parser4 body.
                             returns parser4
                               (Some (FUNCTION_LITERAL (cur_tok p) parameters body))))" for parameters
    by (intro keeps_and_then keeps_block_statement ps o3) simp_all
  then show ?thesis
    by (simp add: parse_function_literal_def e1 fp e3 o1 o2 o3 split: option.splits)
qed


lemma keeps_if_expression:
  assumes pe: "\<And>p q. errors_ok p \<Longrightarrow> keeps_errors_ok (pe p q)"
    and ps: "\<And>p. errors_ok p \<Longrightarrow> keeps_errors_ok (ps p)" and ok: "errors_ok p"
  shows "keeps_errors_ok (parse_if_expression pe ps n p)"
proof -
  obtain p1 ok1 where e1: "expect_peek p LPAREN = (p1, ok1)" by (cases "expect_peek p LPAREN")
  have o1: "errors_ok p1" using ok e1 by (rule errors_ok_expect_peek)
  have alt: "keeps_errors_ok
         (if type (peek_tok p5) = ELSE then
            (case expect_peek (parser_next_token p5) LBRACE of
               (parser6, ok6) \<Rightarrow>
                 if \<not> ok6 then
                   (if (condition = None \<or> free_expression_ptr condition) \<and>
                       free_statement consequence
                    then returns parser6 None
                    else Some (Inl Invalid_Pointer))
                 else
                   and_then (parse_block_statement ps n parser6)
                     (\<lambda>parser7 alternative.
                        returns parser7
                          (Some (IF_EXPRESSION (cur_tok p) condition
                                   consequence (Some alternative)))))
          else
            returns p5 (Some (IF_EXPRESSION (cur_tok p) condition consequence None)))"
    if o5: "errors_ok p5" for p5 condition consequence
  proof (cases "type (peek_tok p5) = ELSE")
    case False
    then show ?thesis using o5 by simp
  next
    case True
    obtain p6 ok6 where e6: "expect_peek (parser_next_token p5) LBRACE = (p6, ok6)"
      by (cases "expect_peek (parser_next_token p5) LBRACE")
    have o6: "errors_ok p6" using e6 o5 errors_ok_expect_peek[of "parser_next_token p5" LBRACE p6 ok6] by simp
    have "keeps_errors_ok (and_then (parse_block_statement ps n p6)
                     (\<lambda>parser7 alternative.
                        returns parser7
                          (Some (IF_EXPRESSION (cur_tok p) condition
                                   consequence (Some alternative)))))"
      by (intro keeps_and_then keeps_block_statement ps o6) simp_all
    then show ?thesis using True e6 o6 by simp
  qed
  have body: "keeps_errors_ok
         (case expect_peek p2 RPAREN of
            (parser3, ok3) \<Rightarrow>
              if \<not> ok3 then
                (if condition = None \<or> free_expression_ptr condition
                 then returns parser3 None else Some (Inl Invalid_Pointer))
              else
                (case expect_peek parser3 LBRACE of
                   (parser4, ok4) \<Rightarrow>
                     if \<not> ok4 then
                       (if condition = None \<or> free_expression_ptr condition
                        then returns parser4 None else Some (Inl Invalid_Pointer))
                     else
                       and_then (parse_block_statement ps n parser4)
                         (\<lambda>parser5 consequence.
                            if type (peek_tok parser5) = ELSE then
                              (case expect_peek (parser_next_token parser5) LBRACE of
                                 (parser6, ok6) \<Rightarrow>
                                   if \<not> ok6 then
                                     (if (condition = None \<or> free_expression_ptr condition) \<and>
                                         free_statement consequence
                                      then returns parser6 None
                                      else Some (Inl Invalid_Pointer))
                                   else
                                     and_then (parse_block_statement ps n parser6)
                                       (\<lambda>parser7 alternative.
                                          returns parser7
                                            (Some (IF_EXPRESSION (cur_tok p) condition
                                                     consequence (Some alternative)))))
                            else
                              returns parser5
                                (Some (IF_EXPRESSION (cur_tok p) condition
                                         consequence None)))))"
    if o2: "errors_ok p2" for p2 condition
  proof -
    obtain p3 ok3 where e3: "expect_peek p2 RPAREN = (p3, ok3)" by (cases "expect_peek p2 RPAREN")
    obtain p4 ok4 where e4: "expect_peek p3 LBRACE = (p4, ok4)" by (cases "expect_peek p3 LBRACE")
    have o3: "errors_ok p3" using o2 e3 by (rule errors_ok_expect_peek)
    have o4: "errors_ok p4" using o3 e4 by (rule errors_ok_expect_peek)
    have "keeps_errors_ok (and_then (parse_block_statement ps n p4)
                         (\<lambda>parser5 consequence.
                            if type (peek_tok parser5) = ELSE then
                              (case expect_peek (parser_next_token parser5) LBRACE of
                                 (parser6, ok6) \<Rightarrow>
                                   if \<not> ok6 then
                                     (if (condition = None \<or> free_expression_ptr condition) \<and>
                                         free_statement consequence
                                      then returns parser6 None
                                      else Some (Inl Invalid_Pointer))
                                   else
                                     and_then (parse_block_statement ps n parser6)
                                       (\<lambda>parser7 alternative.
                                          returns parser7
                                            (Some (IF_EXPRESSION (cur_tok p) condition
                                                     consequence (Some alternative)))))
                            else
                              returns parser5
                                (Some (IF_EXPRESSION (cur_tok p) condition
                                         consequence None))))"
      by (intro keeps_and_then keeps_block_statement ps o4 alt)
    then show ?thesis by (simp add: e3 e4 o3 o4)
  qed
  show ?thesis
  proof (cases ok1)
    case False
    then show ?thesis by (simp add: parse_if_expression_def e1 o1)
  next
    case True
    have "keeps_errors_ok (and_then (pe (parser_next_token p1) LOWEST)
              (\<lambda>parser2 condition.
                 case expect_peek parser2 RPAREN of
                   (parser3, ok3) \<Rightarrow>
                     if \<not> ok3 then
                       (if condition = None \<or> free_expression_ptr condition
                        then returns parser3 None else Some (Inl Invalid_Pointer))
                     else
                       (case expect_peek parser3 LBRACE of
                          (parser4, ok4) \<Rightarrow>
                            if \<not> ok4 then
                              (if condition = None \<or> free_expression_ptr condition
                               then returns parser4 None else Some (Inl Invalid_Pointer))
                            else
                              and_then (parse_block_statement ps n parser4)
                                (\<lambda>parser5 consequence.
                                   if type (peek_tok parser5) = ELSE then
                                     (case expect_peek (parser_next_token parser5) LBRACE of
                                        (parser6, ok6) \<Rightarrow>
                                          if \<not> ok6 then
                                            (if (condition = None \<or> free_expression_ptr condition) \<and>
                                                free_statement consequence
                                             then returns parser6 None
                                             else Some (Inl Invalid_Pointer))
                                          else
                                            and_then (parse_block_statement ps n parser6)
                                              (\<lambda>parser7 alternative.
                                                 returns parser7
                                                   (Some (IF_EXPRESSION (cur_tok p) condition
                                                            consequence (Some alternative)))))
                                   else
                                     returns parser5
                                       (Some (IF_EXPRESSION (cur_tok p) condition
                                                consequence None))))))"
      by (intro keeps_and_then pe body) (simp add: o1)
    then show ?thesis using True by (simp add: parse_if_expression_def e1)
  qed
qed

lemma keeps_knot:
  "(\<forall>p q. errors_ok p \<longrightarrow> keeps_errors_ok (parse_expression n p q)) \<and>
   (\<forall>p. errors_ok p \<longrightarrow> keeps_errors_ok (parser_parse_statement n p))"
proof (induction n)
  case 0
  then show ?case by simp
next
  case (Suc n)
  then have pe: "\<And>p q. errors_ok p \<Longrightarrow> keeps_errors_ok (parse_expression n p q)"
    and ps: "\<And>p. errors_ok p \<Longrightarrow> keeps_errors_ok (parser_parse_statement n p)"
    by auto
  have e: "keeps_errors_ok (parse_expression (Suc n) p q)" if ok: "errors_ok p" for p q
  proof (cases "prefix_fns (type (cur_tok p))")
    case None
    then show ?thesis using ok by (simp add: errors_ok_no_prefix)
  next
    case (Some prefix_fn)
    have "keeps_errors_ok
            (case prefix_fn of
               Parse_identifier_expression \<Rightarrow>
                 returns p (Some (parse_identifier_expression p))
             | Parse_integer_expression \<Rightarrow>
                 (case parse_integer_expression p of (parser1, e) \<Rightarrow> returns parser1 (Some e))
             | Parse_prefix_expression \<Rightarrow>
                 parse_prefix_expression (\<lambda>p q. parse_expression n p q) p
             | Parse_grouped_expression \<Rightarrow>
                 parse_grouped_expression (\<lambda>p q. parse_expression n p q) p
             | Parse_function_literal \<Rightarrow>
                 parse_function_literal (\<lambda>p. parser_parse_statement n p) n p
             | Parse_if_expression \<Rightarrow>
                 parse_if_expression (\<lambda>p q. parse_expression n p q)
                   (\<lambda>p. parser_parse_statement n p) n p
             | Parse_boolean_expression \<Rightarrow>
                 returns p (Some (parse_boolean_expression p)))"
    proof (cases prefix_fn)
      case Parse_integer_expression
      then show ?thesis using ok 
        by (auto split: prod.splits dest: errors_ok_integer)
    qed (simp_all add: ok keeps_prefix_expression keeps_grouped_expression keeps_function_literal
           keeps_if_expression pe ps)
    then have "keeps_errors_ok (and_then
            (case prefix_fn of
               Parse_identifier_expression \<Rightarrow>
                 returns p (Some (parse_identifier_expression p))
             | Parse_integer_expression \<Rightarrow>
                 (case parse_integer_expression p of (parser1, e) \<Rightarrow> returns parser1 (Some e))
             | Parse_prefix_expression \<Rightarrow>
                 parse_prefix_expression (\<lambda>p q. parse_expression n p q) p
             | Parse_grouped_expression \<Rightarrow>
                 parse_grouped_expression (\<lambda>p q. parse_expression n p q) p
             | Parse_function_literal \<Rightarrow>
                 parse_function_literal (\<lambda>p. parser_parse_statement n p) n p
             | Parse_if_expression \<Rightarrow>
                 parse_if_expression (\<lambda>p q. parse_expression n p q)
                   (\<lambda>p. parser_parse_statement n p) n p
             | Parse_boolean_expression \<Rightarrow>
                 returns p (Some (parse_boolean_expression p)))
            (\<lambda>parser1 left_exp.
               parse_expression_loop (\<lambda>p q. parse_expression n p q) n parser1 q left_exp))"
      by (intro keeps_and_then keeps_expression_loop pe)
    then show ?thesis using Some by simp
  qed
  have s: "keeps_errors_ok (parser_parse_statement (Suc n) p)" if ok: "errors_ok p" for p
    by (cases "type (cur_tok p)")
       (simp_all add: keeps_letstatement keeps_return_statement keeps_expression_statement pe ok)
  show ?case using e s by blast
qed

lemma keeps_program_loop:
  "errors_ok p \<Longrightarrow> keeps_errors_ok (parse_program_loop n p prog)"
proof (induction n arbitrary: p prog)
  case 0
  then show ?case by simp
next
  case (Suc n)
  have "keeps_errors_ok (and_then (parser_parse_statement n p)
          (\<lambda>parser1 stmt.
             parse_program_loop n (parser_next_token parser1)
               (case stmt of None \<Rightarrow> prog | Some s \<Rightarrow> prog @ [s])))"
    using keeps_knot[of n] Suc.prems by (intro keeps_and_then) (simp_all add: Suc.IH)
  then show ?case using Suc.prems by simp
qed

lemma errors_ok_init: "errors_ok (parser_init ts)"
  by (simp add: parser_init_def errors_ok_def split: prod.splits)

text \<open>
  Claim C6. The claim says that every message the parser records has one of the two forms
  of the specification. The parser has a third message, for an integer literal that
  \<open>strtol\<close> does not convert, and its message for a missing prefix parse function reads
  \<open>for the token\<close> with the literal between double quotes. With these three forms the claim
  holds: whatever the tokens and the bound, every message of the parser after \<open>parse_program\<close>
  has one of them.
\<close>

theorem parse_error_forms:
  "parse_program n (parser_init tokens) = Some (Inr (parser', program)) \<Longrightarrow>
   \<forall>m \<in> set (errors parser').
     (\<exists>X Y. m = ''expected next token to be '' @ X @ '', got '' @ Y @ '' instead'') \<or>
     (\<exists>Z. m = ''no prefix parse function for the token '' @ [CHR 0x22] @ Z @ [CHR 0x22]) \<or>
     (\<exists>L. m = ''could not parse '' @ L @ '' as integer'')"
proof -
  assume r: "parse_program n (parser_init tokens) = Some (Inr (parser', program))"
  have "keeps_errors_ok (parse_program n (parser_init tokens))"
    unfolding parse_program_def by (rule keeps_program_loop) (rule errors_ok_init)
  then have "errors_ok parser'" using r by (simp add: keeps_errors_ok_def)
  then show ?thesis
    by (simp add: errors_ok_def list_all_iff parse_error_form_def message_expected_def
        message_no_prefix_def message_integer_def)
qed

lemma strtol_big: "strtol ''99999999999999999999'' = (LONG_MAX, 20, True)"
  by (simp add: strtol_def is_space_char_def is_digit_char_def Let_def LONG_MAX_def LONG_MIN_def)

theorem parse_error_forms_witness:
  "parse_program 5 (parser_init
      [\<lparr>type = LET, literal = ''let''\<rparr>, \<lparr>type = INT', literal = ''99999999999999999999''\<rparr>,
       \<lparr>type = RBRACE, literal = ''}''\<rparr>]) =
    Some (Inr (\<lparr>lexer = [], cur_tok = \<lparr>type = END_OF_FILE, literal = []\<rparr>,
                peek_tok = \<lparr>type = END_OF_FILE, literal = []\<rparr>,
                errors = [''expected next token to be IDENT, got INT instead'',
                          ''could not parse 99999999999999999999 as integer'',
                          ''no prefix parse function for the token '' @ [CHR 0x22] @ ''}'' @ [CHR 0x22]]\<rparr>,
               [EXPRESSION_STATEMENT \<lparr>type = INT', literal = ''99999999999999999999''\<rparr>
                  (Some (INTEGER_EXPRESSION \<lparr>type = INT', literal = ''99999999999999999999''\<rparr> LONG_MAX)),
                EXPRESSION_STATEMENT \<lparr>type = RBRACE, literal = ''}''\<rparr> None])) \<and>
   (\<exists>X Y. ''expected next token to be IDENT, got INT instead'' =
           ''expected next token to be '' @ X @ '', got '' @ Y @ '' instead'')"
proof -
  let ?ts = "[\<lparr>type = LET, literal = ''let''\<rparr>, \<lparr>type = INT', literal = ''99999999999999999999''\<rparr>,
       \<lparr>type = RBRACE, literal = ''}''\<rparr>]"
  let ?p = "\<lparr>lexer = [], cur_tok = \<lparr>type = END_OF_FILE, literal = []\<rparr>,
                peek_tok = \<lparr>type = END_OF_FILE, literal = []\<rparr>,
                errors = [''expected next token to be IDENT, got INT instead'',
                          ''could not parse 99999999999999999999 as integer'',
                          ''no prefix parse function for the token '' @ [CHR 0x22] @ ''}'' @ [CHR 0x22]]\<rparr>"
  let ?prog = "[EXPRESSION_STATEMENT \<lparr>type = INT', literal = ''99999999999999999999''\<rparr>
                  (Some (INTEGER_EXPRESSION \<lparr>type = INT', literal = ''99999999999999999999''\<rparr> LONG_MAX)),
                EXPRESSION_STATEMENT \<lparr>type = RBRACE, literal = ''}''\<rparr> None]"
  have run: "parse_program 5 (parser_init ?ts) = Some (Inr (?p, ?prog))"
    by (simp add: parse_program_def parser_init_def lexer_next_token_def parser_next_token_def
        numeral_eq_Suc parse_expression_statement_def parse_letstatement_def expect_peek_def
        peek_error_def get_token_name_from_type_def parse_integer_expression_def strtol_big
        handle_no_prefix_fn_def add_parse_error_def returns_def peek_precedence_def)
  from parse_error_forms [OF run]
  have "(\<exists>X Y. ''expected next token to be IDENT, got INT instead'' =
           ''expected next token to be '' @ X @ '', got '' @ Y @ '' instead'') \<or>
     (\<exists>Z. ''expected next token to be IDENT, got INT instead'' =
           ''no prefix parse function for the token '' @ [CHR 0x22] @ Z @ [CHR 0x22]) \<or>
     (\<exists>L. ''expected next token to be IDENT, got INT instead'' = ''could not parse '' @ L @ '' as integer'')"
    by simp
  then have "\<exists>X Y. ''expected next token to be IDENT, got INT instead'' =
           ''expected next token to be '' @ X @ '', got '' @ Y @ '' instead''"
    by auto
  then show ?thesis using run by blast
qed

theorem parse_error_forms_counterexample:
  "parse_program 4 (parser_init [\<lparr>type = INT', literal = ''99999999999999999999''\<rparr>]) =
    Some (Inr (\<lparr>lexer = [], cur_tok = \<lparr>type = END_OF_FILE, literal = []\<rparr>,
                peek_tok = \<lparr>type = END_OF_FILE, literal = []\<rparr>,
                errors = [''could not parse 99999999999999999999 as integer'']\<rparr>,
               [EXPRESSION_STATEMENT \<lparr>type = INT', literal = ''99999999999999999999''\<rparr>
                  (Some (INTEGER_EXPRESSION \<lparr>type = INT', literal = ''99999999999999999999''\<rparr> LONG_MAX))])) \<and>
   \<not> message_expected ''could not parse 99999999999999999999 as integer'' \<and>
   \<not> message_no_prefix_spec ''could not parse 99999999999999999999 as integer''"
  by (simp add: parse_program_def parser_init_def lexer_next_token_def parser_next_token_def
        numeral_eq_Suc parse_expression_statement_def 
        parse_integer_expression_def strtol_big
        add_parse_error_def returns_def peek_precedence_def
        message_expected_def message_no_prefix_spec_def)

subsection \<open>Precedence climbing\<close>

lemma precedence_positive: "1 \<le> precedence_value q"
  by (cases q) simp_all

lemma infix_fns_defined: "1 < precedence_value (precedence t) \<Longrightarrow> infix_fns t \<noteq> None"
  by (cases t) simp_all

lemma parse_expression_loop_stop:
  "type (peek_tok p) = SEMICOLON \<or> precedence_value (precedence (type (peek_tok p))) \<le> precedence_value q \<Longrightarrow>
   parse_expression_loop pe (Suc n) p q left = returns p left"
  by (auto simp: peek_precedence_def)

lemma parse_expression_loop_continue:
  "type (peek_tok p) \<noteq> SEMICOLON \<Longrightarrow> precedence_value q < precedence_value (precedence (type (peek_tok p))) \<Longrightarrow>
   \<exists>infix_fn. infix_fns (type (peek_tok p)) = Some infix_fn \<and>
     parse_expression_loop pe (Suc n) p q left =
       and_then (case infix_fn of
                   Parse_infix_expression \<Rightarrow> parse_infix_expression pe (parser_next_token p) left
                 | Parse_call_expression \<Rightarrow> parse_call_expression pe n (parser_next_token p) left)
         (\<lambda>parser1 right. parse_expression_loop pe n parser1 q right)"
proof -
  assume a: "type (peek_tok p) \<noteq> SEMICOLON" "precedence_value q < precedence_value (precedence (type (peek_tok p)))"
  have "1 < precedence_value (precedence (type (peek_tok p)))"
    using a(2) precedence_positive[of q] by simp
  then obtain f where "infix_fns (type (peek_tok p)) = Some f"
    using infix_fns_defined by fastforce
  then show ?thesis using a by (simp add: peek_precedence_def)
qed

lemma integer_string_decimal:
  "LONG_MIN < v \<Longrightarrow> v \<le> LONG_MAX \<Longrightarrow> integer_string junk v = result (decimal_repr v)"
proof -
  assume r: "LONG_MIN < v" "v \<le> LONG_MAX"
  have nn: "\<forall>c \<in> set (decimal_repr v). c \<noteq> CHR 0x00"
    using decimal_digits_all_digits is_digit_char_not_nul
    by (auto simp: decimal_repr_def)
  have "c_str (decimal_repr v @ [CHR 0x00, junk (length (decimal_repr v) + 1)]) = decimal_repr v"
    using c_str_terminated[OF nn] by simp
  then show ?thesis
    using long_to_string_block[OF r, of junk] by (simp add: integer_string_def)
qed

lemma decimal_repr_digit: "0 \<le> v \<Longrightarrow> v < 10 \<Longrightarrow> decimal_repr v = [digit_char (nat v)]"
  by (simp add: decimal_repr_def decimal_digits.simps)

lemma digit_char_values:
  "digit_char 0 = CHR ''0''" "digit_char 1 = CHR ''1''" "digit_char (Suc 0) = CHR ''1''"
  "digit_char 2 = CHR ''2''"
  "digit_char 3 = CHR ''3''" "digit_char 4 = CHR ''4''" "digit_char 5 = CHR ''5''"
  "digit_char 6 = CHR ''6''" "digit_char 7 = CHR ''7''" "digit_char 8 = CHR ''8''"
  "digit_char 9 = CHR ''9''"
  by (simp_all add: digit_char_def char_of_eq_iff)

lemma result_bind_simps [simp]:
  "result_bind None f = None"
  "result_bind (Some (Inl e)) f = Some (Inl e)"
  "result_bind (Some (Inr x)) f = f x"
  "result_bind (result x) f = f x"
  by (simp_all add: result_bind_def result_def)

lemma strtol_digit:
  "strtol ''1'' = (1, 1, False)" "strtol ''2'' = (2, 1, False)" "strtol ''3'' = (3, 1, False)"
  by (simp_all add: strtol_def is_space_char_def is_digit_char_def Let_def LONG_MAX_def LONG_MIN_def)

lemma example_parse:
  "parse_program 6 (parser_init
        [\<lparr>type = INT', literal = ''1''\<rparr>, \<lparr>type = PLUS, literal = ''+''\<rparr>,
         \<lparr>type = INT', literal = ''2''\<rparr>, \<lparr>type = ASTERISK, literal = ''*''\<rparr>,
         \<lparr>type = INT', literal = ''3''\<rparr>]) =
      returns \<lparr>lexer = [], cur_tok = \<lparr>type = END_OF_FILE, literal = []\<rparr>,
               peek_tok = \<lparr>type = END_OF_FILE, literal = []\<rparr>, errors = []\<rparr>
        [EXPRESSION_STATEMENT \<lparr>type = INT', literal = ''1''\<rparr>
           (Some (INFIX_EXPRESSION \<lparr>type = PLUS, literal = ''+''\<rparr> ''+''
              (Some (INTEGER_EXPRESSION \<lparr>type = INT', literal = ''1''\<rparr> 1))
              (Some (INFIX_EXPRESSION \<lparr>type = ASTERISK, literal = ''*''\<rparr> ''*''
                 (Some (INTEGER_EXPRESSION \<lparr>type = INT', literal = ''2''\<rparr> 2))
                 (Some (INTEGER_EXPRESSION \<lparr>type = INT', literal = ''3''\<rparr> 3))))))]"
  by (simp add: parse_program_def parser_init_def lexer_next_token_def parser_next_token_def
        numeral_eq_Suc parse_expression_statement_def parse_infix_expression_def
        parse_integer_expression_def strtol_digit cur_precedence_def
        returns_def peek_precedence_def)

lemma example_string:
  "program_string junk n
        [EXPRESSION_STATEMENT \<lparr>type = INT', literal = ''1''\<rparr>
           (Some (INFIX_EXPRESSION \<lparr>type = PLUS, literal = ''+''\<rparr> ''+''
              (Some (INTEGER_EXPRESSION \<lparr>type = INT', literal = ''1''\<rparr> 1))
              (Some (INFIX_EXPRESSION \<lparr>type = ASTERISK, literal = ''*''\<rparr> ''*''
                 (Some (INTEGER_EXPRESSION \<lparr>type = INT', literal = ''2''\<rparr> 2))
                 (Some (INTEGER_EXPRESSION \<lparr>type = INT', literal = ''3''\<rparr> 3))))))]
     = result (Some ''(1 + (2 * 3))'')"
proof -
  have i: "integer_string junk 1 = result ''1''" "integer_string junk 2 = result ''2''"
      "integer_string junk 3 = result ''3''"
    by (simp_all add: integer_string_decimal LONG_MIN_def LONG_MAX_def decimal_repr_digit
          digit_char_values)
  show ?thesis
    by (simp add: program_string_def i percent_s_def)
qed

lemma expression_induct [case_names IDENTIFIER INTEGER PREFIX INFIX BOOLEAN IF FUNCTION CALL]:
  assumes "\<And>tok v. P (IDENTIFIER_EXPRESSION tok v)"
    and "\<And>tok v. P (INTEGER_EXPRESSION tok v)"
    and "\<And>tok operator right. (\<And>r. right = Some r \<Longrightarrow> P r) \<Longrightarrow> P (PREFIX_EXPRESSION tok operator right)"
    and "\<And>tok operator left right. (\<And>l. left = Some l \<Longrightarrow> P l) \<Longrightarrow> (\<And>r. right = Some r \<Longrightarrow> P r) \<Longrightarrow>
           P (INFIX_EXPRESSION tok operator left right)"
    and "\<And>tok v. P (BOOLEAN_EXPRESSION tok v)"
    and "\<And>tok c s a. P (IF_EXPRESSION tok c s a)"
    and "\<And>tok ps b. P (FUNCTION_LITERAL tok ps b)"
    and "\<And>tok function arguments. (\<And>f. function = Some f \<Longrightarrow> P f) \<Longrightarrow>
           (\<And>x. Some x \<in> set arguments \<Longrightarrow> P x) \<Longrightarrow> P (CALL_EXPRESSION tok function arguments)"
  shows "P e"
  by (rule expression.induct[of P "\<lambda>_. True"]) (auto intro: assms)

lemma next_at:
  "type t \<noteq> END_OF_FILE \<Longrightarrow> parser_next_token (parser_at (t # ts) errs) = parser_at ts errs"
  by (simp add: parser_at_def parser_next_token_def lexer_next_token_def split: prod.splits list.splits)

lemma cur_at [simp]: "cur_tok (parser_at (t # ts) errs) = t"
  by (simp add: parser_at_def lexer_next_token_def split: prod.splits list.splits)

lemma peek_at [simp]:
  "type t \<noteq> END_OF_FILE \<Longrightarrow> peek_tok (parser_at (t # ts) errs) = fst (lexer_next_token ts)"
  by (simp add: parser_at_def lexer_next_token_def split: prod.splits list.splits)

lemma errors_at [simp]: "errors (parser_at ts errs) = errs"
  by (simp add: parser_at_def split: prod.splits)

lemma init_at: "parser_init l = parser_at l []"
  by (simp add: parser_init_def parser_at_def parser_next_token_def split: prod.splits)

lemma first_token [simp]: "type t \<noteq> END_OF_FILE \<Longrightarrow> fst (lexer_next_token (t # ts)) = t"
  by (simp add: lexer_next_token_def)

lemma outcome_atom:
  assumes "\<And>n. parse_expression (Suc n) p q =
              parse_expression_loop (\<lambda>p q. parse_expression n p q) n p q left"
    and "loop_outcome p q left r"
  shows "expression_outcome p q r"
proof -
  obtain n0 where n0: "\<forall>n \<ge> n0. \<forall>k \<ge> n0.
      parse_expression_loop (\<lambda>p q. parse_expression n p q) k p q left = r"
    using assms(2) by (auto simp: loop_outcome_def)
  have "\<forall>n \<ge> Suc n0. parse_expression n p q = r"
  proof (intro allI impI)
    fix n assume "Suc n0 \<le> n"
    then obtain m where m: "n = Suc m" "n0 \<le> m" by (cases n) auto
    show "parse_expression n p q = r" using assms(1)[of m] n0 m by simp
  qed
  then show ?thesis unfolding expression_outcome_def by blast
qed

lemma outcome_identifier:
  "type (cur_tok p) = IDENT \<Longrightarrow>
   loop_outcome p q (Some (IDENTIFIER_EXPRESSION (cur_tok p) (literal (cur_tok p)))) r \<Longrightarrow>
   expression_outcome p q r"
  by (rule outcome_atom) (simp_all add: parse_identifier_expression_def)

lemma outcome_boolean:
  "type (cur_tok p) = TRUE \<or> type (cur_tok p) = FALSE \<Longrightarrow>
   loop_outcome p q (Some (BOOLEAN_EXPRESSION (cur_tok p) (type (cur_tok p) = TRUE))) r \<Longrightarrow>
   expression_outcome p q r"
  by (rule outcome_atom) (auto simp add: parse_boolean_expression_def)

lemma outcome_integer:
  "type (cur_tok p) = INT' \<Longrightarrow> literal (cur_tok p) \<noteq> [] \<Longrightarrow>
   strtol (literal (cur_tok p)) = (v, length (literal (cur_tok p)), False) \<Longrightarrow>
   loop_outcome p q (Some (INTEGER_EXPRESSION (cur_tok p) v)) r \<Longrightarrow>
   expression_outcome p q r"
  by (rule outcome_atom) (simp_all add: parse_integer_expression_def)

lemma outcome_prefix:
  assumes "type (cur_tok p) = MINUS \<or> type (cur_tok p) = BANG"
    and "expression_outcome (parser_next_token p) PREFIX (returns p1 right)"
    and "loop_outcome p1 q (Some (PREFIX_EXPRESSION (cur_tok p) (literal (cur_tok p)) right)) r"
  shows "expression_outcome p q r"
proof -
  obtain n1 where n1: "\<forall>n \<ge> n1. parse_expression n (parser_next_token p) PREFIX = returns p1 right"
    using assms(2) by (auto simp: expression_outcome_def)
  obtain n2 where n2: "\<forall>n \<ge> n2. \<forall>k \<ge> n2.
      parse_expression_loop (\<lambda>p q. parse_expression n p q) k p1 q
        (Some (PREFIX_EXPRESSION (cur_tok p) (literal (cur_tok p)) right)) = r"
    using assms(3) by (auto simp: loop_outcome_def)
  have "\<forall>n \<ge> Suc (max n1 n2). parse_expression n p q = r"
  proof (intro allI impI)
    fix n assume "Suc (max n1 n2) \<le> n"
    then obtain m where m: "n = Suc m" "n1 \<le> m" "n2 \<le> m" by (cases n) auto
    show "parse_expression n p q = r"
      using assms(1) n1 n2 m by (auto simp: parse_prefix_expression_def)
  qed
  then show ?thesis unfolding expression_outcome_def by blast
qed

lemma loop_stop:
  "precedence_value (precedence (type (peek_tok p))) \<le> precedence_value q \<Longrightarrow>
   loop_outcome p q left (returns p left)"
  unfolding loop_outcome_def
proof (intro exI[of _ 1] allI impI)
  fix n k :: nat assume a: "precedence_value (precedence (type (peek_tok p))) \<le> precedence_value q" "1 \<le> k"
  then obtain k' where "k = Suc k'" by (cases k) auto
  then show "parse_expression_loop (\<lambda>p q. parse_expression n p q) k p q left = returns p left"
    using a by (simp add: peek_precedence_def)
qed

lemma loop_infix:
  assumes "type (peek_tok p) \<in> set binary_operators"
    and "precedence_value q < precedence_value (precedence (type (peek_tok p)))"
    and "expression_outcome (parser_next_token (parser_next_token p))
           (precedence (type (peek_tok p))) (returns p1 right)"
    and "loop_outcome p1 q
           (Some (INFIX_EXPRESSION (peek_tok p) (literal (peek_tok p)) left right)) r"
  shows "loop_outcome p q left r"
proof -
  obtain n1 where n1: "\<forall>n \<ge> n1. parse_expression n (parser_next_token (parser_next_token p))
           (precedence (type (peek_tok p))) = returns p1 right"
    using assms(3) by (auto simp: expression_outcome_def)
  obtain n2 where n2: "\<forall>n \<ge> n2. \<forall>k \<ge> n2.
      parse_expression_loop (\<lambda>p q. parse_expression n p q) k p1 q
        (Some (INFIX_EXPRESSION (peek_tok p) (literal (peek_tok p)) left right)) = r"
    using assms(4) by (auto simp: loop_outcome_def)
  have f: "infix_fns (type (peek_tok p)) = Some Parse_infix_expression" "type (peek_tok p) \<noteq> SEMICOLON"
    using assms(1) by (auto simp: binary_operators_def)
  have "\<forall>n \<ge> Suc (max n1 n2). \<forall>k \<ge> Suc (max n1 n2).
      parse_expression_loop (\<lambda>p q. parse_expression n p q) k p q left = r"
  proof (intro allI impI)
    fix n k assume a: "Suc (max n1 n2) \<le> n" "Suc (max n1 n2) \<le> k"
    then obtain k' where k: "k = Suc k'" "n2 \<le> k'" by (cases k) auto
    have n: "n1 \<le> n" "n2 \<le> n" using a by auto
    show "parse_expression_loop (\<lambda>p q. parse_expression n p q) k p q left = r"
      using assms(2) f n1 n2 k n
      by (simp add: peek_precedence_def parse_infix_expression_def cur_precedence_def)
  qed
  then show ?thesis unfolding loop_outcome_def by blast
qed

lemma binary_level: "type t \<in> set binary_operators \<Longrightarrow> 2 \<le> level t \<and> level t \<le> 5"
  by (auto simp: binary_operators_def level_def)

lemma binary_not_eof: "type t \<in> set binary_operators \<Longrightarrow> type t \<noteq> END_OF_FILE"
  by (auto simp: binary_operators_def)

lemma separated_Cons: "separated (ts # tss) = ts @ concat (map (\<lambda>x. comma_token # x) tss)"
  by (induction tss arbitrary: ts) simp_all

lemma tokens_not_eof:
  "operator_expression e \<Longrightarrow> list_all (\<lambda>t. type t \<noteq> END_OF_FILE) (tokens_of e)"
proof (induction e rule: expression_induct)
  case (CALL tok callee arguments)
  then obtain f where f: "callee = Some f" "operator_expression f"
    by (cases callee) auto
  have a: "\<And>a. a \<in> set arguments \<Longrightarrow>
      list_all (\<lambda>t. type t \<noteq> END_OF_FILE) (case a of Some x \<Rightarrow> tokens_of x | None \<Rightarrow> [])"
    using CALL by (auto simp: list_all_iff split: option.splits)
  have "list_all (\<lambda>t. type t \<noteq> END_OF_FILE)
      (separated (map (\<lambda>a. case a of Some x \<Rightarrow> tokens_of x | None \<Rightarrow> []) arguments))"
    using a
  proof (induction arguments)
    case Nil then show ?case by simp
  next
    case (Cons a as)
    then show ?case
      by (cases as) (auto simp: comma_token_def)
  qed
  then show ?case using CALL(1)[OF f(1)] f by (simp add: lparen_token_def rparen_token_def)
qed (auto simp: unary_operators_def binary_operators_def split: option.splits)

lemma tokens_nonempty: "operator_expression e \<Longrightarrow> tokens_of e \<noteq> []"
  by (cases e) (auto split: option.splits)

lemma last_not_eof: "operator_expression e \<Longrightarrow> type (last (tokens_of e)) \<noteq> END_OF_FILE"
  using tokens_not_eof[of e] tokens_nonempty[of e] by (auto simp: list_all_iff)

lemma operators_binary:
  "operator_expression e \<Longrightarrow> list_all (\<lambda>t. type t \<in> set binary_operators) (operators_of e)"
  by (induction e rule: expression_induct) (auto split: option.splits)

lemma operand_operators: "is_operand e \<Longrightarrow> operators_of e = []"
  by (cases e) auto

lemma primary_operand: "is_primary e \<Longrightarrow> is_operand e"
  by (cases e) auto

lemma primary_closing: "is_primary e \<Longrightarrow> closing_level e = precedence_value INDEX"
  by (cases e) auto

lemma closing_level_ge:
  "operator_expression e \<Longrightarrow> binds_tighter e \<Longrightarrow> v \<le> 6 \<Longrightarrow>
   list_all (\<lambda>t. v \<le> level t) (operators_of e) \<Longrightarrow> v \<le> closing_level e"
proof (induction e rule: expression_induct)
  case (PREFIX tok operator right)
  then show ?case by (auto split: option.splits simp: operand_operators)
next
  case (INFIX tok operator left right)
  then show ?case by (auto split: option.splits)
qed auto


lemma loop_call:
  assumes "type (peek_tok p) = LPAREN"
    and "precedence_value q < precedence_value CALL"
    and "arguments_outcome (parser_next_token p) (returns p1 (Some args))"
    and "loop_outcome p1 q (Some (CALL_EXPRESSION (peek_tok (parser_next_token p)) left args)) r"
  shows "loop_outcome p q left r"
proof -
  obtain n1 where n1: "\<forall>n \<ge> n1. \<forall>k \<ge> n1.
      parse_call_arguments (\<lambda>p q. parse_expression n p q) k (parser_next_token p) =
        returns p1 (Some args)"
    using assms(3) by (auto simp: arguments_outcome_def)
  obtain n2 where n2: "\<forall>n \<ge> n2. \<forall>k \<ge> n2.
      parse_expression_loop (\<lambda>p q. parse_expression n p q) k p1 q
        (Some (CALL_EXPRESSION (peek_tok (parser_next_token p)) left args)) = r"
    using assms(4) by (auto simp: loop_outcome_def)
  have "\<forall>n \<ge> Suc (max n1 n2). \<forall>k \<ge> Suc (max n1 n2).
      parse_expression_loop (\<lambda>p q. parse_expression n p q) k p q left = r"
  proof (intro allI impI)
    fix n k assume a: "Suc (max n1 n2) \<le> n" "Suc (max n1 n2) \<le> k"
    then obtain k' where k: "k = Suc k'" "n2 \<le> k'" "n1 \<le> k'" by (cases k) auto
    have n: "n1 \<le> n" "n2 \<le> n" using a by auto
    show "parse_expression_loop (\<lambda>p q. parse_expression n p q) k p q left = r"
      using assms(1,2) n1 n2 k n
      by (simp add: peek_precedence_def parse_call_expression_def)
  qed
  then show ?thesis unfolding loop_outcome_def by blast
qed

lemma arguments_none:
  "type (peek_tok p) = RPAREN \<Longrightarrow> arguments_outcome p (returns (parser_next_token p) (Some []))"
  by (simp add: arguments_outcome_def parse_call_arguments_def)

lemma arguments_some:
  assumes "type (peek_tok p) \<noteq> RPAREN"
    and "expression_outcome (parser_next_token p) LOWEST (returns p1 a)"
    and "arguments_loop_outcome p1 [a] (returns p2 args)"
    and "type (peek_tok p2) = RPAREN"
  shows "arguments_outcome p (returns (parser_next_token p2) (Some args))"
proof -
  obtain n1 where n1: "\<forall>n \<ge> n1. parse_expression n (parser_next_token p) LOWEST = returns p1 a"
    using assms(2) by (auto simp: expression_outcome_def)
  obtain n2 where n2: "\<forall>n \<ge> n2. \<forall>k \<ge> n2.
      parse_call_arguments_loop (\<lambda>p q. parse_expression n p q) k p1 [a] = returns p2 args"
    using assms(3) by (auto simp: arguments_loop_outcome_def)
  have "\<forall>n \<ge> max n1 n2. \<forall>k \<ge> max n1 n2.
      parse_call_arguments (\<lambda>p q. parse_expression n p q) k p =
        returns (parser_next_token p2) (Some args)"
    using assms(1,4) n1 n2 by (simp add: parse_call_arguments_def expect_peek_def)
  then show ?thesis unfolding arguments_outcome_def by blast
qed

lemma arguments_loop_stop:
  "type (peek_tok p) \<noteq> COMMA \<Longrightarrow> arguments_loop_outcome p acc (returns p acc)"
  unfolding arguments_loop_outcome_def
proof (intro exI[of _ 1] allI impI)
  fix n k :: nat assume a: "type (peek_tok p) \<noteq> COMMA" "1 \<le> k"
  then obtain k' where "k = Suc k'" by (cases k) auto
  then show "parse_call_arguments_loop (\<lambda>p q. parse_expression n p q) k p acc = returns p acc"
    using a by simp
qed

lemma arguments_loop_step:
  assumes "type (peek_tok p) = COMMA"
    and "expression_outcome (parser_next_token (parser_next_token p)) LOWEST (returns p1 a)"
    and "arguments_loop_outcome p1 (acc @ [a]) r"
  shows "arguments_loop_outcome p acc r"
proof -
  obtain n1 where n1: "\<forall>n \<ge> n1.
      parse_expression n (parser_next_token (parser_next_token p)) LOWEST = returns p1 a"
    using assms(2) by (auto simp: expression_outcome_def)
  obtain n2 where n2: "\<forall>n \<ge> n2. \<forall>k \<ge> n2.
      parse_call_arguments_loop (\<lambda>p q. parse_expression n p q) k p1 (acc @ [a]) = r"
    using assms(3) by (auto simp: arguments_loop_outcome_def)
  have "\<forall>n \<ge> Suc (max n1 n2). \<forall>k \<ge> Suc (max n1 n2).
      parse_call_arguments_loop (\<lambda>p q. parse_expression n p q) k p acc = r"
  proof (intro allI impI)
    fix n k assume a: "Suc (max n1 n2) \<le> n" "Suc (max n1 n2) \<le> k"
    then obtain k' where k: "k = Suc k'" "n2 \<le> k'" by (cases k) auto
    have n: "n1 \<le> n" "n2 \<le> n" using a by auto
    show "parse_call_arguments_loop (\<lambda>p q. parse_expression n p q) k p acc = r"
      using assms(1) n1 n2 k n by simp
  qed
  then show ?thesis unfolding arguments_loop_outcome_def by blast
qed

lemma first_token_kind:
  "operator_expression e \<Longrightarrow>
   type (hd (tokens_of e)) \<in> {IDENT, INT', TRUE, FALSE, MINUS, BANG}"
proof (induction e rule: expression_induct)
  case (INFIX tok operator left right)
  then obtain l where l: "left = Some l" "operator_expression l" by (cases left) auto
  show ?case using INFIX.IH(1)[OF l] l tokens_nonempty[OF l(2)] by simp
next
  case (CALL tok callee arguments)
  then obtain f where f: "callee = Some f" "operator_expression f" by (cases callee) auto
  show ?case using CALL.IH(1)[OF f] f tokens_nonempty[OF f(2)] by simp
qed (auto simp: unary_operators_def)

lemma closing_level_pos: "1 \<le> closing_level e"
proof (induction e rule: expression_induct)
  case (PREFIX tok operator right)
  then show ?case by (cases right) auto
next
  case (INFIX tok operator left right)
  then show ?case using precedence_positive[of "precedence (type tok)"]
    by (cases right) (auto simp: level_def)
qed auto


lemma separated_not_eof:
  assumes "\<And>a. a \<in> set as \<Longrightarrow> \<exists>x. a = Some x \<and> operator_expression x"
  shows "list_all (\<lambda>t. type t \<noteq> END_OF_FILE)
           (concat (map (\<lambda>a. comma_token # argument_tokens a) as))"
  using assms
proof (induction as)
  case Nil then show ?case by simp
next
  case (Cons a as)
  obtain x where x: "a = Some x" "operator_expression x" using Cons.prems[of a] by auto
  show ?case using Cons.IH Cons.prems tokens_not_eof[OF x(2)] x
    by (simp add: comma_token_def argument_tokens_def)
qed

lemma arguments_loop_list:
  assumes "\<And>x rest'. Some x \<in> set args \<Longrightarrow>
             precedence (type (fst (lexer_next_token rest'))) = LOWEST \<Longrightarrow>
             expression_outcome (parser_at (tokens_of x @ rest') errs) LOWEST
               (returns (parser_at (last (tokens_of x) # rest') errs) (Some x))"
    and "\<And>a. a \<in> set args \<Longrightarrow> \<exists>x. a = Some x \<and> operator_expression x"
    and "type lst \<noteq> END_OF_FILE"
  shows "arguments_loop_outcome
           (parser_at (lst # concat (map (\<lambda>a. comma_token # argument_tokens a) args) @
              rparen_token # rest) errs) acc
           (returns (parser_at (last (lst # concat (map (\<lambda>a. comma_token # argument_tokens a) args)) #
              rparen_token # rest) errs) (acc @ args))"
  using assms
proof (induction args arbitrary: lst acc)
  case Nil
  show ?case using Nil(3) by (auto intro!: arguments_loop_stop simp: rparen_token_def)
next
  case (Cons a args)
  obtain x where x: "a = Some x" "operator_expression x" using Cons.prems(2)[of a] by auto
  let ?tail = "concat (map (\<lambda>a. comma_token # argument_tokens a) args) @ rparen_token # rest"
  let ?p = "parser_at (lst # comma_token # tokens_of x @ ?tail) errs"
  let ?p1 = "parser_at (last (tokens_of x) # ?tail) errs"
  have c: "type comma_token = COMMA" "type comma_token \<noteq> END_OF_FILE" by (simp_all add: comma_token_def)
  have stop: "precedence (type (fst (lexer_next_token ?tail))) = LOWEST"
    by (cases args) (simp_all add: comma_token_def rparen_token_def lexer_next_token_def)
  have inner: "expression_outcome (parser_at (tokens_of x @ ?tail) errs) LOWEST (returns ?p1 (Some x))"
    using Cons.prems(1)[of x ?tail] x stop by simp
  have ih: "arguments_loop_outcome ?p1 (acc @ [Some x])
      (returns (parser_at (last (last (tokens_of x) # concat (map (\<lambda>a. comma_token # argument_tokens a) args)) #
              rparen_token # rest) errs) ((acc @ [Some x]) @ args))"
    using Cons.IH[of "last (tokens_of x)" "acc @ [Some x]"] Cons.prems(1,2) last_not_eof[OF x(2)]
    by simp
  have l: "last (lst # concat (map (\<lambda>a. comma_token # argument_tokens a) (a # args))) =
      last (last (tokens_of x) # concat (map (\<lambda>a. comma_token # argument_tokens a) args))"
    using x tokens_nonempty[OF x(2)] by (simp add: argument_tokens_def)
  have "arguments_loop_outcome ?p acc
      (returns (parser_at (last (last (tokens_of x) # concat (map (\<lambda>a. comma_token # argument_tokens a) args)) #
              rparen_token # rest) errs) ((acc @ [Some x]) @ args))"
    using arguments_loop_step[of ?p ?p1 "Some x" acc] inner ih Cons.prems(3) c
    by (simp add: next_at)
  then show ?case unfolding l using x by (simp add: argument_tokens_def)
qed

lemma parse_operator_expression:
  assumes "operator_expression e" "binds_tighter e"
    and "list_all (\<lambda>t. precedence_value q < level t) (operators_of e)"
    and "precedence_value q < precedence_value CALL"
    and "precedence_value (precedence (type (fst (lexer_next_token rest)))) \<le> closing_level e"
    and "loop_outcome (parser_at (last (tokens_of e) # rest) errs) q (Some e) R"
  shows "expression_outcome (parser_at (tokens_of e @ rest) errs) q R"
  using assms
proof (induction e arbitrary: q rest R rule: expression_induct)
  case (IDENTIFIER tok v)
  then show ?case by (auto intro: outcome_identifier)
next
  case (INTEGER tok v)
  then show ?case by (auto intro: outcome_integer)
next
  case (BOOLEAN tok v)
  then show ?case by (auto intro!: outcome_boolean)
next
  case (PREFIX tok operator right)
  then obtain x where x: "right = Some x" "operator_expression x" "is_operand x" "binds_tighter x"
      and t: "type tok = MINUS \<or> type tok = BANG" "operator = literal tok"
    by (cases right) (auto simp: unary_operators_def)
  let ?after = "parser_at (last (tokens_of x) # rest) errs"
  have ne: "type tok \<noteq> END_OF_FILE" using t by auto
  have nx: "type (last (tokens_of x)) \<noteq> END_OF_FILE" using last_not_eof[OF x(2)] .
  have cl: "precedence_value (precedence (type (fst (lexer_next_token rest)))) \<le> closing_level x"
      "precedence_value (precedence (type (fst (lexer_next_token rest)))) \<le> precedence_value PREFIX"
    using PREFIX.prems(5) x(1) by auto
  have stop: "loop_outcome ?after PREFIX (Some x) (returns ?after (Some x))"
    using cl(2) nx by (intro loop_stop) simp
  have inner: "expression_outcome (parser_at (tokens_of x @ rest) errs) PREFIX (returns ?after (Some x))"
    using PREFIX.IH[OF x(1) x(2) x(4) _ _ cl(1) stop] by (simp add: operand_operators[OF x(3)])
  have outer: "loop_outcome ?after q (Some (PREFIX_EXPRESSION tok (literal tok) (Some x))) R"
    using PREFIX.prems(6) x(1) t(2) tokens_nonempty[OF x(2)] by simp
  show ?case
    using outcome_prefix[of "parser_at (tok # tokens_of x @ rest) errs" ?after "Some x" q R]
      t inner outer x(1) by (simp add: next_at[OF ne])
next
  case (INFIX tok operator left right)
  then obtain l r where l: "left = Some l" "operator_expression l" "binds_tighter l"
        "list_all (\<lambda>t. level tok \<le> level t) (operators_of l)"
      and r: "right = Some r" "operator_expression r" "binds_tighter r"
        "list_all (\<lambda>t. level tok < level t) (operators_of r)"
      and t: "type tok \<in> set binary_operators" "operator = literal tok"
    by (cases left; cases right) auto
  let ?rest = "tok # tokens_of r @ rest"
  let ?mid = "parser_at (last (tokens_of l) # ?rest) errs"
  let ?after = "parser_at (last (tokens_of r) # rest) errs"
  have ne: "type tok \<noteq> END_OF_FILE" using binary_not_eof[OF t(1)] .
  have nl: "type (last (tokens_of l)) \<noteq> END_OF_FILE" using last_not_eof[OF l(2)] .
  have nr: "type (last (tokens_of r)) \<noteq> END_OF_FILE" using last_not_eof[OF r(2)] .
  have lv: "2 \<le> level tok" "level tok \<le> 5" using binary_level[OF t(1)] by auto
  have cl: "precedence_value (precedence (type (fst (lexer_next_token rest)))) \<le> closing_level r"
      "precedence_value (precedence (type (fst (lexer_next_token rest)))) \<le> level tok"
    using INFIX.prems(5) r(1) by auto
  have q: "precedence_value q < level tok"
      "list_all (\<lambda>t. precedence_value q < level t) (operators_of l)"
    using INFIX.prems(3) l(1) r(1) by auto
  have stop: "loop_outcome ?after (precedence (type tok)) (Some r) (returns ?after (Some r))"
    using cl(2) nr by (intro loop_stop) (simp add: level_def)
  have inner: "expression_outcome (parser_at (tokens_of r @ rest) errs) (precedence (type tok))
      (returns ?after (Some r))"
    using INFIX.IH(2)[OF r(1) r(2) r(3) _ _ cl(1) stop] r(4) lv by (simp add: level_def)
  have outer: "loop_outcome ?after q (Some (INFIX_EXPRESSION tok (literal tok) (Some l) (Some r))) R"
    using INFIX.prems(6) l(1) r(1) t(2) tokens_nonempty[OF r(2)] by simp
  have mid: "loop_outcome ?mid q (Some l) R"
    using loop_infix[of ?mid q ?after "Some r" "Some l" R] t(1) q(1) inner outer nl ne
    by (simp add: next_at level_def)
  have cll: "precedence_value (precedence (type (fst (lexer_next_token ?rest)))) \<le> closing_level l"
    using closing_level_ge[OF l(2) l(3) _ l(4)] lv ne by (simp add: level_def)
  show ?case
    using INFIX.IH(1)[OF l(1) l(2) l(3) q(2) INFIX.prems(4) cll mid] l(1) r(1) by simp
next
  case (CALL tok callee arguments)
  then obtain f where f: "callee = Some f" "operator_expression f" "binds_tighter f" "is_primary f"
    by (cases callee) auto
  have args: "\<And>a. a \<in> set arguments \<Longrightarrow> \<exists>x. a = Some x \<and> operator_expression x \<and> binds_tighter x"
    using CALL.prems(1,2) by (auto simp: list_all_iff split: option.splits)
  let ?argtoks = "separated (map (\<lambda>a. case a of Some x \<Rightarrow> tokens_of x | None \<Rightarrow> []) arguments)"
  have tok: "tok = hd (?argtoks @ [rparen_token])" using CALL.prems(1) by simp
  let ?rest = "lparen_token # ?argtoks @ rparen_token # rest"
  let ?p = "parser_at (last (tokens_of f) # ?rest) errs"
  let ?pc = "parser_at (?argtoks @ rparen_token # rest) errs"
  let ?after = "parser_at (rparen_token # rest) errs"
  have lp: "type lparen_token = LPAREN" "type lparen_token \<noteq> END_OF_FILE"
      "type rparen_token = RPAREN" "type rparen_token \<noteq> END_OF_FILE"
    by (simp_all add: lparen_token_def rparen_token_def)
  have nf: "type (last (tokens_of f)) \<noteq> END_OF_FILE" using last_not_eof[OF f(2)] .
  have each: "expression_outcome (parser_at (tokens_of x @ rest') errs) LOWEST
               (returns (parser_at (last (tokens_of x) # rest') errs) (Some x))"
    if "Some x \<in> set arguments" "precedence (type (fst (lexer_next_token rest'))) = LOWEST"
    for x rest'
  proof -
    have x: "operator_expression x" "binds_tighter x" using args[OF that(1)] by auto
    have o: "list_all (\<lambda>t. precedence_value LOWEST < level t) (operators_of x)"
      using operators_binary[OF x(1)] binary_level by (fastforce simp: list_all_iff)
    have c: "precedence_value (precedence (type (fst (lexer_next_token rest')))) \<le> closing_level x"
      using that(2) closing_level_pos[of x] by simp
    have s: "loop_outcome (parser_at (last (tokens_of x) # rest') errs) LOWEST (Some x)
        (returns (parser_at (last (tokens_of x) # rest') errs) (Some x))"
      using that(2) last_not_eof[OF x(1)] by (intro loop_stop) simp
    show ?thesis using CALL.IH(2)[OF that(1) x o _ c s] by simp
  qed
  have first: "fst (lexer_next_token (?argtoks @ rparen_token # rest)) = hd (?argtoks @ [rparen_token])"
      "arguments_outcome (parser_at ?rest errs) (returns ?after (Some arguments))"
  proof -
    show "fst (lexer_next_token (?argtoks @ rparen_token # rest)) = hd (?argtoks @ [rparen_token])"
    proof (cases arguments)
      case Nil then show ?thesis using lp by simp
    next
      case (Cons a as)
      then obtain x where x: "a = Some x" "operator_expression x" using args[of a] by auto
      have "type (hd (tokens_of x)) \<noteq> END_OF_FILE" using first_token_kind[OF x(2)] by auto
      then show ?thesis using Cons x tokens_nonempty[OF x(2)]
        by (cases "tokens_of x") (simp_all add: separated_Cons)
    qed
    show "arguments_outcome (parser_at ?rest errs) (returns ?after (Some arguments))"
    proof (cases arguments)
      case Nil
      show ?thesis
        using arguments_none[of "parser_at (lparen_token # rparen_token # rest) errs"] lp Nil
        by (simp add: next_at)
    next
      case (Cons a as)
      then obtain x where x: "a = Some x" "operator_expression x" using args[of a] by auto
      let ?tail = "concat (map (\<lambda>a. comma_token # argument_tokens a) as) @ rparen_token # rest"
      have sep: "?argtoks @ rparen_token # rest = tokens_of x @ ?tail"
        using Cons x by (simp add: separated_Cons argument_tokens_def o_def)
      have stop: "precedence (type (fst (lexer_next_token ?tail))) = LOWEST"
        by (cases as) (simp_all add: comma_token_def rparen_token_def lexer_next_token_def)
      have inner: "expression_outcome (parser_at (tokens_of x @ ?tail) errs) LOWEST
          (returns (parser_at (last (tokens_of x) # ?tail) errs) (Some x))"
        using each[of x ?tail] Cons x stop by simp
      let ?lst = "last (last (tokens_of x) # concat (map (\<lambda>a. comma_token # argument_tokens a) as))"
      have loop: "arguments_loop_outcome (parser_at (last (tokens_of x) # ?tail) errs) [Some x]
          (returns (parser_at (?lst # rparen_token # rest) errs) ([Some x] @ as))"
      proof (rule arguments_loop_list)
        show "type (last (tokens_of x)) \<noteq> END_OF_FILE" using last_not_eof[OF x(2)] .
        show "\<exists>x. a = Some x \<and> operator_expression x" if "a \<in> set as" for a
          using args[of a] that Cons by auto
        show "expression_outcome (parser_at (tokens_of x @ rest') errs) LOWEST
               (returns (parser_at (last (tokens_of x) # rest') errs) (Some x))"
          if "Some x \<in> set as" "precedence (type (fst (lexer_next_token rest'))) = LOWEST" for x rest'
          using each[of x rest'] that Cons by simp
      qed
      have nl: "type ?lst \<noteq> END_OF_FILE"
      proof -
        have "\<And>a. a \<in> set as \<Longrightarrow> \<exists>x. a = Some x \<and> operator_expression x"
          using args Cons by auto
        then have "list_all (\<lambda>t. type t \<noteq> END_OF_FILE)
            (concat (map (\<lambda>a. comma_token # argument_tokens a) as))"
          by (rule separated_not_eof)
        then have "list_all (\<lambda>t. type t \<noteq> END_OF_FILE)
            (last (tokens_of x) # concat (map (\<lambda>a. comma_token # argument_tokens a) as))"
          using last_not_eof[OF x(2)] by simp
        then show ?thesis
          unfolding list_all_iff using last_in_set[of "last (tokens_of x) # concat (map (\<lambda>a. comma_token # argument_tokens a) as)"]
          by blast
      qed
      have fk: "type (hd (tokens_of x)) \<noteq> RPAREN" "type (hd (tokens_of x)) \<noteq> END_OF_FILE"
        using first_token_kind[OF x(2)] by auto
      have pk: "type (peek_tok (parser_at (lparen_token # tokens_of x @ ?tail) errs)) \<noteq> RPAREN"
        using fk tokens_nonempty[OF x(2)] lp by (cases "tokens_of x") simp_all
      have n1: "parser_next_token (parser_at (lparen_token # tokens_of x @ ?tail) errs) =
          parser_at (tokens_of x @ ?tail) errs"
        using lp(2) by (rule next_at)
      have n2: "parser_next_token (parser_at (?lst # rparen_token # rest) errs) = ?after"
        using nl by (rule next_at)
      have pk2: "type (peek_tok (parser_at (?lst # rparen_token # rest) errs)) = RPAREN"
        using nl lp by simp
      have inner': "expression_outcome
          (parser_next_token (parser_at (lparen_token # tokens_of x @ ?tail) errs)) LOWEST
          (returns (parser_at (last (tokens_of x) # ?tail) errs) (Some x))"
        unfolding n1 using inner .
      have loop': "arguments_loop_outcome (parser_at (last (tokens_of x) # ?tail) errs) [Some x]
          (returns (parser_at (?lst # rparen_token # rest) errs) arguments)"
        using loop Cons x by simp
      have "arguments_outcome (parser_at (lparen_token # tokens_of x @ ?tail) errs)
          (returns (parser_next_token (parser_at (?lst # rparen_token # rest) errs)) (Some arguments))"
        using pk inner' loop' pk2 by (rule arguments_some)
      then show ?thesis unfolding n2 sep .
    qed
  qed
  have outer: "loop_outcome ?after q (Some (CALL_EXPRESSION tok (Some f) arguments)) R"
    using CALL.prems(6) f(1) by simp
  have mid: "loop_outcome ?p q (Some f) R"
    using loop_call[of ?p q ?after arguments "Some f" R] CALL.prems(4) first outer nf lp tok
    by (simp add: next_at)
  have cl: "precedence_value (precedence (type (fst (lexer_next_token ?rest)))) \<le> closing_level f"
    using primary_closing[OF f(4)] lp by simp
  show ?case
    using CALL.IH(1)[OF f(1) f(2) f(3) _ CALL.prems(4) cl mid] f
    by (simp add: operand_operators[OF primary_operand[OF f(4)]])
qed auto

lemma parse_expression_tree:
  assumes "operator_expression e" "binds_tighter e"
    and "precedence (type (fst (lexer_next_token rest))) = LOWEST"
  shows "expression_outcome (parser_at (tokens_of e @ rest) errs) LOWEST
           (returns (parser_at (last (tokens_of e) # rest) errs) (Some e))"
proof -
  have o: "list_all (\<lambda>t. precedence_value LOWEST < level t) (operators_of e)"
    using operators_binary[OF assms(1)] binary_level by (fastforce simp: list_all_iff)
  have c: "precedence_value (precedence (type (fst (lexer_next_token rest)))) \<le> closing_level e"
    using assms(3) closing_level_pos[of e] by simp
  have s: "loop_outcome (parser_at (last (tokens_of e) # rest) errs) LOWEST (Some e)
      (returns (parser_at (last (tokens_of e) # rest) errs) (Some e))"
    using assms(3) last_not_eof[OF assms(1)] by (intro loop_stop) simp
  show ?thesis using parse_operator_expression[OF assms(1,2) o _ c s] by simp
qed

lemma binds_tighter_unique:
  assumes "operator_expression e" "binds_tighter e" "operator_expression e'" "binds_tighter e'"
    and "tokens_of e = tokens_of e'"
  shows "e = e'"
proof -
  have l: "precedence (type (fst (lexer_next_token []))) = LOWEST"
    by (simp add: lexer_next_token_def)
  obtain n1 where n1: "\<forall>n \<ge> n1. parse_expression n (parser_at (tokens_of e @ []) []) LOWEST =
      returns (parser_at (last (tokens_of e) # []) []) (Some e)"
    using parse_expression_tree[OF assms(1,2) l, of "[]"] unfolding expression_outcome_def by blast
  obtain n2 where n2: "\<forall>n \<ge> n2. parse_expression n (parser_at (tokens_of e' @ []) []) LOWEST =
      returns (parser_at (last (tokens_of e') # []) []) (Some e')"
    using parse_expression_tree[OF assms(3,4) l, of "[]"] unfolding expression_outcome_def by blast
  have "returns (parser_at (last (tokens_of e) # []) []) (Some e) =
      returns (parser_at (last (tokens_of e') # []) []) (Some e')"
    using n1[rule_format, of "max n1 n2"] n2[rule_format, of "max n1 n2"] assms(5) by simp
  then show ?thesis by (simp add: returns_def)
qed

lemma root_lowest:
  "binds_tighter (INFIX_EXPRESSION tok operator (Some l) (Some r)) \<Longrightarrow>
   list_all (\<lambda>t. level tok \<le> level t) (operators_of (INFIX_EXPRESSION tok operator (Some l) (Some r)))"
  by (auto simp: list_all_iff intro: less_imp_le)

lemma attach_plain:
  assumes "operator_expression e" "binds_tighter e" "operators_of e = []"
    and "operand y" "type t \<in> set binary_operators"
  shows "\<exists>e'. operator_expression e' \<and> binds_tighter e' \<and>
           tokens_of e' = tokens_of e @ t # tokens_of y \<and>
           operators_of e' = operators_of e @ [t]"
  using assms
  by (intro exI[of _ "INFIX_EXPRESSION t (literal t) (Some e) (Some y)"])
     (simp add: operand_def operand_operators)

lemma attach_operand:
  assumes "operator_expression e" "binds_tighter e"
    and "operand y" "type t \<in> set binary_operators"
  shows "\<exists>e'. operator_expression e' \<and> binds_tighter e' \<and>
           tokens_of e' = tokens_of e @ t # tokens_of y \<and>
           operators_of e' = operators_of e @ [t]"
  using assms(1,2)
proof (induction e rule: expression_induct)
  case (INFIX tok operator left right)
  then obtain l r where l: "left = Some l" and r: "right = Some r" "operator_expression r" "binds_tighter r"
    by (cases left; cases right) auto
  show ?case
  proof (cases "level tok < level t")
    case True
    obtain r' where r': "operator_expression r'" "binds_tighter r'"
        "tokens_of r' = tokens_of r @ t # tokens_of y" "operators_of r' = operators_of r @ [t]"
      using INFIX.IH(2)[OF r] by blast
    show ?thesis
      using INFIX.prems l r r' True
      by (intro exI[of _ "INFIX_EXPRESSION tok operator left (Some r')"]) simp
  next
    case False
    have tt: "level t \<le> level tok" using False by simp
    have "list_all (\<lambda>u. level tok \<le> level u) (operators_of (INFIX_EXPRESSION tok operator left right))"
      using root_lowest INFIX.prems(2) l r(1) by blast
    then have "list_all (\<lambda>u. level t \<le> level u) (operators_of (INFIX_EXPRESSION tok operator left right))"
      unfolding list_all_iff using tt le_trans by blast
    then show ?thesis
      using INFIX.prems assms(3,4)
      by (intro exI[of _ "INFIX_EXPRESSION t (literal t)
            (Some (INFIX_EXPRESSION tok operator left right)) (Some y)"])
         (simp add: operand_def operand_operators)
  qed
qed (rule attach_plain[OF _ _ _ assms(3,4)]; simp)+

lemma chain_tree:
  "chain_ok x ps \<Longrightarrow>
   \<exists>e. operator_expression e \<and> binds_tighter e \<and> tokens_of e = chain_tokens x ps"
proof (induction ps rule: rev_induct)
  case Nil
  then show ?case by (auto simp: chain_ok_def operand_def chain_tokens_def)
next
  case (snoc p ps)
  obtain t y where p: "p = (t, y)" by (cases p)
  have ok: "chain_ok x ps" "operand y" "type t \<in> set binary_operators"
    using snoc.prems p by (auto simp: chain_ok_def)
  obtain e where e: "operator_expression e" "binds_tighter e" "tokens_of e = chain_tokens x ps"
    using snoc.IH[OF ok(1)] by blast
  obtain e' where "operator_expression e'" "binds_tighter e'"
      "tokens_of e' = tokens_of e @ t # tokens_of y"
    using attach_operand[OF e(1,2) ok(2,3)] by blast
  then show ?case using e(3) p by (auto simp: chain_tokens_def)
qed

lemma parse_expression_tree_at:
  assumes "operator_expression e" "binds_tighter e"
    and "list_all (\<lambda>t. precedence_value q < level t) (operators_of e)"
    and "precedence_value q < precedence_value CALL"
    and "precedence_value (precedence (type (fst (lexer_next_token rest)))) \<le> precedence_value q"
  shows "\<exists>n0. \<forall>n \<ge> n0. \<exists>parser'.
           parse_expression n (parser_init (tokens_of e @ rest)) q = returns parser' (Some e) \<and>
           cur_tok parser' = last (tokens_of e) \<and>
           peek_tok parser' = fst (lexer_next_token rest) \<and>
           errors parser' = []"
proof -
  let ?v = "precedence_value (precedence (type (fst (lexer_next_token rest))))"
  let ?after = "parser_at (last (tokens_of e) # rest) []"
  have "list_all (\<lambda>t. ?v \<le> level t) (operators_of e)"
    using assms(3,5) unfolding list_all_iff by fastforce
  moreover have "?v \<le> 6" using assms(4,5) by simp
  ultimately have c: "?v \<le> closing_level e"
    using closing_level_ge[OF assms(1,2)] by blast
  have s: "loop_outcome ?after q (Some e) (returns ?after (Some e))"
    using assms(5) last_not_eof[OF assms(1)] by (intro loop_stop) simp
  obtain n0 where n0: "\<forall>n \<ge> n0.
      parse_expression n (parser_at (tokens_of e @ rest) []) q = returns ?after (Some e)"
    using parse_operator_expression[OF assms(1,2,3,4) c s] unfolding expression_outcome_def by blast
  show ?thesis
    using n0 last_not_eof[OF assms(1)]
    by (intro exI[of _ n0] allI impI exI[of _ ?after]) (simp add: init_at)
qed

text \<open>
  Claim C1. \<open>parse_expression\<close> climbs precedences. The precedences of the operator tokens
  are as the claim lists them, in strictly increasing order from \<open>LOWEST\<close> to \<open>CALL\<close>. After
  the prefix function the loop stops exactly when the next token is a semicolon or its
  precedence is not above the minimum; otherwise the next token has an infix function
  (the test for a missing one never succeeds), which is called after one step, and the loop
  goes on with its result. Consequently, for every expression \<open>e\<close> made of identifiers,
  integers, booleans, prefix operators, infix operators and calls whose grouping is the one
  the precedences ask for (\<open>binds_tighter\<close>: a right operand holds only operators of higher
  precedence, a left operand only operators of at least the same precedence), for every
  minimum precedence below all operators of \<open>e\<close> and every next token whose precedence is
  not above the minimum, \<open>parse_expression\<close> returns \<open>e\<close> for the tokens of \<open>e\<close>, written
  without parentheses, with every large enough bound, stops before the next token and
  records no error. Every chain of operands and infix operators, of any length, is the
  sequence of the tokens of such an expression, and of one only. The tokens of \<open>1 + 2 * 3\<close>
  give a program whose string form is \<open>(1 + (2 * 3))\<close>.
\<close>

theorem parse_expression_precedence_climbing:
  "(precedence EQ = EQUALS \<and> precedence NOT_EQ = EQUALS \<and>
    precedence LT = LESSGREATER \<and> precedence GT = LESSGREATER \<and>
    precedence PLUS = SUM' \<and> precedence MINUS = SUM' \<and>
    precedence SLASH = PRODUCT \<and> precedence ASTERISK = PRODUCT \<and>
    precedence LPAREN = CALL) \<and>
   (precedence_value LOWEST < precedence_value EQUALS \<and>
    precedence_value EQUALS < precedence_value LESSGREATER \<and>
    precedence_value LESSGREATER < precedence_value SUM' \<and>
    precedence_value SUM' < precedence_value PRODUCT \<and>
    precedence_value PRODUCT < precedence_value PREFIX \<and>
    precedence_value PREFIX < precedence_value CALL) \<and>
   (\<forall>pe n p min_prec left.
      type (peek_tok p) = SEMICOLON \<or>
      precedence_value (precedence (type (peek_tok p))) \<le> precedence_value min_prec \<longrightarrow>
      parse_expression_loop pe (Suc n) p min_prec left = returns p left) \<and>
   (\<forall>pe n p min_prec left.
      type (peek_tok p) \<noteq> SEMICOLON \<and>
      precedence_value min_prec < precedence_value (precedence (type (peek_tok p))) \<longrightarrow>
      (\<exists>infix_fn. infix_fns (type (peek_tok p)) = Some infix_fn \<and>
         parse_expression_loop pe (Suc n) p min_prec left =
           and_then (case infix_fn of
                       Parse_infix_expression \<Rightarrow>
                         parse_infix_expression pe (parser_next_token p) left
                     | Parse_call_expression \<Rightarrow>
                         parse_call_expression pe n (parser_next_token p) left)
             (\<lambda>parser1 right. parse_expression_loop pe n parser1 min_prec right))) \<and>
   (\<forall>e min_prec rest.
      operator_expression e \<and> binds_tighter e \<and>
      list_all (\<lambda>t. precedence_value min_prec < level t) (operators_of e) \<and>
      precedence_value min_prec < precedence_value CALL \<and>
      precedence_value (precedence (type (fst (lexer_next_token rest)))) \<le> precedence_value min_prec \<longrightarrow>
      (\<exists>n0. \<forall>n \<ge> n0. \<exists>parser'.
         parse_expression n (parser_init (tokens_of e @ rest)) min_prec = returns parser' (Some e) \<and>
         cur_tok parser' = last (tokens_of e) \<and>
         peek_tok parser' = fst (lexer_next_token rest) \<and>
         errors parser' = [])) \<and>
   (\<forall>x ps. chain_ok x ps \<longrightarrow>
      (\<exists>e. operator_expression e \<and> binds_tighter e \<and> tokens_of e = chain_tokens x ps)) \<and>
   (\<forall>e e'. operator_expression e \<and> binds_tighter e \<and> operator_expression e' \<and> binds_tighter e' \<and>
      tokens_of e = tokens_of e' \<longrightarrow> e = e') \<and>
   (\<exists>parser' program.
      parse_program 6 (parser_init
        [\<lparr>type = INT', literal = ''1''\<rparr>, \<lparr>type = PLUS, literal = ''+''\<rparr>,
         \<lparr>type = INT', literal = ''2''\<rparr>, \<lparr>type = ASTERISK, literal = ''*''\<rparr>,
         \<lparr>type = INT', literal = ''3''\<rparr>]) = returns parser' program \<and>
      errors parser' = [] \<and>
      program_string junk m program = result (Some ''(1 + (2 * 3))''))"
proof -
  have loop1: "\<forall>pe n p min_prec left.
      type (peek_tok p) = SEMICOLON \<or>
      precedence_value (precedence (type (peek_tok p))) \<le> precedence_value min_prec \<longrightarrow>
      parse_expression_loop pe (Suc n) p min_prec left = returns p left"
    using parse_expression_loop_stop by blast
  have loop2: "\<forall>pe n p min_prec left.
      type (peek_tok p) \<noteq> SEMICOLON \<and>
      precedence_value min_prec < precedence_value (precedence (type (peek_tok p))) \<longrightarrow>
      (\<exists>infix_fn. infix_fns (type (peek_tok p)) = Some infix_fn \<and>
         parse_expression_loop pe (Suc n) p min_prec left =
           and_then (case infix_fn of
                       Parse_infix_expression \<Rightarrow>
                         parse_infix_expression pe (parser_next_token p) left
                     | Parse_call_expression \<Rightarrow>
                         parse_call_expression pe n (parser_next_token p) left)
             (\<lambda>parser1 right. parse_expression_loop pe n parser1 min_prec right))"
    using parse_expression_loop_continue by blast
  have tree: "\<forall>e min_prec rest.
      operator_expression e \<and> binds_tighter e \<and>
      list_all (\<lambda>t. precedence_value min_prec < level t) (operators_of e) \<and>
      precedence_value min_prec < precedence_value CALL \<and>
      precedence_value (precedence (type (fst (lexer_next_token rest)))) \<le> precedence_value min_prec \<longrightarrow>
      (\<exists>n0. \<forall>n \<ge> n0. \<exists>parser'.
         parse_expression n (parser_init (tokens_of e @ rest)) min_prec = returns parser' (Some e) \<and>
         cur_tok parser' = last (tokens_of e) \<and>
         peek_tok parser' = fst (lexer_next_token rest) \<and>
         errors parser' = [])"
    using parse_expression_tree_at by blast
  have chain: "\<forall>x ps. chain_ok x ps \<longrightarrow>
      (\<exists>e. operator_expression e \<and> binds_tighter e \<and> tokens_of e = chain_tokens x ps)"
    using chain_tree by blast
  have unique: "\<forall>e e'. operator_expression e \<and> binds_tighter e \<and> operator_expression e' \<and> binds_tighter e' \<and>
      tokens_of e = tokens_of e' \<longrightarrow> e = e'"
    using binds_tighter_unique by blast
  have ex: "\<exists>parser' program.
      parse_program 6 (parser_init
        [\<lparr>type = INT', literal = ''1''\<rparr>, \<lparr>type = PLUS, literal = ''+''\<rparr>,
         \<lparr>type = INT', literal = ''2''\<rparr>, \<lparr>type = ASTERISK, literal = ''*''\<rparr>,
         \<lparr>type = INT', literal = ''3''\<rparr>]) = returns parser' program \<and>
      errors parser' = [] \<and>
      program_string junk m program = result (Some ''(1 + (2 * 3))'')"
    using example_parse example_string[of junk m]
    by (intro exI conjI) (assumption, simp, assumption)
  have tables: "precedence EQ = EQUALS \<and> precedence NOT_EQ = EQUALS \<and>
      precedence LT = LESSGREATER \<and> precedence GT = LESSGREATER \<and>
      precedence PLUS = SUM' \<and> precedence MINUS = SUM' \<and>
      precedence SLASH = PRODUCT \<and> precedence ASTERISK = PRODUCT \<and>
      precedence LPAREN = CALL" by simp
  have order: "precedence_value LOWEST < precedence_value EQUALS \<and>
      precedence_value EQUALS < precedence_value LESSGREATER \<and>
      precedence_value LESSGREATER < precedence_value SUM' \<and>
      precedence_value SUM' < precedence_value PRODUCT \<and>
      precedence_value PRODUCT < precedence_value PREFIX \<and>
      precedence_value PREFIX < precedence_value CALL" by simp
  show ?thesis
    using tables order loop1 loop2 tree chain unique ex by (intro conjI) blast+
qed

theorem parse_expression_precedence_climbing_witness:
  "\<exists>n0. \<forall>n \<ge> n0. \<exists>parser'.
     parse_expression n
       (parser_init
          [\<lparr>type = MINUS, literal = ''-''\<rparr>, \<lparr>type = IDENT, literal = ''a''\<rparr>,
           \<lparr>type = PLUS, literal = ''+''\<rparr>, \<lparr>type = IDENT, literal = ''f''\<rparr>,
           \<lparr>type = LPAREN, literal = ''(''\<rparr>, \<lparr>type = IDENT, literal = ''b''\<rparr>,
           \<lparr>type = COMMA, literal = '',''\<rparr>, \<lparr>type = IDENT, literal = ''c''\<rparr>,
           \<lparr>type = RPAREN, literal = '')''\<rparr>, \<lparr>type = ASTERISK, literal = ''*''\<rparr>,
           \<lparr>type = IDENT, literal = ''d''\<rparr>, \<lparr>type = PLUS, literal = ''+''\<rparr>,
           \<lparr>type = IDENT, literal = ''e''\<rparr>]) LOWEST =
     returns parser'
       (Some (INFIX_EXPRESSION \<lparr>type = PLUS, literal = ''+''\<rparr> ''+''
          (Some (INFIX_EXPRESSION \<lparr>type = PLUS, literal = ''+''\<rparr> ''+''
             (Some (PREFIX_EXPRESSION \<lparr>type = MINUS, literal = ''-''\<rparr> ''-''
                (Some (IDENTIFIER_EXPRESSION \<lparr>type = IDENT, literal = ''a''\<rparr> ''a''))))
             (Some (INFIX_EXPRESSION \<lparr>type = ASTERISK, literal = ''*''\<rparr> ''*''
                (Some (CALL_EXPRESSION \<lparr>type = IDENT, literal = ''b''\<rparr>
                   (Some (IDENTIFIER_EXPRESSION \<lparr>type = IDENT, literal = ''f''\<rparr> ''f''))
                   [Some (IDENTIFIER_EXPRESSION \<lparr>type = IDENT, literal = ''b''\<rparr> ''b''),
                    Some (IDENTIFIER_EXPRESSION \<lparr>type = IDENT, literal = ''c''\<rparr> ''c'')]))
                (Some (IDENTIFIER_EXPRESSION \<lparr>type = IDENT, literal = ''d''\<rparr> ''d''))))))
          (Some (IDENTIFIER_EXPRESSION \<lparr>type = IDENT, literal = ''e''\<rparr> ''e'')))) \<and>
     cur_tok parser' = \<lparr>type = IDENT, literal = ''e''\<rparr> \<and>
     peek_tok parser' = \<lparr>type = END_OF_FILE, literal = []\<rparr> \<and>
     errors parser' = []"
proof -
  let ?e = "INFIX_EXPRESSION \<lparr>type = PLUS, literal = ''+''\<rparr> ''+''
          (Some (INFIX_EXPRESSION \<lparr>type = PLUS, literal = ''+''\<rparr> ''+''
             (Some (PREFIX_EXPRESSION \<lparr>type = MINUS, literal = ''-''\<rparr> ''-''
                (Some (IDENTIFIER_EXPRESSION \<lparr>type = IDENT, literal = ''a''\<rparr> ''a''))))
             (Some (INFIX_EXPRESSION \<lparr>type = ASTERISK, literal = ''*''\<rparr> ''*''
                (Some (CALL_EXPRESSION \<lparr>type = IDENT, literal = ''b''\<rparr>
                   (Some (IDENTIFIER_EXPRESSION \<lparr>type = IDENT, literal = ''f''\<rparr> ''f''))
                   [Some (IDENTIFIER_EXPRESSION \<lparr>type = IDENT, literal = ''b''\<rparr> ''b''),
                    Some (IDENTIFIER_EXPRESSION \<lparr>type = IDENT, literal = ''c''\<rparr> ''c'')]))
                (Some (IDENTIFIER_EXPRESSION \<lparr>type = IDENT, literal = ''d''\<rparr> ''d''))))))
          (Some (IDENTIFIER_EXPRESSION \<lparr>type = IDENT, literal = ''e''\<rparr> ''e''))"
  have h: "operator_expression ?e \<and> binds_tighter ?e \<and>
      list_all (\<lambda>t. precedence_value LOWEST < level t) (operators_of ?e) \<and>
      precedence_value LOWEST < precedence_value CALL \<and>
      precedence_value (precedence (type (fst (lexer_next_token [])))) \<le> precedence_value LOWEST"
    by (simp add: binary_operators_def unary_operators_def level_def lexer_next_token_def
          comma_token_def rparen_token_def)
  have "\<exists>n0. \<forall>n \<ge> n0. \<exists>parser'.
         parse_expression n (parser_init (tokens_of ?e @ [])) LOWEST = returns parser' (Some ?e) \<and>
         cur_tok parser' = last (tokens_of ?e) \<and>
         peek_tok parser' = fst (lexer_next_token []) \<and>
         errors parser' = []"
    using parse_expression_precedence_climbing[of "\<lambda>_. CHR 0x00" 0] h by blast
  then show ?thesis
    by (simp add: lexer_next_token_def lparen_token_def comma_token_def rparen_token_def)
qed
section \<open>Printing and parsing again\<close>

lemma lex_fn_block: "lexer_tokens ''fn(x) { x }'' =
  [\<lparr>type = FUNCTION, literal = ''fn''\<rparr>, \<lparr>type = LPAREN, literal = ''(''\<rparr>,
   \<lparr>type = IDENT, literal = ''x''\<rparr>, \<lparr>type = RPAREN, literal = '')''\<rparr>,
   \<lparr>type = LBRACE, literal = ''{''\<rparr>, \<lparr>type = IDENT, literal = ''x''\<rparr>,
   \<lparr>type = RBRACE, literal = ''}''\<rparr>]"
  by (simp add: is_whitespace_def is_letter_def is_ident_char_def is_digit_char_def
        lookup_ident_def single_char_type_def)

lemma lex_fn_printed: "lexer_tokens ''fn(x) x'' =
  [\<lparr>type = FUNCTION, literal = ''fn''\<rparr>, \<lparr>type = LPAREN, literal = ''(''\<rparr>,
   \<lparr>type = IDENT, literal = ''x''\<rparr>, \<lparr>type = RPAREN, literal = '')''\<rparr>,
   \<lparr>type = IDENT, literal = ''x''\<rparr>]"
  by (simp add: is_whitespace_def is_letter_def is_ident_char_def is_digit_char_def
        lookup_ident_def single_char_type_def)

lemma parse_function_parameters_one:
  "type (peek_tok p) = IDENT \<Longrightarrow> lexer p = rp # rest \<Longrightarrow> type rp = RPAREN \<Longrightarrow>
   parse_function_parameters p =
     (p\<lparr>cur_tok := rp, peek_tok := fst (lexer_next_token rest), lexer := snd (lexer_next_token rest)\<rparr>,
      Some [(peek_tok p, literal (peek_tok p))])"
  by (simp add: parse_function_parameters_def parse_function_parameters_loop.simps Let_def
        parser_next_token_def lexer_next_token_def create_identifier_def expect_peek_def
        split: prod.splits)

lemma percent_s_Some [simp]: "percent_s (Some s) = result s"
  by (simp add: percent_s_def)

lemma arguments_strings_plain:
  assumes "\<And>x. Some x \<in> set args \<Longrightarrow> plain_expression x \<Longrightarrow>
             expression_string junk n x = result (printed_expression x)"
    and "list_all (\<lambda>a. case a of Some x \<Rightarrow> plain_expression x | None \<Rightarrow> False) args"
  shows "arguments_strings junk n args =
           result (map (\<lambda>a. case a of Some x \<Rightarrow> printed_expression x | None \<Rightarrow> []) args)"
  using assms
proof (induction args)
  case Nil
  then show ?case by simp
next
  case (Cons a args)
  then obtain x where x: "a = Some x" "plain_expression x" by (cases a) auto
  have "expression_string junk n x = result (printed_expression x)"
    using Cons.prems(1)[of x] x by simp
  moreover have "arguments_strings junk n args =
           result (map (\<lambda>a. case a of Some x \<Rightarrow> printed_expression x | None \<Rightarrow> []) args)"
    using Cons.IH Cons.prems by simp
  ultimately show ?case using x by simp
qed

lemma expression_string_plain:
  "plain_expression e \<Longrightarrow> expression_string junk n e = result (printed_expression e)"
proof (induction e rule: plain_expression.induct)
  case (2 tok v)
  then show ?case
    by (simp add: integer_string_decimal LONG_MIN_def LONG_MAX_def)
next
  case (6 tok callee arguments)
  have "arguments_strings junk n arguments =
      result (map (\<lambda>a. case a of Some x \<Rightarrow> printed_expression x | None \<Rightarrow> []) arguments)"
    using 6 by (intro arguments_strings_plain) auto
  then show ?case using 6 by simp
qed simp_all

lemma statement_string_plain:
  "plain_statement s \<Longrightarrow> statement_string junk n s = result (Some (printed_statement s))"
  by (induction s rule: plain_statement.induct) (simp_all add: expression_string_plain)

lemma program_string_loop_plain:
  "plain_program prog \<Longrightarrow>
   program_string_loop junk n prog acc =
     result (Some (case acc of Some str \<Rightarrow> str @ '' '' @ printed_program prog
                   | None \<Rightarrow> printed_program prog))"
proof (induction prog arbitrary: acc rule: plain_program.induct)
  case 1
  then show ?case by simp
next
  case (2 stmt)
  then show ?case by (simp add: statement_string_plain split: option.splits)
next
  case (3 stmt next_stmt statements)
  let ?acc = "Some (case acc of Some str \<Rightarrow> str @ '' '' @ printed_statement stmt
                   | None \<Rightarrow> printed_statement stmt)"
  have ps: "plain_statement stmt" and pp: "plain_program (next_stmt # statements)"
    using "3.prems" by simp_all
  have "program_string_loop junk n (stmt # next_stmt # statements) acc =
        program_string_loop junk n (next_stmt # statements) ?acc"
    by (subst program_string_loop.simps) (simp add: statement_string_plain[OF ps])
  also have "\<dots> = result (Some (case ?acc of Some str \<Rightarrow> str @ '' '' @ printed_program (next_stmt # statements)
                   | None \<Rightarrow> printed_program (next_stmt # statements)))"
    by (rule "3.IH"[OF pp])
  finally show ?case by (simp split: option.splits)
qed

lemma program_string_plain:
  "plain_program prog \<Longrightarrow> program_string junk n prog = result (Some (printed_program prog))"
  by (simp add: program_string_def program_string_loop_plain)

lemma letter_classes: "is_letter c \<Longrightarrow> \<not> is_whitespace c \<and> \<not> is_digit_char c"
  by (auto simp: is_letter_def is_whitespace_def is_digit_char_def)

lemma digit_classes: "is_digit_char c \<Longrightarrow> \<not> is_whitespace c \<and> \<not> is_letter c"
  by (auto simp: is_letter_def is_whitespace_def is_digit_char_def)

lemma takeWhile_boundary:
  "list_all P cs \<Longrightarrow> tail = [] \<or> \<not> P (hd tail) \<Longrightarrow>
   takeWhile P (cs @ tail) = cs \<and> dropWhile P (cs @ tail) = tail"
  by (induction cs) (auto simp: takeWhile_eq_Nil_iff neq_Nil_conv dropWhile_eq_self_iff)

lemma lex_word:
  assumes "is_letter c" "list_all is_ident_char cs" "boundary tail"
  shows "lexer_tokens (c # cs @ tail) = \<lparr>type = lookup_ident (c # cs), literal = c # cs\<rparr> # lexer_tokens tail"
proof -
  have "takeWhile is_ident_char (cs @ tail) = cs \<and> dropWhile is_ident_char (cs @ tail) = tail"
    using assms(2,3) unfolding boundary_def by (intro takeWhile_boundary)
  then show ?thesis using letter_classes[OF assms(1)] assms(1) by simp
qed

lemma lex_digits:
  assumes "is_digit_char c" "list_all is_digit_char cs" "boundary tail"
  shows "lexer_tokens (c # cs @ tail) = \<lparr>type = INT', literal = c # cs\<rparr> # lexer_tokens tail"
proof -
  have "tail = [] \<or> \<not> is_digit_char (hd tail)"
    using assms(3) by (auto simp: boundary_def is_ident_char_def)
  then have "takeWhile is_digit_char (cs @ tail) = cs \<and> dropWhile is_digit_char (cs @ tail) = tail"
    using assms(2) by (intro takeWhile_boundary)
  then show ?thesis using digit_classes[OF assms(1)] assms(1) by simp
qed

lemma lex_identifier:
  "is_identifier v \<Longrightarrow> boundary tail \<Longrightarrow> lexer_tokens (v @ tail) = \<lparr>type = IDENT, literal = v\<rparr> # lexer_tokens tail"
  by (cases v) (auto simp: is_identifier_def lex_word simp del: lexer_tokens.simps)

lemma lex_decimal:
  "0 \<le> v \<Longrightarrow> boundary tail \<Longrightarrow>
   lexer_tokens (decimal_repr v @ tail) = \<lparr>type = INT', literal = decimal_repr v\<rparr> # lexer_tokens tail"
proof -
  assume v: "0 \<le> v" and b: "boundary tail"
  obtain c cs where d: "decimal_digits (nat v) = c # cs"
    using decimal_digits_length_pos[of "nat v"] by (cases "decimal_digits (nat v)") auto
  have "\<forall>x \<in> set (c # cs). is_digit_char x"
    using decimal_digits_all_digits[of "nat v"] d by simp
  then have "is_digit_char c" "list_all is_digit_char cs" by (simp_all add: list_all_iff)
  then have "lexer_tokens (c # cs @ tail) = \<lparr>type = INT', literal = c # cs\<rparr> # lexer_tokens tail"
    using b by (rule lex_digits)
  then show ?thesis using v d by (simp add: decimal_repr_def del: lexer_tokens.simps)
qed

lemma lex_boolean:
  "boundary tail \<Longrightarrow>
   lexer_tokens (boolean_expression_string b @ tail) =
     \<lparr>type = (if b then TRUE else FALSE), literal = boolean_expression_string b\<rparr> # lexer_tokens tail"
proof -
  assume b: "boundary tail"
  have t: "lexer_tokens (CHR ''t'' # ''rue'' @ tail) = \<lparr>type = lookup_ident ''true'', literal = ''true''\<rparr> # lexer_tokens tail"
    by (rule lex_word) (simp_all add: b is_letter_def is_ident_char_def)
  have f: "lexer_tokens (CHR ''f'' # ''alse'' @ tail) = \<lparr>type = lookup_ident ''false'', literal = ''false''\<rparr> # lexer_tokens tail"
    by (rule lex_word) (simp_all add: b is_letter_def is_ident_char_def)
  show ?thesis using t f
    by (simp add: boolean_expression_string_def lookup_ident_def del: lexer_tokens.simps)
qed


lemma lex_space [simp]: "lexer_tokens (CHR '' '' # cs) = lexer_tokens cs"
  by (simp add: is_whitespace_def)

lemma lex_lparen: "lexer_tokens (CHR ''('' # cs) = \<lparr>type = LPAREN, literal = ''(''\<rparr> # lexer_tokens cs"
  by (simp add: is_whitespace_def is_letter_def is_digit_char_def single_char_type_def)

lemma lex_rparen: "lexer_tokens (CHR '')'' # cs) = \<lparr>type = RPAREN, literal = '')''\<rparr> # lexer_tokens cs"
  by (simp add: is_whitespace_def is_letter_def is_digit_char_def single_char_type_def)

lemma lex_semicolon: "lexer_tokens (CHR '';'' # cs) = \<lparr>type = SEMICOLON, literal = '';''\<rparr> # lexer_tokens cs"
  by (simp add: is_whitespace_def is_letter_def is_digit_char_def single_char_type_def)

lemma lex_assign: "lexer_tokens (CHR ''='' # CHR '' '' # cs) = \<lparr>type = ASSIGN, literal = ''=''\<rparr> # lexer_tokens cs"
  by (simp add: is_whitespace_def is_letter_def is_digit_char_def single_char_type_def)

lemma lex_minus: "lexer_tokens (CHR ''-'' # cs) = \<lparr>type = MINUS, literal = ''-''\<rparr> # lexer_tokens cs"
  by (simp add: is_whitespace_def is_letter_def is_digit_char_def single_char_type_def)

lemma lex_bang:
  "cs \<noteq> [] \<Longrightarrow> hd cs \<noteq> CHR ''='' \<Longrightarrow> lexer_tokens (CHR ''!'' # cs) = \<lparr>type = BANG, literal = ''!''\<rparr> # lexer_tokens cs"
  by (simp add: is_whitespace_def is_letter_def is_digit_char_def single_char_type_def)

lemma lex_infix_operator:
  "operator \<in> set infix_operators \<Longrightarrow>
   lexer_tokens (operator @ CHR '' '' # cs) = operator_token operator # lexer_tokens cs"
  by (auto simp: infix_operators_def operator_token_def is_whitespace_def is_letter_def
        is_digit_char_def single_char_type_def)

lemma boundary_simps [simp]:
  "boundary []" "boundary (CHR '' '' # cs)" "boundary (CHR '')'' # cs)" "boundary (CHR '';'' # cs)"
  "boundary (CHR '','' # cs)" "boundary (CHR ''('' # cs)"
  by (simp_all add: boundary_def is_ident_char_def is_letter_def is_digit_char_def)

lemma printed_first:
  "plain_expression e \<Longrightarrow> printed_expression e \<noteq> [] \<and> hd (printed_expression e) \<noteq> CHR ''=''"
proof (induction e rule: expression_induct)
  case (IDENTIFIER tok v)
  then show ?case by (auto simp: is_identifier_def is_letter_def)
next
  case (INTEGER tok v)
  have ne: "decimal_digits (nat v) \<noteq> []" using decimal_digits_length_pos[of "nat v"] by auto
  moreover have "\<forall>c \<in> set (decimal_digits (nat v)). is_digit_char c"
    using decimal_digits_all_digits by blast
  ultimately have "is_digit_char (hd (decimal_digits (nat v)))" by simp
  then show ?case using INTEGER ne by (auto simp: decimal_repr_def is_digit_char_def)
next
  case (PREFIX tok operator right)
  then show ?case by (cases right) auto
next
  case (INFIX tok operator left right)
  then show ?case by (cases left; cases right) auto
next
  case (CALL tok callee arguments)
  then show ?case by (cases callee) auto
qed (auto simp: boolean_expression_string_def)

lemma join_parameters_Some:
  "join_parameters (Some str) strs = Some (str @ concat (map (\<lambda>x. '', '' @ x) strs))"
  by (induction strs arbitrary: str) simp_all

lemma generate_parameters_string_Cons:
  "generate_parameters_string (str # strs) = str @ concat (map (\<lambda>x. '', '' @ x) strs)"
  by (simp add: generate_parameters_string_def join_parameters_Some)

lemma lex_comma:
  "lexer_tokens (CHR '','' # CHR '' '' # cs) = comma_token # lexer_tokens cs"
  by (simp add: is_whitespace_def is_letter_def is_digit_char_def single_char_type_def
        comma_token_def)

lemma lex_arguments:
  assumes "\<And>x tail. Some x \<in> set args \<Longrightarrow> boundary tail \<Longrightarrow>
             lexer_tokens (printed_expression x @ tail) = expression_tokens x @ lexer_tokens tail"
    and "\<And>a. a \<in> set args \<Longrightarrow> \<exists>x. a = Some x"
  shows "lexer_tokens
           (concat (map (\<lambda>a. '', '' @ (case a of Some x \<Rightarrow> printed_expression x | None \<Rightarrow> [])) args) @
            CHR '')'' # tail) =
         concat (map (\<lambda>a. comma_token # (case a of Some x \<Rightarrow> expression_tokens x | None \<Rightarrow> [])) args) @
         rparen_token # lexer_tokens tail"
  using assms
proof (induction args)
  case Nil
  show ?case by (simp add: lex_rparen rparen_token_def del: lexer_tokens.simps)
next
  case (Cons a args)
  obtain x where x: "a = Some x" using Cons.prems(2)[of a] by auto
  let ?rest = "concat (map (\<lambda>a. '', '' @ (case a of Some x \<Rightarrow> printed_expression x | None \<Rightarrow> [])) args) @
            CHR '')'' # tail"
  have b: "boundary ?rest" by (cases args) simp_all
  have "lexer_tokens (printed_expression x @ ?rest) = expression_tokens x @ lexer_tokens ?rest"
    using Cons.prems(1)[of x ?rest] x b by simp
  moreover have "lexer_tokens ?rest =
      concat (map (\<lambda>a. comma_token # (case a of Some x \<Rightarrow> expression_tokens x | None \<Rightarrow> [])) args) @
      rparen_token # lexer_tokens tail"
    using Cons.IH Cons.prems by simp
  ultimately show ?case using x by (simp add: lex_comma del: lexer_tokens.simps)
qed

lemma lex_expression:
  "plain_expression e \<Longrightarrow> boundary tail \<Longrightarrow>
   lexer_tokens (printed_expression e @ tail) = expression_tokens e @ lexer_tokens tail"
proof (induction e arbitrary: tail rule: expression_induct)
  case (IDENTIFIER tok v)
  then show ?case by (simp add: lex_identifier del: lexer_tokens.simps)
next
  case (INTEGER tok v)
  then show ?case by (simp add: lex_decimal del: lexer_tokens.simps)
next
  case (BOOLEAN tok v)
  then show ?case by (simp add: lex_boolean del: lexer_tokens.simps)
next
  case (PREFIX tok operator right)
  then obtain r where r: "right = Some r" "plain_expression r" "operator = ''-'' \<or> operator = ''!''"
    by (cases right) (auto simp: prefix_operators_def)
  have ih: "lexer_tokens (printed_expression r @ CHR '')'' # tail) = expression_tokens r @ lexer_tokens (CHR '')'' # tail)"
    using PREFIX.IH[OF r(1,2), of "CHR '')'' # tail"] by simp
  have f: "printed_expression r @ CHR '')'' # tail \<noteq> []"
      "hd (printed_expression r @ CHR '')'' # tail) \<noteq> CHR ''=''"
    using printed_first[OF r(2)] by auto
  show ?case
    using r(3)
  proof
    assume "operator = ''-''"
    then show ?thesis using r(1) ih
      by (simp add: lex_lparen lex_rparen lex_minus operator_token_def del: lexer_tokens.simps)
  next
    assume "operator = ''!''"
    then show ?thesis using r(1) ih lex_bang[OF f]
      by (simp add: lex_lparen lex_rparen operator_token_def del: lexer_tokens.simps)
  qed
next
  case (INFIX tok operator left right)
  then obtain l r where l: "left = Some l" "plain_expression l" and r: "right = Some r" "plain_expression r"
      and o: "operator \<in> set infix_operators"
    by (cases left; cases right) auto
  have ihr: "lexer_tokens (printed_expression r @ CHR '')'' # tail) = expression_tokens r @ lexer_tokens (CHR '')'' # tail)"
    using INFIX.IH(2)[OF r(1,2), of "CHR '')'' # tail"] by simp
  have ihl: "lexer_tokens (printed_expression l @ CHR '' '' # operator @ CHR '' '' # printed_expression r @ CHR '')'' # tail) =
      expression_tokens l @ lexer_tokens (CHR '' '' # operator @ CHR '' '' # printed_expression r @ CHR '')'' # tail)"
    using INFIX.IH(1)[OF l(1,2), of "CHR '' '' # operator @ CHR '' '' # printed_expression r @ CHR '')'' # tail"]
    by simp
  show ?case
    using l(1) r(1) ihl ihr lex_infix_operator[OF o, of "printed_expression r @ CHR '')'' # tail"]
    by (simp add: lex_lparen lex_rparen del: lexer_tokens.simps)
next
  case (CALL tok callee arguments)
  then obtain f where f: "callee = Some f" "plain_expression f"
      and as: "list_all (\<lambda>a. case a of Some x \<Rightarrow> plain_expression x | None \<Rightarrow> False) arguments"
    by (cases callee) auto
  have some: "\<And>a. a \<in> set arguments \<Longrightarrow> \<exists>x. a = Some x"
    using as by (auto simp: list_all_iff split: option.splits)
  have each: "lexer_tokens (printed_expression x @ tail') = expression_tokens x @ lexer_tokens tail'"
    if "Some x \<in> set arguments" "boundary tail'" for x tail'
  proof -
    have "plain_expression x" using as that(1) by (auto simp: list_all_iff)
    then show ?thesis using CALL.IH(2)[OF that(1)] that(2) by simp
  qed
  let ?ps = "map (\<lambda>a. case a of Some x \<Rightarrow> printed_expression x | None \<Rightarrow> []) arguments"
  let ?ts = "map (\<lambda>a. case a of Some x \<Rightarrow> expression_tokens x | None \<Rightarrow> []) arguments"
  have inner: "lexer_tokens (generate_parameters_string ?ps @ CHR '')'' # tail) =
      separated ?ts @ rparen_token # lexer_tokens tail"
  proof (cases arguments)
    case Nil
    then show ?thesis
      by (simp add: generate_parameters_string_def lex_rparen rparen_token_def
            del: lexer_tokens.simps)
  next
    case (Cons a as')
    then obtain x where x: "a = Some x" using some[of a] by auto
    let ?rest = "concat (map (\<lambda>a. '', '' @ (case a of Some x \<Rightarrow> printed_expression x | None \<Rightarrow> [])) as') @
            CHR '')'' # tail"
    have b: "boundary ?rest" by (cases as') simp_all
    have 1: "lexer_tokens (printed_expression x @ ?rest) = expression_tokens x @ lexer_tokens ?rest"
      using each[of x ?rest] Cons x b by simp
    have 2: "lexer_tokens ?rest =
        concat (map (\<lambda>a. comma_token # (case a of Some x \<Rightarrow> expression_tokens x | None \<Rightarrow> [])) as') @
        rparen_token # lexer_tokens tail"
    proof (rule lex_arguments)
      show "\<exists>x. a = Some x" if "a \<in> set as'" for a using some[of a] that Cons by simp
      show "lexer_tokens (printed_expression x @ tail) = expression_tokens x @ lexer_tokens tail"
        if "Some x \<in> set as'" "boundary tail" for x tail
        using each[of x tail] that Cons by simp
    qed
    show ?thesis
      using Cons x 1 2
      by (simp add: generate_parameters_string_Cons separated_Cons o_def del: lexer_tokens.simps)
  qed
  have "lexer_tokens (printed_expression f @ CHR ''('' # generate_parameters_string ?ps @ CHR '')'' # tail) =
      expression_tokens f @ lexer_tokens (CHR ''('' # generate_parameters_string ?ps @ CHR '')'' # tail)"
    using CALL.IH(1)[OF f(1) f(2), of "CHR ''('' # generate_parameters_string ?ps @ CHR '')'' # tail"]
    by simp
  then show ?case
    using f(1) inner
    by (simp add: lex_lparen lparen_token_def del: lexer_tokens.simps)
qed auto

lemma lex_statement:
  "plain_statement s \<Longrightarrow> boundary tail \<Longrightarrow>
   lexer_tokens (printed_statement s @ tail) = statement_tokens s @ lexer_tokens tail"
proof (cases s)
  case (LET_STATEMENT tok name v)
  assume p: "plain_statement s" and b: "boundary tail"
  then obtain e where e: "v = Some e" "plain_expression e" "is_identifier (snd name)"
    using LET_STATEMENT by (cases v) auto
  have l: "lexer_tokens (CHR ''l'' # ''et'' @ CHR '' '' # cs) = \<lparr>type = lookup_ident ''let'', literal = ''let''\<rparr> # lexer_tokens (CHR '' '' # cs)" for cs
    by (rule lex_word) (simp_all add: is_letter_def is_ident_char_def)
  have n: "lexer_tokens (snd name @ CHR '' '' # cs) = \<lparr>type = IDENT, literal = snd name\<rparr> # lexer_tokens (CHR '' '' # cs)" for cs
    using e(3) by (intro lex_identifier) simp_all
  have x: "lexer_tokens (printed_expression e @ CHR '';'' # tail) = expression_tokens e @ lexer_tokens (CHR '';'' # tail)"
    using lex_expression[OF e(2), of "CHR '';'' # tail"] by simp
  show ?thesis
    using LET_STATEMENT e(1) l n x
    by (simp add: lex_assign lex_semicolon lookup_ident_def del: lexer_tokens.simps)
next
  case (EXPRESSION_STATEMENT tok v)
  assume p: "plain_statement s" and b: "boundary tail"
  then show ?thesis using EXPRESSION_STATEMENT lex_expression[OF _ b]
    by (cases v) (auto simp del: lexer_tokens.simps)
qed auto

lemma lex_program:
  "plain_program prog \<Longrightarrow> lexer_tokens (printed_program prog) = concat (map statement_tokens prog)"
proof (induction prog rule: plain_program.induct)
  case (2 stmt)
  then show ?case using lex_statement[of stmt "[]"] by simp
next
  case (3 stmt next_stmt statements)
  then show ?case
    using lex_statement[of stmt "CHR '' '' # printed_program (next_stmt # statements)"]
    by (simp del: lexer_tokens.simps)
qed simp

lemma outcome_grouped:
  assumes "type (cur_tok p) = LPAREN"
    and "expression_outcome (parser_next_token p) LOWEST (returns p1 x)"
    and "type (peek_tok p1) = RPAREN"
    and "loop_outcome (parser_next_token p1) q x r"
  shows "expression_outcome p q r"
proof -
  obtain n1 where n1: "\<forall>n \<ge> n1. parse_expression n (parser_next_token p) LOWEST = returns p1 x"
    using assms(2) by (auto simp: expression_outcome_def)
  obtain n2 where n2: "\<forall>n \<ge> n2. \<forall>k \<ge> n2.
      parse_expression_loop (\<lambda>p q. parse_expression n p q) k (parser_next_token p1) q x = r"
    using assms(4) by (auto simp: loop_outcome_def)
  have "\<forall>n \<ge> Suc (max n1 n2). parse_expression n p q = r"
  proof (intro allI impI)
    fix n assume "Suc (max n1 n2) \<le> n"
    then obtain m where m: "n = Suc m" "n1 \<le> m" "n2 \<le> m" by (cases n) auto
    show "parse_expression n p q = r"
      using assms(1,3) n1 n2 m by (simp add: parse_grouped_expression_def expect_peek_def)
  qed
  then show ?thesis unfolding expression_outcome_def by blast
qed

lemma digits_value_foldl:
  "\<forall>c \<in> set cs. is_digit_char c \<Longrightarrow>
   digits_value acc cs = Some (foldl (\<lambda>a c. 10 * a + (of_char c - 48)) acc cs)"
  by (induction cs arbitrary: acc) simp_all

lemma strtol_decimal:
  assumes "0 \<le> v" "v \<le> LONG_MAX"
  shows "strtol (decimal_repr v) = (v, length (decimal_repr v), False)"
proof -
  let ?ds = "decimal_digits (nat v)"
  have all: "\<forall>c \<in> set ?ds. is_digit_char c" using decimal_digits_all_digits by blast
  have ne: "?ds \<noteq> []" using decimal_digits_length_pos[of "nat v"] by auto
  then obtain c cs where cs: "?ds = c # cs" by (cases ?ds) auto
  have c: "is_digit_char c" using all cs by simp
  then have nc: "\<not> is_space_char c" "c \<noteq> CHR ''-''" "c \<noteq> CHR ''+''"
    by (auto simp: is_digit_char_def is_space_char_def)
  have tw: "takeWhile is_digit_char ?ds = ?ds" using all by (simp add: takeWhile_eq_all_conv)
  have "digits_value 0 ?ds = Some (nat v)"
    using digits_value_decimal_digits[of 0 "nat v"] by simp
  then have f: "foldl (\<lambda>a c. 10 * a + (of_char c - 48)) 0 ?ds = nat v"
    using digits_value_foldl[OF all, of 0] by simp
  have r: "decimal_repr v = ?ds" using assms(1) by (simp add: decimal_repr_def)
  have sp: "takeWhile is_space_char ?ds = []" "dropWhile is_space_char ?ds = ?ds"
    using cs nc by simp_all
  have hd: "hd ?ds \<noteq> CHR ''-''" "hd ?ds \<noteq> CHR ''+''" using cs nc by simp_all
  show ?thesis
    unfolding r strtol_def Let_def sp
    using hd ne assms by (simp add: tw f LONG_MIN_def LONG_MAX_def)
qed

lemma operator_token_infix:
  "operator \<in> set infix_operators \<Longrightarrow>
   type (operator_token operator) \<in> set binary_operators \<and> literal (operator_token operator) = operator"
  by (auto simp: infix_operators_def operator_token_def binary_operators_def)

lemma operator_token_prefix:
  "operator \<in> set prefix_operators \<Longrightarrow>
   (type (operator_token operator) = MINUS \<or> type (operator_token operator) = BANG) \<and>
   literal (operator_token operator) = operator"
  by (auto simp: prefix_operators_def operator_token_def)

lemma expression_tokens_last:
  "plain_expression e \<Longrightarrow>
   expression_tokens e \<noteq> [] \<and> type (last (expression_tokens e)) \<noteq> END_OF_FILE"
proof (cases e)
  case (PREFIX_EXPRESSION tok operator right)
  assume "plain_expression e"
  then show ?thesis using PREFIX_EXPRESSION by (cases right) auto
next
  case (INFIX_EXPRESSION tok operator left right)
  assume "plain_expression e"
  then show ?thesis using INFIX_EXPRESSION by (cases left; cases right) auto
next
  case (CALL_EXPRESSION tok callee arguments)
  assume "plain_expression e"
  then show ?thesis using CALL_EXPRESSION by (cases callee) (auto simp: rparen_token_def)
qed auto

lemma expression_tokens_first:
  "plain_expression e \<Longrightarrow>
   type (hd (expression_tokens e)) \<in> {IDENT, INT', TRUE, FALSE, LPAREN}"
proof (induction e rule: expression_induct)
  case (PREFIX tok operator right)
  then show ?case by (cases right) auto
next
  case (INFIX tok operator left right)
  then show ?case by (cases left; cases right) auto
next
  case (CALL tok callee arguments)
  then obtain f where f: "callee = Some f" "plain_expression f" by (cases callee) auto
  show ?case using CALL.IH(1)[OF f] f expression_tokens_last[OF f(2)] by simp
qed auto

lemma last_arguments_not_eof:
  assumes "\<And>a. a \<in> set args \<Longrightarrow> \<exists>x. a = Some x \<and> plain_expression x"
    and "type lst \<noteq> END_OF_FILE"
  shows "type (last (lst # concat (map (\<lambda>a. comma_token #
            (case a of Some x \<Rightarrow> expression_tokens x | None \<Rightarrow> [])) args))) \<noteq> END_OF_FILE"
  using assms
proof (induction args arbitrary: lst)
  case Nil
  then show ?case by simp
next
  case (Cons a args)
  obtain x where x: "a = Some x" "plain_expression x" using Cons.prems(1)[of a] by auto
  have l: "expression_tokens x \<noteq> []" "type (last (expression_tokens x)) \<noteq> END_OF_FILE"
    using expression_tokens_last[OF x(2)] by auto
  have eq: "last (lst # concat (map (\<lambda>a. comma_token #
            (case a of Some x \<Rightarrow> expression_tokens x | None \<Rightarrow> [])) (a # args))) =
      last (last (expression_tokens x) # concat (map (\<lambda>a. comma_token #
            (case a of Some x \<Rightarrow> expression_tokens x | None \<Rightarrow> [])) args))"
    using x(1) l(1) by simp
  show ?case
    unfolding eq
  proof (rule Cons.IH)
    show "\<exists>x. a = Some x \<and> plain_expression x" if "a \<in> set args" for a
      using Cons.prems(1)[of a] that by simp
    show "type (last (expression_tokens x)) \<noteq> END_OF_FILE" using l(2) .
  qed
qed

lemma arguments_loop_printed:
  assumes "\<And>x rest'. Some x \<in> set args \<Longrightarrow>
             precedence (type (fst (lexer_next_token rest'))) = LOWEST \<Longrightarrow>
             expression_outcome (parser_at (expression_tokens x @ rest') errs) LOWEST
               (returns (parser_at (last (expression_tokens x) # rest') errs)
                  (Some (reparsed_expression x)))"
    and "\<And>a. a \<in> set args \<Longrightarrow> \<exists>x. a = Some x \<and> plain_expression x"
    and "type lst \<noteq> END_OF_FILE"
  shows "arguments_loop_outcome
           (parser_at (lst # concat (map (\<lambda>a. comma_token #
              (case a of Some x \<Rightarrow> expression_tokens x | None \<Rightarrow> [])) args) @
              rparen_token # rest) errs) acc
           (returns (parser_at (last (lst # concat (map (\<lambda>a. comma_token #
              (case a of Some x \<Rightarrow> expression_tokens x | None \<Rightarrow> [])) args)) #
              rparen_token # rest) errs) (acc @ map (map_option reparsed_expression) args))"
  using assms
proof (induction args arbitrary: lst acc)
  case Nil
  show ?case using Nil(3) by (auto intro!: arguments_loop_stop simp: rparen_token_def)
next
  case (Cons a args)
  obtain x where x: "a = Some x" "plain_expression x" using Cons.prems(2)[of a] by auto
  let ?cat = "concat (map (\<lambda>a. comma_token #
              (case a of Some x \<Rightarrow> expression_tokens x | None \<Rightarrow> [])) args)"
  let ?tail = "?cat @ rparen_token # rest"
  let ?p = "parser_at (lst # comma_token # expression_tokens x @ ?tail) errs"
  let ?p1 = "parser_at (last (expression_tokens x) # ?tail) errs"
  have l: "expression_tokens x \<noteq> []" "type (last (expression_tokens x)) \<noteq> END_OF_FILE"
    using expression_tokens_last[OF x(2)] by auto
  have c: "type comma_token = COMMA" "type comma_token \<noteq> END_OF_FILE" by (simp_all add: comma_token_def)
  have stop: "precedence (type (fst (lexer_next_token ?tail))) = LOWEST"
    by (cases args) (simp_all add: comma_token_def rparen_token_def lexer_next_token_def)
  have inner: "expression_outcome (parser_at (expression_tokens x @ ?tail) errs) LOWEST
      (returns ?p1 (Some (reparsed_expression x)))"
    using Cons.prems(1)[of x ?tail] x stop by simp
  have ih: "arguments_loop_outcome ?p1 (acc @ [Some (reparsed_expression x)])
      (returns (parser_at (last (last (expression_tokens x) # ?cat) # rparen_token # rest) errs)
         ((acc @ [Some (reparsed_expression x)]) @ map (map_option reparsed_expression) args))"
    using Cons.IH[of "last (expression_tokens x)" "acc @ [Some (reparsed_expression x)]"]
      Cons.prems(1,2) l(2) by simp
  have n: "parser_next_token (parser_next_token ?p) = parser_at (expression_tokens x @ ?tail) errs"
    using Cons.prems(3) c(2) by (simp add: next_at)
  have pk: "type (peek_tok ?p) = COMMA" using Cons.prems(3) c by simp
  have inner': "expression_outcome (parser_next_token (parser_next_token ?p)) LOWEST
      (returns ?p1 (Some (reparsed_expression x)))"
    unfolding n using inner .
  have "arguments_loop_outcome ?p acc
      (returns (parser_at (last (last (expression_tokens x) # ?cat) # rparen_token # rest) errs)
         ((acc @ [Some (reparsed_expression x)]) @ map (map_option reparsed_expression) args))"
    using pk inner' ih by (rule arguments_loop_step)
  moreover have "last (lst # concat (map (\<lambda>a. comma_token #
              (case a of Some x \<Rightarrow> expression_tokens x | None \<Rightarrow> [])) (a # args))) =
      last (last (expression_tokens x) # ?cat)"
    using x(1) l(1) by simp
  ultimately show ?case using x(1) by simp
qed

lemma parse_printed_expression:
  assumes "plain_expression e"
    and "precedence_value q < precedence_value CALL"
    and "loop_outcome (parser_at (last (expression_tokens e) # rest) errs) q
           (Some (reparsed_expression e)) R"
  shows "expression_outcome (parser_at (expression_tokens e @ rest) errs) q R"
  using assms
proof (induction e arbitrary: q rest R rule: expression_induct)
  case (IDENTIFIER tok v)
  then show ?case by (auto intro: outcome_identifier)
next
  case (INTEGER tok v)
  have "decimal_repr v \<noteq> []"
    using decimal_digits_length_pos[of "nat v"] INTEGER.prems(1) by (auto simp: decimal_repr_def)
  then show ?case using INTEGER strtol_decimal[of v]
    by (auto intro!: outcome_integer)
next
  case (BOOLEAN tok v)
  then show ?case by (auto intro!: outcome_boolean)
next
  case (PREFIX tok operator right)
  then obtain r where r: "right = Some r" "plain_expression r" and o: "operator \<in> set prefix_operators"
    by (cases right) auto
  let ?o = "operator_token operator"
  let ?rp = "\<lparr>type = RPAREN, literal = '')''\<rparr>"
  let ?lp = "\<lparr>type = LPAREN, literal = ''(''\<rparr>"
  let ?node = "PREFIX_EXPRESSION ?o operator (Some (reparsed_expression r))"
  let ?after = "parser_at (last (expression_tokens r) # ?rp # rest) errs"
  have ot: "type ?o = MINUS \<or> type ?o = BANG" "literal ?o = operator"
    using operator_token_prefix[OF o] by auto
  have oe: "type ?o \<noteq> END_OF_FILE" using ot(1) by auto
  have lr: "expression_tokens r \<noteq> []" "type (last (expression_tokens r)) \<noteq> END_OF_FILE"
    using expression_tokens_last[OF r(2)] by auto
  have stop1: "loop_outcome ?after PREFIX (Some (reparsed_expression r))
      (returns ?after (Some (reparsed_expression r)))"
    using lr(2) by (intro loop_stop) simp
  have operand: "expression_outcome (parser_at (expression_tokens r @ ?rp # rest) errs) PREFIX
      (returns ?after (Some (reparsed_expression r)))"
    using PREFIX.IH[OF r(1) r(2) _ stop1] by simp
  have stop2: "loop_outcome ?after LOWEST (Some ?node) (returns ?after (Some ?node))"
    using lr(2) by (intro loop_stop) simp
  have inner: "expression_outcome (parser_at (?o # expression_tokens r @ ?rp # rest) errs) LOWEST
      (returns ?after (Some ?node))"
    using outcome_prefix[of "parser_at (?o # expression_tokens r @ ?rp # rest) errs" ?after
        "Some (reparsed_expression r)" LOWEST "returns ?after (Some ?node)"]
      ot operand stop2 by (simp add: next_at[OF oe])
  have outer: "loop_outcome (parser_at (?rp # rest) errs) q (Some ?node) R"
    using PREFIX.prems(3) r(1) by simp
  have "expression_outcome (parser_at (?lp # ?o # expression_tokens r @ ?rp # rest) errs) q R"
    using outcome_grouped[of "parser_at (?lp # ?o # expression_tokens r @ ?rp # rest) errs" ?after
        "Some ?node" q R] inner outer lr(2)
    by (simp add: next_at)
  then show ?case using r(1) by simp
next
  case (INFIX tok operator left right)
  then obtain l r where l: "left = Some l" "plain_expression l"
      and r: "right = Some r" "plain_expression r" and o: "operator \<in> set infix_operators"
    by (cases left; cases right) auto
  let ?o = "operator_token operator"
  let ?rp = "\<lparr>type = RPAREN, literal = '')''\<rparr>"
  let ?lp = "\<lparr>type = LPAREN, literal = ''(''\<rparr>"
  let ?node = "INFIX_EXPRESSION ?o operator (Some (reparsed_expression l)) (Some (reparsed_expression r))"
  let ?after = "parser_at (last (expression_tokens r) # ?rp # rest) errs"
  let ?mid = "parser_at (last (expression_tokens l) # ?o # expression_tokens r @ ?rp # rest) errs"
  have ot: "type ?o \<in> set binary_operators" "literal ?o = operator"
    using operator_token_infix[OF o] by auto
  have oe: "type ?o \<noteq> END_OF_FILE" using binary_not_eof[OF ot(1)] .
  have lv: "2 \<le> level ?o" using binary_level[OF ot(1)] by simp
  have lv5: "level ?o \<le> 5" using binary_level[OF ot(1)] by simp
  have lr: "expression_tokens r \<noteq> []" "type (last (expression_tokens r)) \<noteq> END_OF_FILE"
    using expression_tokens_last[OF r(2)] by auto
  have ll: "expression_tokens l \<noteq> []" "type (last (expression_tokens l)) \<noteq> END_OF_FILE"
    using expression_tokens_last[OF l(2)] by auto
  have stop1: "loop_outcome ?after (precedence (type ?o)) (Some (reparsed_expression r))
      (returns ?after (Some (reparsed_expression r)))"
    using lr(2) precedence_positive[of "precedence (type ?o)"] by (intro loop_stop) simp
  have operand: "expression_outcome (parser_at (expression_tokens r @ ?rp # rest) errs)
      (precedence (type ?o)) (returns ?after (Some (reparsed_expression r)))"
    using INFIX.IH(2)[OF r(1) r(2) _ stop1] lv5 by (simp add: level_def)
  have stop2: "loop_outcome ?after LOWEST (Some ?node) (returns ?after (Some ?node))"
    using lr(2) by (intro loop_stop) simp
  have mid: "loop_outcome ?mid LOWEST (Some (reparsed_expression l)) (returns ?after (Some ?node))"
    using loop_infix[of ?mid LOWEST ?after "Some (reparsed_expression r)" "Some (reparsed_expression l)"
        "returns ?after (Some ?node)"] ot operand stop2 ll(2) oe lv
    by (simp add: next_at level_def)
  have inner: "expression_outcome
      (parser_at (expression_tokens l @ ?o # expression_tokens r @ ?rp # rest) errs) LOWEST
      (returns ?after (Some ?node))"
    using INFIX.IH(1)[OF l(1) l(2) _ mid] by simp
  have outer: "loop_outcome (parser_at (?rp # rest) errs) q (Some ?node) R"
    using INFIX.prems(3) l(1) r(1) by simp
  have "expression_outcome
      (parser_at (?lp # expression_tokens l @ ?o # expression_tokens r @ ?rp # rest) errs) q R"
    using outcome_grouped[of
        "parser_at (?lp # expression_tokens l @ ?o # expression_tokens r @ ?rp # rest) errs" ?after
        "Some ?node" q R] inner outer lr(2)
    by (simp add: next_at)
  then show ?case using l(1) r(1) by simp
next
  case (CALL tok callee arguments)
  then obtain f where f: "callee = Some f" "plain_expression f"
      and as: "list_all (\<lambda>a. case a of Some x \<Rightarrow> plain_expression x | None \<Rightarrow> False) arguments"
    by (cases callee) auto
  have args: "\<And>a. a \<in> set arguments \<Longrightarrow> \<exists>x. a = Some x \<and> plain_expression x"
    using as by (auto simp: list_all_iff split: option.splits)
  let ?argtoks = "separated (map (\<lambda>a. case a of Some x \<Rightarrow> expression_tokens x | None \<Rightarrow> []) arguments)"
  let ?node = "CALL_EXPRESSION (hd (?argtoks @ [rparen_token])) (Some (reparsed_expression f))
      (map (map_option reparsed_expression) arguments)"
  let ?rest = "lparen_token # ?argtoks @ rparen_token # rest"
  let ?p = "parser_at (last (expression_tokens f) # ?rest) errs"
  let ?after = "parser_at (rparen_token # rest) errs"
  have lp: "type lparen_token = LPAREN" "type lparen_token \<noteq> END_OF_FILE"
      "type rparen_token = RPAREN" "type rparen_token \<noteq> END_OF_FILE"
    by (simp_all add: lparen_token_def rparen_token_def)
  have lf: "expression_tokens f \<noteq> []" "type (last (expression_tokens f)) \<noteq> END_OF_FILE"
    using expression_tokens_last[OF f(2)] by auto
  have each: "expression_outcome (parser_at (expression_tokens x @ rest') errs) LOWEST
               (returns (parser_at (last (expression_tokens x) # rest') errs)
                  (Some (reparsed_expression x)))"
    if "Some x \<in> set arguments" "precedence (type (fst (lexer_next_token rest'))) = LOWEST"
    for x rest'
  proof -
    have x: "plain_expression x" using args[OF that(1)] by auto
    have s: "loop_outcome (parser_at (last (expression_tokens x) # rest') errs) LOWEST
        (Some (reparsed_expression x))
        (returns (parser_at (last (expression_tokens x) # rest') errs) (Some (reparsed_expression x)))"
      using that(2) expression_tokens_last[OF x] by (intro loop_stop) simp
    show ?thesis using CALL.IH(2)[OF that(1) x _ s] by simp
  qed
  have first: "fst (lexer_next_token (?argtoks @ rparen_token # rest)) = hd (?argtoks @ [rparen_token])"
  proof (cases arguments)
    case Nil then show ?thesis using lp by simp
  next
    case (Cons a as')
    then obtain x where x: "a = Some x" "plain_expression x" using args[of a] by auto
    have "type (hd (expression_tokens x)) \<noteq> END_OF_FILE" using expression_tokens_first[OF x(2)] by auto
    then show ?thesis using Cons x expression_tokens_last[OF x(2)]
      by (cases "expression_tokens x") (simp_all add: separated_Cons)
  qed
  have arguments: "arguments_outcome (parser_at ?rest errs)
      (returns ?after (Some (map (map_option reparsed_expression) arguments)))"
  proof (cases arguments)
    case Nil
    show ?thesis
      using arguments_none[of "parser_at (lparen_token # rparen_token # rest) errs"] lp Nil
      by (simp add: next_at)
  next
    case (Cons a as')
    then obtain x where x: "a = Some x" "plain_expression x" using args[of a] by auto
    let ?cat = "concat (map (\<lambda>a. comma_token #
              (case a of Some x \<Rightarrow> expression_tokens x | None \<Rightarrow> [])) as')"
    let ?tail = "?cat @ rparen_token # rest"
    have sep: "?argtoks @ rparen_token # rest = expression_tokens x @ ?tail"
      using Cons x by (simp add: separated_Cons o_def)
    have stop: "precedence (type (fst (lexer_next_token ?tail))) = LOWEST"
      by (cases as') (simp_all add: comma_token_def rparen_token_def lexer_next_token_def)
    have inner: "expression_outcome (parser_at (expression_tokens x @ ?tail) errs) LOWEST
        (returns (parser_at (last (expression_tokens x) # ?tail) errs) (Some (reparsed_expression x)))"
      using each[of x ?tail] Cons x stop by simp
    let ?lst = "last (last (expression_tokens x) # ?cat)"
    have rest_args: "\<And>a. a \<in> set as' \<Longrightarrow> \<exists>x. a = Some x \<and> plain_expression x"
      using args Cons by auto
    have lx: "type (last (expression_tokens x)) \<noteq> END_OF_FILE"
      using expression_tokens_last[OF x(2)] by simp
    have loop: "arguments_loop_outcome (parser_at (last (expression_tokens x) # ?tail) errs)
        [Some (reparsed_expression x)]
        (returns (parser_at (?lst # rparen_token # rest) errs)
           ([Some (reparsed_expression x)] @ map (map_option reparsed_expression) as'))"
    proof (rule arguments_loop_printed)
      show "type (last (expression_tokens x)) \<noteq> END_OF_FILE" using lx .
      show "\<exists>x. a = Some x \<and> plain_expression x" if "a \<in> set as'" for a
        using rest_args that by simp
      show "expression_outcome (parser_at (expression_tokens x @ rest') errs) LOWEST
               (returns (parser_at (last (expression_tokens x) # rest') errs)
                  (Some (reparsed_expression x)))"
        if "Some x \<in> set as'" "precedence (type (fst (lexer_next_token rest'))) = LOWEST" for x rest'
        using each[of x rest'] that Cons by simp
    qed
    have nl: "type ?lst \<noteq> END_OF_FILE"
      using last_arguments_not_eof[of as' "last (expression_tokens x)"] rest_args lx by blast
    have fk: "type (hd (expression_tokens x)) \<noteq> RPAREN" "type (hd (expression_tokens x)) \<noteq> END_OF_FILE"
      using expression_tokens_first[OF x(2)] by auto
    have pk: "type (peek_tok (parser_at (lparen_token # expression_tokens x @ ?tail) errs)) \<noteq> RPAREN"
      using fk expression_tokens_last[OF x(2)] lp by (cases "expression_tokens x") simp_all
    have n1: "parser_next_token (parser_at (lparen_token # expression_tokens x @ ?tail) errs) =
        parser_at (expression_tokens x @ ?tail) errs"
      using lp(2) by (rule next_at)
    have n2: "parser_next_token (parser_at (?lst # rparen_token # rest) errs) = ?after"
      using nl by (rule next_at)
    have pk2: "type (peek_tok (parser_at (?lst # rparen_token # rest) errs)) = RPAREN"
      using nl lp by simp
    have inner': "expression_outcome
        (parser_next_token (parser_at (lparen_token # expression_tokens x @ ?tail) errs)) LOWEST
        (returns (parser_at (last (expression_tokens x) # ?tail) errs) (Some (reparsed_expression x)))"
      unfolding n1 using inner .
    have loop': "arguments_loop_outcome (parser_at (last (expression_tokens x) # ?tail) errs)
        [Some (reparsed_expression x)]
        (returns (parser_at (?lst # rparen_token # rest) errs)
           (map (map_option reparsed_expression) arguments))"
      using loop Cons x by simp
    have "arguments_outcome (parser_at (lparen_token # expression_tokens x @ ?tail) errs)
        (returns (parser_next_token (parser_at (?lst # rparen_token # rest) errs))
           (Some (map (map_option reparsed_expression) arguments)))"
      using pk inner' loop' pk2 by (rule arguments_some)
    then show ?thesis unfolding n2 sep .
  qed
  have outer: "loop_outcome ?after q (Some ?node) R"
    using CALL.prems(3) f(1) by simp
  have mid: "loop_outcome ?p q (Some (reparsed_expression f)) R"
    using loop_call[of ?p q ?after "map (map_option reparsed_expression) arguments"
        "Some (reparsed_expression f)" R] CALL.prems(2) first arguments outer lf(2) lp
    by (simp add: next_at)
  show ?case
    using CALL.IH(1)[OF f(1) f(2) CALL.prems(2) mid] f(1) by simp
qed auto

lemma at_nil: "parser_at [] errs =
    \<lparr>lexer = [], cur_tok = \<lparr>type = END_OF_FILE, literal = []\<rparr>,
     peek_tok = \<lparr>type = END_OF_FILE, literal = []\<rparr>, errors = errs\<rparr>"
  by (simp add: parser_at_def lexer_next_token_def)

lemma next_at_last:
  "type t \<noteq> END_OF_FILE \<Longrightarrow> parser_next_token (parser_at [t] errs) = parser_at [] errs"
  by (rule next_at)

lemma statement_tokens_last:
  "plain_statement s \<Longrightarrow>
   statement_tokens s \<noteq> [] \<and> type (last (statement_tokens s)) \<noteq> END_OF_FILE \<and>
   type (hd (statement_tokens s)) \<noteq> END_OF_FILE"
proof (cases s)
  case (LET_STATEMENT tok name v)
  assume "plain_statement s"
  then show ?thesis using LET_STATEMENT by (cases v) auto
next
  case (EXPRESSION_STATEMENT tok v)
  assume p: "plain_statement s"
  then obtain e where e: "v = Some e" "plain_expression e"
    using EXPRESSION_STATEMENT by (cases v) auto
  show ?thesis
    using EXPRESSION_STATEMENT e expression_tokens_last[OF e(2)] expression_tokens_first[OF e(2)]
    by auto
qed auto

lemma expression_tokens_first_plain:
  "plain_expression e \<Longrightarrow> \<not> opens_with_parenthesis e \<Longrightarrow>
   type (hd (expression_tokens e)) \<in> {IDENT, INT', TRUE, FALSE}"
proof (induction e rule: expression_induct)
  case (CALL tok callee arguments)
  then obtain f where f: "callee = Some f" "plain_expression f" "\<not> opens_with_parenthesis f"
    by (cases callee) auto
  show ?case using CALL.IH(1)[OF f] f expression_tokens_last[OF f(2)] by simp
qed auto

lemma statement_tokens_first:
  "plain_statement s \<Longrightarrow> \<not> starts_with_parenthesis s \<Longrightarrow>
   type (hd (statement_tokens s)) \<in> {LET, IDENT, INT', TRUE, FALSE}"
proof (cases s)
  case (LET_STATEMENT tok name v)
  assume "plain_statement s"
  then show ?thesis using LET_STATEMENT by (cases v) auto
next
  case (EXPRESSION_STATEMENT tok v)
  assume p: "plain_statement s" "\<not> starts_with_parenthesis s"
  then obtain e where e: "v = Some e" "plain_expression e" "\<not> opens_with_parenthesis e"
    using EXPRESSION_STATEMENT by (cases v) auto
  show ?thesis
    using EXPRESSION_STATEMENT e(1) expression_tokens_first_plain[OF e(2,3)] by auto
qed auto

lemma parse_printed_statement:
  assumes "plain_statement s"
    and "is_expression_statement s \<Longrightarrow>
           precedence (type (fst (lexer_next_token rest))) = LOWEST \<and>
           type (fst (lexer_next_token rest)) \<noteq> SEMICOLON"
  shows "statement_outcome (parser_at (statement_tokens s @ rest) errs)
           (returns (parser_at (last (statement_tokens s) # rest) errs) (Some (reparsed_statement s)))"
proof (cases s)
  case (LET_STATEMENT tok name v)
  then obtain e where e: "v = Some e" "plain_expression e"
    using assms(1) by (cases v) auto
  let ?semi = "\<lparr>type = SEMICOLON, literal = '';''\<rparr>"
  let ?let = "\<lparr>type = LET, literal = ''let''\<rparr>"
  let ?id = "\<lparr>type = IDENT, literal = snd name\<rparr>"
  let ?as = "\<lparr>type = ASSIGN, literal = ''=''\<rparr>"
  let ?p = "parser_at (?let # ?id # ?as # expression_tokens e @ ?semi # rest) errs"
  let ?after = "parser_at (last (expression_tokens e) # ?semi # rest) errs"
  have le: "expression_tokens e \<noteq> []" "type (last (expression_tokens e)) \<noteq> END_OF_FILE"
    using expression_tokens_last[OF e(2)] by auto
  have stop: "loop_outcome ?after LOWEST (Some (reparsed_expression e))
      (returns ?after (Some (reparsed_expression e)))"
    using le(2) by (intro loop_stop) simp
  obtain n0 where n0: "\<forall>n \<ge> n0.
      parse_expression n (parser_at (expression_tokens e @ ?semi # rest) errs) LOWEST =
        returns ?after (Some (reparsed_expression e))"
    using parse_printed_expression[OF e(2) _ stop] unfolding expression_outcome_def by auto
  have n1: "parser_next_token ?p = parser_at (?id # ?as # expression_tokens e @ ?semi # rest) errs"
    by (rule next_at) simp
  have n2: "parser_next_token (parser_at (?id # ?as # expression_tokens e @ ?semi # rest) errs) =
      parser_at (?as # expression_tokens e @ ?semi # rest) errs"
    by (rule next_at) simp
  have n3: "parser_next_token (parser_at (?as # expression_tokens e @ ?semi # rest) errs) =
      parser_at (expression_tokens e @ ?semi # rest) errs"
    by (rule next_at) simp
  have n4: "parser_next_token ?after = parser_at (?semi # rest) errs"
    using le(2) by (rule next_at)
  have "\<forall>n \<ge> Suc n0. parser_parse_statement n ?p =
      returns (parser_at (?semi # rest) errs)
        (Some (LET_STATEMENT ?let (?id, snd name) (Some (reparsed_expression e))))"
  proof (intro allI impI)
    fix n assume "Suc n0 \<le> n"
    then obtain m where m: "n = Suc m" "n0 \<le> m" by (cases n) auto
    show "parser_parse_statement n ?p =
      returns (parser_at (?semi # rest) errs)
        (Some (LET_STATEMENT ?let (?id, snd name) (Some (reparsed_expression e))))"
      using n0 m le(2)
      by (simp add: parse_letstatement_def expect_peek_def n1 n2 n3 n4 create_identifier_def)
  qed
  then show ?thesis
    unfolding statement_outcome_def using LET_STATEMENT e(1) by auto
next
  case (EXPRESSION_STATEMENT tok v)
  then obtain e where e: "v = Some e" "plain_expression e"
    using assms(1) by (cases v) auto
  let ?p = "parser_at (expression_tokens e @ rest) errs"
  let ?after = "parser_at (last (expression_tokens e) # rest) errs"
  have nt: "precedence (type (fst (lexer_next_token rest))) = LOWEST"
      "type (fst (lexer_next_token rest)) \<noteq> SEMICOLON"
    using assms(2) EXPRESSION_STATEMENT by auto
  have le: "expression_tokens e \<noteq> []" "type (last (expression_tokens e)) \<noteq> END_OF_FILE"
    using expression_tokens_last[OF e(2)] by auto
  obtain t ts where ts: "expression_tokens e = t # ts" using le(1) by (cases "expression_tokens e") auto
  have ft: "type t \<in> {IDENT, INT', TRUE, FALSE, LPAREN}"
    using expression_tokens_first[OF e(2)] ts by simp
  have cur: "cur_tok ?p = t" using ts by simp
  have stop: "loop_outcome ?after LOWEST (Some (reparsed_expression e))
      (returns ?after (Some (reparsed_expression e)))"
    using le(2) nt(1) by (intro loop_stop) simp
  obtain n0 where n0: "\<forall>n \<ge> n0. parse_expression n ?p LOWEST =
        returns ?after (Some (reparsed_expression e))"
    using parse_printed_expression[OF e(2) _ stop] unfolding expression_outcome_def by auto
  have "\<forall>n \<ge> Suc n0. parser_parse_statement n ?p =
      returns ?after (Some (EXPRESSION_STATEMENT t (Some (reparsed_expression e))))"
  proof (intro allI impI)
    fix n assume "Suc n0 \<le> n"
    then obtain m where m: "n = Suc m" "n0 \<le> m" by (cases n) auto
    have "parser_parse_statement n ?p = parse_expression_statement (\<lambda>p q. parse_expression m p q) ?p"
      using ft m(1) cur by (auto split: token_type.splits)
    then show "parser_parse_statement n ?p =
      returns ?after (Some (EXPRESSION_STATEMENT t (Some (reparsed_expression e))))"
      using n0 m le(2) nt(2) cur by (simp add: parse_expression_statement_def)
  qed
  then show ?thesis
    unfolding statement_outcome_def using EXPRESSION_STATEMENT e(1) ts
    by (intro exI[of _ "Suc n0"]) simp
qed (use assms(1) in auto)

lemma program_step:
  assumes "type (cur_tok p) \<noteq> END_OF_FILE"
    and "statement_outcome p (returns p1 (Some s))"
    and "program_outcome (parser_next_token p1) (acc @ [s]) r"
  shows "program_outcome p acc r"
proof -
  obtain n1 where n1: "\<forall>n \<ge> n1. parser_parse_statement n p = returns p1 (Some s)"
    using assms(2) by (auto simp: statement_outcome_def)
  obtain n2 where n2: "\<forall>n \<ge> n2. parse_program_loop n (parser_next_token p1) (acc @ [s]) = r"
    using assms(3) by (auto simp: program_outcome_def)
  have "\<forall>n \<ge> Suc (max n1 n2). parse_program_loop n p acc = r"
  proof (intro allI impI)
    fix n assume "Suc (max n1 n2) \<le> n"
    then obtain m where m: "n = Suc m" "n1 \<le> m" "n2 \<le> m" by (cases n) auto
    show "parse_program_loop n p acc = r" using assms(1) n1 n2 m by simp
  qed
  then show ?thesis unfolding program_outcome_def by blast
qed

lemma program_stop:
  "type (cur_tok p) = END_OF_FILE \<Longrightarrow> program_outcome p acc (returns p acc)"
  unfolding program_outcome_def
proof (intro exI[of _ 1] allI impI)
  fix n :: nat assume a: "type (cur_tok p) = END_OF_FILE" "1 \<le> n"
  then obtain m where "n = Suc m" by (cases n) auto
  then show "parse_program_loop n p acc = returns p acc" using a by simp
qed

lemma parse_printed_program:
  "plain_program prog \<Longrightarrow>
   program_outcome (parser_at (concat (map statement_tokens prog)) errs) acc
     (returns (parser_at [] errs) (acc @ map reparsed_statement prog))"
proof (induction prog arbitrary: acc rule: plain_program.induct)
  case 1
  then show ?case by simp
next
  case (2 stmt)
  have ps: "plain_statement stmt" using 2 by simp
  have f: "statement_tokens stmt \<noteq> []" "type (last (statement_tokens stmt)) \<noteq> END_OF_FILE"
      "type (hd (statement_tokens stmt)) \<noteq> END_OF_FILE"
    using statement_tokens_last[OF ps] by auto
  have s: "statement_outcome (parser_at (statement_tokens stmt @ []) errs)
      (returns (parser_at (last (statement_tokens stmt) # []) errs) (Some (reparsed_statement stmt)))"
    by (rule parse_printed_statement[OF ps]) (simp add: lexer_next_token_def)
  have c: "type (cur_tok (parser_at (statement_tokens stmt) errs)) \<noteq> END_OF_FILE"
    using f(1,3) by (cases "statement_tokens stmt") auto
  have e: "program_outcome (parser_at [] errs) (acc @ [reparsed_statement stmt])
      (returns (parser_at [] errs) (acc @ [reparsed_statement stmt]))"
    by (rule program_stop) (simp add: at_nil)
  show ?case
    using program_step[OF c, of "parser_at [last (statement_tokens stmt)] errs"
        "reparsed_statement stmt" acc] s e f(2)
    by (simp add: next_at)
next
  case (3 stmt next_stmt statements)
  have ps: "plain_statement stmt" and pn: "plain_statement next_stmt"
      and pp: "plain_program (next_stmt # statements)"
      and np: "\<not> (is_expression_statement stmt \<and> starts_with_parenthesis next_stmt)"
    using "3.prems" by (cases statements; simp)+
  let ?rest = "concat (map statement_tokens (next_stmt # statements))"
  have f: "statement_tokens stmt \<noteq> []" "type (last (statement_tokens stmt)) \<noteq> END_OF_FILE"
      "type (hd (statement_tokens stmt)) \<noteq> END_OF_FILE"
    using statement_tokens_last[OF ps] by auto
  have g: "statement_tokens next_stmt \<noteq> []" "type (hd (statement_tokens next_stmt)) \<noteq> END_OF_FILE"
    using statement_tokens_last[OF pn] by auto
  have hd: "fst (lexer_next_token ?rest) = hd (statement_tokens next_stmt)"
    using g by (cases "statement_tokens next_stmt") simp_all
  have s: "statement_outcome (parser_at (statement_tokens stmt @ ?rest) errs)
      (returns (parser_at (last (statement_tokens stmt) # ?rest) errs) (Some (reparsed_statement stmt)))"
  proof (rule parse_printed_statement[OF ps])
    assume "is_expression_statement stmt"
    then have "\<not> starts_with_parenthesis next_stmt" using np by simp
    then have "type (hd (statement_tokens next_stmt)) \<in> {LET, IDENT, INT', TRUE, FALSE}"
      using statement_tokens_first[OF pn] by simp
    then show "precedence (type (fst (lexer_next_token ?rest))) = LOWEST \<and>
           type (fst (lexer_next_token ?rest)) \<noteq> SEMICOLON"
      unfolding hd by auto
  qed
  have c: "type (cur_tok (parser_at (statement_tokens stmt @ ?rest) errs)) \<noteq> END_OF_FILE"
    using f(1,3) by (cases "statement_tokens stmt") auto
  have ih: "program_outcome (parser_at ?rest errs) (acc @ [reparsed_statement stmt])
      (returns (parser_at [] errs)
         ((acc @ [reparsed_statement stmt]) @ map reparsed_statement (next_stmt # statements)))"
    by (rule "3.IH"[OF pp])
  have "program_outcome (parser_at (statement_tokens stmt @ ?rest) errs) acc
      (returns (parser_at [] errs)
         ((acc @ [reparsed_statement stmt]) @ map reparsed_statement (next_stmt # statements)))"
    using program_step[OF c, of "parser_at (last (statement_tokens stmt) # ?rest) errs"
        "reparsed_statement stmt" acc] s ih f(2)
    by (simp add: next_at)
  then show ?case by simp
qed

lemma erase_reparsed_expression:
  "plain_expression e \<Longrightarrow> erase_expression (reparsed_expression e) = erase_expression e"
proof (induction e rule: plain_expression.induct)
  case (6 tok callee arguments)
  have "map_option erase_expression (map_option reparsed_expression a) = map_option erase_expression a"
    if "a \<in> set arguments" for a
    using 6 that by (cases a) (auto simp: list_all_iff)
  then have "map (map_option erase_expression) (map (map_option reparsed_expression) arguments) =
      map (map_option erase_expression) arguments"
    by (simp add: map_idI)
  then show ?case using 6 by simp
qed simp_all

lemma erase_reparsed_statement:
  "plain_statement s \<Longrightarrow> erase_statement (reparsed_statement s) = erase_statement s"
  by (induction s rule: plain_statement.induct) (simp_all add: erase_reparsed_expression)

lemma erase_reparsed_program:
  "plain_program prog \<Longrightarrow> map erase_statement (map reparsed_statement prog) = map erase_statement prog"
  by (induction prog rule: plain_program.induct) (simp_all add: erase_reparsed_statement)

text \<open>
  Claim C7. The claim says that printing a parsed program and parsing the string again
  gives a structurally identical tree, also for function literals. This holds for the plain
  programs: sequences of let statements and expression statements over identifiers,
  integers from 0 to \<open>LONG_MAX\<close>, booleans, prefix operators, infix operators and calls,
  in which no expression statement is directly followed by a statement whose string starts
  with a parenthesis. For every such program \<open>program_string\<close> returns a string, for every
  content of the allocated blocks; lexing and parsing that string returns, for every large
  enough bound, a program without an error that differs from the first one only in the
  tokens kept in the nodes. It does not hold for function literals: the source
  \<open>fn(x) { x }\<close> parses without an error; its string form is \<open>fn(x) x\<close>, because the string
  of a block has no braces; parsing that string records an error and gives two statements,
  the first without an expression.
\<close>

theorem round_trip_plain_programs:
  assumes "plain_program program"
  shows "\<exists>s. (\<forall>junk n. program_string junk n program = result (Some s)) \<and>
           (\<exists>n0. \<forall>n \<ge> n0. \<exists>parser' program'.
              parse_source n s = returns parser' program' \<and> errors parser' = [] \<and>
              structurally_identical program' program)"
proof -
  obtain n0 where n0: "\<forall>n \<ge> n0.
      parse_program_loop n (parser_at (concat (map statement_tokens program)) []) [] =
        returns (parser_at [] []) ([] @ map reparsed_statement program)"
    using parse_printed_program[OF assms, of "[]" "[]"] unfolding program_outcome_def by blast
  have "\<forall>n \<ge> n0. \<exists>parser' program'.
      parse_source n (printed_program program) = returns parser' program' \<and> errors parser' = [] \<and>
      structurally_identical program' program"
  proof (intro allI impI)
    fix n assume "n0 \<le> n"
    then have "parse_source n (printed_program program) =
        returns (parser_at [] []) (map reparsed_statement program)"
      using n0 by (simp add: parse_source_def parse_program_def lex_program[OF assms] init_at)
    then show "\<exists>parser' program'.
      parse_source n (printed_program program) = returns parser' program' \<and> errors parser' = [] \<and>
      structurally_identical program' program"
      using erase_reparsed_program[OF assms]
      by (intro exI[of _ "parser_at [] []"] exI[of _ "map reparsed_statement program"])
         (simp add: structurally_identical_def)
  qed
  then show ?thesis
    using program_string_plain[OF assms]
    by (intro exI[of _ "printed_program program"]) blast
qed

theorem round_trip_plain_programs_witness:
  "(\<forall>junk n.
      program_string junk n
        [LET_STATEMENT \<lparr>type = LET, literal = ''let''\<rparr> (\<lparr>type = IDENT, literal = ''a''\<rparr>, ''a'')
           (Some (INTEGER_EXPRESSION \<lparr>type = INT', literal = ''5''\<rparr> 5)),
         EXPRESSION_STATEMENT \<lparr>type = IDENT, literal = ''f''\<rparr>
           (Some (CALL_EXPRESSION \<lparr>type = IDENT, literal = ''a''\<rparr>
              (Some (IDENTIFIER_EXPRESSION \<lparr>type = IDENT, literal = ''f''\<rparr> ''f''))
              [Some (INFIX_EXPRESSION \<lparr>type = ASTERISK, literal = ''*''\<rparr> ''*''
                 (Some (IDENTIFIER_EXPRESSION \<lparr>type = IDENT, literal = ''a''\<rparr> ''a''))
                 (Some (PREFIX_EXPRESSION \<lparr>type = MINUS, literal = ''-''\<rparr> ''-''
                    (Some (INTEGER_EXPRESSION \<lparr>type = INT', literal = ''2''\<rparr> 2))))),
               Some (BOOLEAN_EXPRESSION \<lparr>type = TRUE, literal = ''true''\<rparr> True)]))] =
      result (Some ''let a = 5; f((a * (-2)), true)'')) \<and>
   (\<exists>n0. \<forall>n \<ge> n0. \<exists>parser' program'.
      parse_source n ''let a = 5; f((a * (-2)), true)'' = returns parser' program' \<and> errors parser' = [] \<and>
      structurally_identical program'
        [LET_STATEMENT \<lparr>type = LET, literal = ''let''\<rparr> (\<lparr>type = IDENT, literal = ''a''\<rparr>, ''a'')
           (Some (INTEGER_EXPRESSION \<lparr>type = INT', literal = ''5''\<rparr> 5)),
         EXPRESSION_STATEMENT \<lparr>type = IDENT, literal = ''f''\<rparr>
           (Some (CALL_EXPRESSION \<lparr>type = IDENT, literal = ''a''\<rparr>
              (Some (IDENTIFIER_EXPRESSION \<lparr>type = IDENT, literal = ''f''\<rparr> ''f''))
              [Some (INFIX_EXPRESSION \<lparr>type = ASTERISK, literal = ''*''\<rparr> ''*''
                 (Some (IDENTIFIER_EXPRESSION \<lparr>type = IDENT, literal = ''a''\<rparr> ''a''))
                 (Some (PREFIX_EXPRESSION \<lparr>type = MINUS, literal = ''-''\<rparr> ''-''
                    (Some (INTEGER_EXPRESSION \<lparr>type = INT', literal = ''2''\<rparr> 2))))),
               Some (BOOLEAN_EXPRESSION \<lparr>type = TRUE, literal = ''true''\<rparr> True)]))])"
proof -
  let ?P = "[LET_STATEMENT \<lparr>type = LET, literal = ''let''\<rparr> (\<lparr>type = IDENT, literal = ''a''\<rparr>, ''a'')
           (Some (INTEGER_EXPRESSION \<lparr>type = INT', literal = ''5''\<rparr> 5)),
         EXPRESSION_STATEMENT \<lparr>type = IDENT, literal = ''f''\<rparr>
           (Some (CALL_EXPRESSION \<lparr>type = IDENT, literal = ''a''\<rparr>
              (Some (IDENTIFIER_EXPRESSION \<lparr>type = IDENT, literal = ''f''\<rparr> ''f''))
              [Some (INFIX_EXPRESSION \<lparr>type = ASTERISK, literal = ''*''\<rparr> ''*''
                 (Some (IDENTIFIER_EXPRESSION \<lparr>type = IDENT, literal = ''a''\<rparr> ''a''))
                 (Some (PREFIX_EXPRESSION \<lparr>type = MINUS, literal = ''-''\<rparr> ''-''
                    (Some (INTEGER_EXPRESSION \<lparr>type = INT', literal = ''2''\<rparr> 2))))),
               Some (BOOLEAN_EXPRESSION \<lparr>type = TRUE, literal = ''true''\<rparr> True)]))]"
  have p: "plain_program ?P"
    by (simp add: is_identifier_def is_letter_def is_ident_char_def lookup_ident_def
          LONG_MAX_def infix_operators_def prefix_operators_def)
  have s: "printed_program ?P = ''let a = 5; f((a * (-2)), true)''"
    by (simp add: decimal_repr_digit digit_char_values generate_parameters_string_def
          boolean_expression_string_def)
  obtain str where str: "\<forall>junk n. program_string junk n ?P = result (Some str)"
      "\<exists>n0. \<forall>n \<ge> n0. \<exists>parser' program'.
         parse_source n str = returns parser' program' \<and> errors parser' = [] \<and>
         structurally_identical program' ?P"
    using round_trip_plain_programs[OF p] by blast
  have "result (Some str) = result (Some (printed_program ?P))"
    using str(1) program_string_plain[OF p, of "\<lambda>_. CHR 0x00" 0] by simp
  then have "str = ''let a = 5; f((a * (-2)), true)''" unfolding s by (simp add: result_def)
  then show ?thesis using str by blast
qed

theorem round_trip_counterexample:
  "parse_source 8 ''fn(x) { x }'' =
     returns \<lparr>lexer = [], cur_tok = \<lparr>type = END_OF_FILE, literal = []\<rparr>,
              peek_tok = \<lparr>type = END_OF_FILE, literal = []\<rparr>, errors = []\<rparr>
       [EXPRESSION_STATEMENT \<lparr>type = FUNCTION, literal = ''fn''\<rparr>
          (Some (FUNCTION_LITERAL \<lparr>type = FUNCTION, literal = ''fn''\<rparr>
                   [(\<lparr>type = IDENT, literal = ''x''\<rparr>, ''x'')]
                   (BLOCK_STATEMENT \<lparr>type = LBRACE, literal = ''{''\<rparr>
                      [EXPRESSION_STATEMENT \<lparr>type = IDENT, literal = ''x''\<rparr>
                         (Some (IDENTIFIER_EXPRESSION \<lparr>type = IDENT, literal = ''x''\<rparr> ''x''))])))] \<and>
   program_string (\<lambda>k. CHR 0x00) 0
       [EXPRESSION_STATEMENT \<lparr>type = FUNCTION, literal = ''fn''\<rparr>
          (Some (FUNCTION_LITERAL \<lparr>type = FUNCTION, literal = ''fn''\<rparr>
                   [(\<lparr>type = IDENT, literal = ''x''\<rparr>, ''x'')]
                   (BLOCK_STATEMENT \<lparr>type = LBRACE, literal = ''{''\<rparr>
                      [EXPRESSION_STATEMENT \<lparr>type = IDENT, literal = ''x''\<rparr>
                         (Some (IDENTIFIER_EXPRESSION \<lparr>type = IDENT, literal = ''x''\<rparr> ''x''))])))]
     = result (Some ''fn(x) x'') \<and>
   parse_source 8 ''fn(x) x'' =
     returns \<lparr>lexer = [], cur_tok = \<lparr>type = END_OF_FILE, literal = []\<rparr>,
              peek_tok = \<lparr>type = END_OF_FILE, literal = []\<rparr>,
              errors = [''expected next token to be LBRACE, got IDENT instead'']\<rparr>
       [EXPRESSION_STATEMENT \<lparr>type = FUNCTION, literal = ''fn''\<rparr> None,
        EXPRESSION_STATEMENT \<lparr>type = IDENT, literal = ''x''\<rparr>
          (Some (IDENTIFIER_EXPRESSION \<lparr>type = IDENT, literal = ''x''\<rparr> ''x''))] \<and>
   \<not> structurally_identical
       [EXPRESSION_STATEMENT \<lparr>type = FUNCTION, literal = ''fn''\<rparr> None,
        EXPRESSION_STATEMENT \<lparr>type = IDENT, literal = ''x''\<rparr>
          (Some (IDENTIFIER_EXPRESSION \<lparr>type = IDENT, literal = ''x''\<rparr> ''x''))]
       [EXPRESSION_STATEMENT \<lparr>type = FUNCTION, literal = ''fn''\<rparr>
          (Some (FUNCTION_LITERAL \<lparr>type = FUNCTION, literal = ''fn''\<rparr>
                   [(\<lparr>type = IDENT, literal = ''x''\<rparr>, ''x'')]
                   (BLOCK_STATEMENT \<lparr>type = LBRACE, literal = ''{''\<rparr>
                      [EXPRESSION_STATEMENT \<lparr>type = IDENT, literal = ''x''\<rparr>
                         (Some (IDENTIFIER_EXPRESSION \<lparr>type = IDENT, literal = ''x''\<rparr> ''x''))])))]"
proof -
  have 1: "parse_source 8 ''fn(x) { x }'' =
     returns \<lparr>lexer = [], cur_tok = \<lparr>type = END_OF_FILE, literal = []\<rparr>,
              peek_tok = \<lparr>type = END_OF_FILE, literal = []\<rparr>, errors = []\<rparr>
       [EXPRESSION_STATEMENT \<lparr>type = FUNCTION, literal = ''fn''\<rparr>
          (Some (FUNCTION_LITERAL \<lparr>type = FUNCTION, literal = ''fn''\<rparr>
                   [(\<lparr>type = IDENT, literal = ''x''\<rparr>, ''x'')]
                   (BLOCK_STATEMENT \<lparr>type = LBRACE, literal = ''{''\<rparr>
                      [EXPRESSION_STATEMENT \<lparr>type = IDENT, literal = ''x''\<rparr>
                         (Some (IDENTIFIER_EXPRESSION \<lparr>type = IDENT, literal = ''x''\<rparr> ''x''))])))]"
    unfolding parse_source_def lex_fn_block
    by (simp add: parse_program_def parser_init_def lexer_next_token_def parser_next_token_def
        numeral_eq_Suc parse_expression_statement_def parse_function_literal_def expect_peek_def
        parse_function_parameters_one parse_block_statement_def parse_identifier_expression_def
        returns_def peek_precedence_def)
  have 2: "program_string (\<lambda>k. CHR 0x00) 0
       [EXPRESSION_STATEMENT \<lparr>type = FUNCTION, literal = ''fn''\<rparr>
          (Some (FUNCTION_LITERAL \<lparr>type = FUNCTION, literal = ''fn''\<rparr>
                   [(\<lparr>type = IDENT, literal = ''x''\<rparr>, ''x'')]
                   (BLOCK_STATEMENT \<lparr>type = LBRACE, literal = ''{''\<rparr>
                      [EXPRESSION_STATEMENT \<lparr>type = IDENT, literal = ''x''\<rparr>
                         (Some (IDENTIFIER_EXPRESSION \<lparr>type = IDENT, literal = ''x''\<rparr> ''x''))])))]
     = result (Some ''fn(x) x'')"
    by (simp add: program_string_def percent_s_def generate_parameters_string_def)
  have 3: "parse_source 8 ''fn(x) x'' =
     returns \<lparr>lexer = [], cur_tok = \<lparr>type = END_OF_FILE, literal = []\<rparr>,
              peek_tok = \<lparr>type = END_OF_FILE, literal = []\<rparr>,
              errors = [''expected next token to be LBRACE, got IDENT instead'']\<rparr>
       [EXPRESSION_STATEMENT \<lparr>type = FUNCTION, literal = ''fn''\<rparr> None,
        EXPRESSION_STATEMENT \<lparr>type = IDENT, literal = ''x''\<rparr>
          (Some (IDENTIFIER_EXPRESSION \<lparr>type = IDENT, literal = ''x''\<rparr> ''x''))]"
    unfolding parse_source_def lex_fn_printed
    by (simp add: parse_program_def parser_init_def lexer_next_token_def parser_next_token_def
        numeral_eq_Suc parse_expression_statement_def parse_function_literal_def expect_peek_def
        parse_function_parameters_one parse_identifier_expression_def peek_error_def
        get_token_name_from_type_def add_parse_error_def
        returns_def peek_precedence_def)
  show ?thesis
    using 1 2 3 by (simp add: structurally_identical_def)
qed

end
